(* ===== verification/Prelude.thy ===== *)
theory Prelude
  imports Main "HOL-Library.Word"
begin

text \<open>
  Shared vocabulary of the development.

  \<^item> Machine integers at the widths of the code: \<open>u8\<close>, \<open>u32\<close>, \<open>u64\<close> and \<open>size_t\<close> (64 bits, the
    platform the sources are written for).
  \<^item> \<open>fault\<close> and \<open>'a res\<close>: every way a function of the library can fail to return a plain result.
    \<open>Assertion\<close> is a failed \<^verbatim>\<open>assert\<close>, \<open>Undefined\<close> is behaviour the language leaves undefined,
    \<open>System_error\<close> and \<open>Runtime_error\<close> are the exceptions the code throws.
  \<^item> Masks: \<open>w AND (c - 1)\<close> is the remainder modulo \<open>c\<close> when \<open>c\<close> is a power of two. All ring
    structures of the library rest on this fact.
  \<^item> Little-endian words: how an unsigned integer lies in memory.
  \<^item> Two locales used by every component with a state: \<open>invariant_steps\<close> (an invariant kept by
    each step is kept by each run) and \<open>refined_steps\<close> (a step-by-step simulation lifts to runs).
\<close>

unbundle bit_operations_syntax

section \<open>Machine integers, faults\<close>

type_synonym u8 = "8 word"
type_synonym u32 = "32 word"
type_synonym u64 = "64 word"
type_synonym size_t = "64 word"

datatype fault = Assertion | Undefined | System_error int | Runtime_error

type_synonym 'a res = "fault + 'a"

definition bind_res :: "'a res \<Rightarrow> ('a \<Rightarrow> 'b res) \<Rightarrow> 'b res" where
  "bind_res x f = (case x of Inl e \<Rightarrow> Inl e | Inr a \<Rightarrow> f a)"

lemma bind_res_simps [simp]:
  "bind_res (Inl e) f = Inl e"
  "bind_res (Inr a) f = f a"
  by (simp_all add: bind_res_def)

lemma bind_res_Inr: "bind_res x f = Inr b \<longleftrightarrow> (\<exists>a. x = Inr a \<and> f a = Inr b)"
  by (cases x) simp_all

named_theorems word_facts \<open>facts that read word operations as operations on naturals\<close>

section \<open>Masks\<close>

definition pow2 :: "size_t \<Rightarrow> bool" where
  "pow2 c \<longleftrightarrow> (\<exists>k < 64. c = 2 ^ k)"

lemma pow2I: "k < 64 \<Longrightarrow> pow2 (2 ^ k)"
  by (auto simp: pow2_def)

lemma pow2_code: "pow2 c \<longleftrightarrow> list_ex (\<lambda>k. c = 2 ^ k) [0..<64]"
  by (auto simp: pow2_def list_ex_iff)

lemma unat_of_nat64: "unat (of_nat n :: 64 word) = n mod 2 ^ 64"
  by (simp add: unat_of_nat take_bit_eq_mod)

lemma unat_of_nat32: "unat (of_nat n :: 32 word) = n mod 2 ^ 32"
  by (simp add: unat_of_nat take_bit_eq_mod)

lemma unat_pow2:
  assumes "k < 64"
  shows "unat ((2 :: 64 word) ^ k) = 2 ^ k"
proof -
  have "(2 :: nat) ^ k < 2 ^ 64"
    using assms by (rule power_strict_increasing) simp
  then have "unat (of_nat (2 ^ k) :: 64 word) = 2 ^ k"
    unfolding unat_of_nat64 by (rule mod_less)
  then show ?thesis
    by (simp only: of_nat_power of_nat_numeral)
qed

lemma pow2_pos: "pow2 c \<Longrightarrow> 0 < unat c"
  by (auto simp: pow2_def unat_pow2)

lemma cap_bounds:
  assumes "pow2 c"
  shows "0 < unat c" "2 * unat c \<le> 2 ^ 64"
proof -
  obtain k where k: "k < 64" "c = 2 ^ k"
    using assms by (auto simp: pow2_def)
  show "0 < unat c"
    by (rule pow2_pos [OF assms])
  have "(2 :: nat) ^ Suc k \<le> 2 ^ 64"
    using k(1) by (intro power_increasing) auto
  then show "2 * unat c \<le> 2 ^ 64"
    using k by (simp add: unat_pow2)
qed

lemma pow2_dvd: "pow2 c \<Longrightarrow> unat c dvd 2 ^ 64"
proof -
  assume "pow2 c"
  then obtain k where "k < 64" "unat c = 2 ^ k"
    by (auto simp: pow2_def unat_pow2)
  then show ?thesis
    using le_imp_power_dvd [of k 64 "2 :: nat"] by simp
qed

lemma pow2_double:
  assumes "pow2 c" "unat c * 2 < 2 ^ 64"
  shows "pow2 (c * 2)"
proof -
  obtain k where k: "k < 64" "c = 2 ^ k"
    using assms(1) by (auto simp: pow2_def)
  have "(2 :: nat) ^ Suc k < 2 ^ 64"
    using assms(2) k by (simp add: unat_pow2)
  then have "Suc k < 64"
    by (rule power_less_imp_less_exp [rotated]) simp
  then show ?thesis
    using pow2I [of "Suc k"] k by (simp add: mult.commute)
qed

lemma and_mask_mod:
  assumes "pow2 c"
  shows "unat (w AND (c - 1)) = unat w mod unat c"
proof -
  obtain k where k: "k < 64" "c = 2 ^ k"
    using assms by (auto simp: pow2_def)
  have "w AND (c - 1) = take_bit k w"
    by (simp add: k take_bit_eq_mask mask_eq_decr_exp)
  then have "unat (w AND (c - 1)) = take_bit k (unat w)"
    by (simp add: unsigned_take_bit_eq)
  then show ?thesis
    by (simp add: take_bit_eq_mod k unat_pow2)
qed

lemma and_mask_of_nat:
  assumes "pow2 c"
  shows "unat (of_nat n AND (c - 1)) = n mod unat c"
  unfolding and_mask_mod [OF assms] unat_of_nat64
  by (rule mod_mod_cancel [OF pow2_dvd [OF assms]])

lemma unat_diff_of_nat:
  assumes "m \<le> n" "n - m < 2 ^ 64"
  shows "unat (of_nat n - of_nat m :: 64 word) = n - m"
proof -
  have "of_nat n - of_nat m = (of_nat (n - m) :: 64 word)"
    using assms(1) by simp
  then show ?thesis
    using assms(2) by (simp only: unat_of_nat64 mod_less)
qed

lemma index_mod_add:
  assumes "pow2 c"
  shows "(unat (r :: size_t) + unat (d :: size_t)) mod unat c = unat (r + d) mod unat c"
proof -
  have "unat (r + d) = (unat r + unat d) mod 2 ^ 64"
    by (simp add: unat_word_ariths)
  then show ?thesis
    by (simp only: mod_mod_cancel [OF pow2_dvd [OF assms]])
qed

lemma unat_less_2p64: "unat (w :: 64 word) < 2 ^ 64"
  using unsigned_less [of w] by simp

lemmas [word_facts] = and_mask_mod and_mask_of_nat unat_of_nat64 unat_diff_of_nat unat_pow2

section \<open>Little-endian words\<close>

fun le_word :: "u8 list \<Rightarrow> u64" where
  "le_word [] = 0"
| "le_word (b # bs) = ucast b OR push_bit 8 (le_word bs)"

fun le_bytes :: "nat \<Rightarrow> u64 \<Rightarrow> u8 list" where
  "le_bytes 0 w = []"
| "le_bytes (Suc n) w = ucast w # le_bytes n (drop_bit 8 w)"

lemma length_le_bytes [simp]: "length (le_bytes n w) = n"
  by (induction n arbitrary: w) simp_all

lemma le_word_le_bytes: "le_word (le_bytes n w) = take_bit (8 * n) w"
proof (induction n arbitrary: w)
  case 0
  show ?case by simp
next
  case (Suc n)
  have "ucast (ucast w :: u8) OR push_bit 8 (take_bit (8 * n) (drop_bit 8 w))
      = take_bit (8 * Suc n) w"
    by (rule bit_eqI) (auto simp: bit_simps)
  then show ?case
    by (simp add: Suc.IH)
qed

lemma le_word_le_bytes_8 [simp]: "le_word (le_bytes 8 w) = w"
  by (simp add: le_word_le_bytes take_bit_word_eq_self)

lemma ucast_le_word_Cons: "ucast (ucast (b :: u8) OR push_bit 8 w :: u64) = b"
  by (rule bit_eqI) (auto simp: bit_simps)

lemma le_bytes_le_word: "length bs \<le> 8 \<Longrightarrow> le_bytes (length bs) (le_word bs) = bs"
proof (induction bs)
  case Nil
  show ?case by simp
next
  case (Cons b bs)
  have "le_word bs = take_bit 56 (le_word bs)"
  proof -
    have "le_word bs = le_word (le_bytes (length bs) (le_word bs))"
      using Cons by simp
    then have eq: "le_word bs = take_bit (8 * length bs) (le_word bs)"
      unfolding le_word_le_bytes .
    have "take_bit 56 (take_bit (8 * length bs) (le_word bs)) = take_bit (8 * length bs) (le_word bs)"
      using Cons.prems by (simp add: min_def)
    then show ?thesis using eq by simp
  qed
  then have "drop_bit 8 (ucast b OR push_bit 8 (le_word bs)) = le_word bs"
  proof -
    assume tb: "le_word bs = take_bit 56 (le_word bs)"
    have "drop_bit 8 (ucast b OR push_bit 8 (le_word bs)) = take_bit 56 (le_word bs)"
      by (rule bit_eqI) (auto simp: bit_simps dest: bit_imp_le_length)
    then show ?thesis using tb by simp
  qed
  with Cons show ?case
    by (simp add: ucast_le_word_Cons)
qed

section \<open>Time points\<close>

text \<open>A steady-clock time point is a signed 64-bit count of nanoseconds; its addition is undefined on
  overflow.\<close>

type_synonym time_point = "64 word"

definition time_add :: "time_point \<Rightarrow> time_point \<Rightarrow> time_point res" where
  "time_add t d =
     (if sint t + sint d < - (2 ^ 63) \<or> 2 ^ 63 \<le> sint t + sint d then Inl Undefined else Inr (t + d))"

lemma time_add_sint:
  assumes "time_add t d = Inr s"
  shows "sint s = sint t + sint d"
proof -
  have "sint (t + d) = signed_take_bit 63 (sint t + sint d)"
    by (simp add: sint_word_ariths)
  also have "\<dots> = sint t + sint d"
    using assms by (intro signed_take_bit_int_eq_self) (auto simp: time_add_def split: if_splits)
  finally show ?thesis
    using assms by (auto simp: time_add_def split: if_splits)
qed

section \<open>Runs of steps\<close>

fun run :: "('s \<Rightarrow> 'e \<Rightarrow> 's) \<Rightarrow> 's \<Rightarrow> 'e list \<Rightarrow> 's" where
  "run step s [] = s"
| "run step s (e # es) = run step (step s e) es"

lemma run_append: "run step s (es @ fs) = run step (run step s es) fs"
  by (induction es arbitrary: s) simp_all

locale invariant_steps =
  fixes step :: "'s \<Rightarrow> 'e \<Rightarrow> 's"
    and ok :: "'s \<Rightarrow> bool"
  assumes step_ok: "ok s \<Longrightarrow> ok (step s e)"
begin

lemma run_ok: "ok s \<Longrightarrow> ok (run step s es)"
  by (induction es arbitrary: s) (simp_all add: step_ok)

end

locale refined_steps = invariant_steps step ok
  for step :: "'s \<Rightarrow> 'e \<Rightarrow> 's" and ok :: "'s \<Rightarrow> bool" +
  fixes abs :: "'s \<Rightarrow> 'a"
    and spec :: "'a \<Rightarrow> 'e \<Rightarrow> 'a"
  assumes step_abs: "ok s \<Longrightarrow> abs (step s e) = spec (abs s) e"
begin

lemma run_abs: "ok s \<Longrightarrow> abs (run step s es) = run spec (abs s) es"
  by (induction es arbitrary: s) (simp_all add: step_abs step_ok)

end

text \<open>Steps that may fault: a run stops at the first fault.\<close>

fun run_res :: "('s \<Rightarrow> 'e \<Rightarrow> 's res) \<Rightarrow> 's \<Rightarrow> 'e list \<Rightarrow> 's res" where
  "run_res step s [] = Inr s"
| "run_res step s (e # es) = bind_res (step s e) (\<lambda>s'. run_res step s' es)"

lemma run_res_append: "run_res step s (xs @ ys) = bind_res (run_res step s xs) (\<lambda>s. run_res step s ys)"
proof (induction xs arbitrary: s)
  case (Cons x xs)
  then show ?case
    by (cases "step s x") simp_all
qed simp

locale checked_steps =
  fixes step :: "'s \<Rightarrow> 'e \<Rightarrow> 's res"
    and ok :: "'s \<Rightarrow> bool"
  assumes step_keeps: "ok s \<Longrightarrow> step s e = Inr s' \<Longrightarrow> ok s'"
begin

text \<open>A run that does not fault keeps the invariant.\<close>

lemma run_keeps: "ok s \<Longrightarrow> run_res step s es = Inr s' \<Longrightarrow> ok s'"
  by (induction es arbitrary: s) (auto simp: bind_res_Inr dest: step_keeps)

end

locale safe_steps =
  fixes step :: "'s \<Rightarrow> 'e \<Rightarrow> 's res"
    and ok :: "'s \<Rightarrow> bool"
    and abs :: "'s \<Rightarrow> 'a"
    and spec :: "'a \<Rightarrow> 'e \<Rightarrow> 'a"
  assumes step_safe: "ok s \<Longrightarrow> \<exists>s'. step s e = Inr s' \<and> ok s' \<and> abs s' = spec (abs s) e"
begin

text \<open>From a state that satisfies the invariant no run faults, and it refines the specification.\<close>

lemma run_safe: "ok s \<Longrightarrow> \<exists>s'. run_res step s es = Inr s' \<and> ok s' \<and> abs s' = run spec (abs s) es"
proof (induction es arbitrary: s)
  case (Cons e es)
  obtain s' where s': "step s e = Inr s'" "ok s'" "abs s' = spec (abs s) e"
    using step_safe [OF Cons.prems] by blast
  then show ?case
    using Cons.IH [of s'] by simp
qed simp

end

end
