(* ===== verification/Utility.thy ===== *)
theory Utility
  imports Prelude
begin

text \<open>
  \<^verbatim>\<open>src/utility.h\<close> and \<^verbatim>\<open>src/utility.cpp\<close>: rounding up to a power of two, byte-order reversal,
  splitting a string at a delimiter, and the exception object built from a printf-style message.

  \<open>__builtin_clzll\<close> is undefined at 0 and a shift is undefined from 64 on; both are the value
  \<open>Inl Undefined\<close> here, so that \<open>next_pow2\<close> shows exactly where it has no meaning.
\<close>

section \<open>Rounding up to a power of two\<close>

definition leading_zeros :: "u64 \<Rightarrow> nat" where
  "leading_zeros x = length (takeWhile (\<lambda>i. \<not> bit x i) (rev [0..<64]))"

definition builtin_clzll :: "u64 \<Rightarrow> nat res" where
  "builtin_clzll x = (if x = 0 then Inl Undefined else Inr (leading_zeros x))"

definition shift_left64 :: "u64 \<Rightarrow> nat \<Rightarrow> u64 res" where
  "shift_left64 x s = (if 64 \<le> s then Inl Undefined else Inr (push_bit s x))"

definition next_pow2 :: "u64 \<Rightarrow> u64 res" where
  "next_pow2 n =
     (if n = 0 then Inr 1
      else bind_res (builtin_clzll (n - 1)) (\<lambda>z. shift_left64 1 (64 - z)))"

text \<open>The leading zeros locate the highest set bit, hence bound the value on both sides.\<close>

lemma leading_zeros_le: "leading_zeros x \<le> 64"
  unfolding leading_zeros_def using length_takeWhile_le [of _ "rev [0..<64]"] by simp

lemma leading_zeros_clear:
  assumes "64 - leading_zeros x \<le> i" "i < 64"
  shows "\<not> bit x i"
proof -
  let ?xs = "rev [0..<64]" and ?P = "\<lambda>i. \<not> bit x i"
  have j: "63 - i < length (takeWhile ?P ?xs)"
    using assms by (simp add: leading_zeros_def)
  have "takeWhile ?P ?xs ! (63 - i) = ?xs ! (63 - i)"
    using j by (rule takeWhile_nth)
  moreover have "?xs ! (63 - i) = i"
    using assms(2) by (simp add: rev_nth)
  ultimately have "i \<in> set (takeWhile ?P ?xs)"
    using j by (metis nth_mem)
  then show ?thesis
    by (auto dest: set_takeWhileD)
qed

lemma leading_zeros_top:
  assumes "x \<noteq> 0"
  shows "leading_zeros x < 64" "bit x (63 - leading_zeros x)"
proof -
  let ?xs = "rev [0..<64]" and ?P = "\<lambda>i. \<not> bit x i"
  obtain n where n: "bit x n"
    using assms by (auto simp: bit_eq_iff)
  then have "n < 64"
    by (auto dest: bit_imp_le_length)
  have "leading_zeros x \<noteq> 64"
    using leading_zeros_clear [of x n] n \<open>n < 64\<close> by auto
  then show less: "leading_zeros x < 64"
    using leading_zeros_le [of x] by simp
  then have "\<not> ?P (?xs ! length (takeWhile ?P ?xs))"
    unfolding leading_zeros_def by (intro nth_length_takeWhile) simp
  then show "bit x (63 - leading_zeros x)"
    using less by (simp add: rev_nth flip: leading_zeros_def)
qed

lemma leading_zeros_bounds:
  assumes "x \<noteq> 0"
  shows "2 ^ (63 - leading_zeros x) \<le> unat x" "unat x < 2 ^ (64 - leading_zeros x)"
proof -
  let ?z = "leading_zeros x"
  have "odd (unat x div 2 ^ (63 - ?z))"
    using leading_zeros_top [OF assms] by (simp add: bit_unsigned_iff flip: bit_iff_odd)
  then have "unat x div 2 ^ (63 - ?z) \<noteq> 0"
    by (intro notI) simp
  then show "2 ^ (63 - ?z) \<le> unat x"
    by (simp add: div_eq_0_iff)
  have "take_bit (64 - ?z) x = x"
  proof (rule bit_eqI)
    fix i
    show "bit (take_bit (64 - ?z) x) i = bit x i"
      using leading_zeros_clear [of x i] bit_imp_le_length [of x i]
      by (auto simp: bit_simps simp flip: not_le)
  qed
  then have "unat x = take_bit (64 - ?z) (unat x)"
    by (metis unsigned_take_bit_eq)
  then show "unat x < 2 ^ (64 - ?z)"
    by (metis take_bit_nat_less_exp)
qed

lemma push_bit_one: "push_bit k (1 :: u64) = 2 ^ k"
  by (simp add: push_bit_eq_mult)

lemma next_pow2_value:
  assumes "2 \<le> unat n" "unat n \<le> 2 ^ 63"
  obtains k where "k < 64" "next_pow2 n = Inr (2 ^ k)" "unat n \<le> 2 ^ k" "2 ^ k < 2 * unat n"
proof -
  let ?x = "n - 1" and ?z = "leading_zeros (n - 1)"
  have x: "unat ?x = unat n - 1"
    using assms(1) by (simp add: unat_minus_one unat_eq_0 flip: unat_gt_0)
  then have nz: "?x \<noteq> 0" "n \<noteq> 0"
    using assms(1) by auto
  note b = leading_zeros_bounds [OF nz(1)] leading_zeros_top(1) [OF nz(1)]
  have "(2 :: nat) ^ (63 - ?z) < 2 ^ 63"
    using b(1) x assms by linarith
  then have z: "0 < ?z"
    by (cases "?z = 0") auto
  have "64 - ?z = Suc (63 - ?z)"
    using b(3) by simp
  then have double: "(2 :: nat) ^ (64 - ?z) = 2 * 2 ^ (63 - ?z)"
    by (simp only: power_Suc)
  show ?thesis
  proof (rule that)
    show "64 - ?z < 64"
      using z b(3) by simp
    show "next_pow2 n = Inr (2 ^ (64 - ?z))"
      using nz z b(3) by (simp add: next_pow2_def builtin_clzll_def shift_left64_def push_bit_one)
    show "unat n \<le> 2 ^ (64 - ?z)"
      using b(2) x assms(1) by linarith
    show "2 ^ (64 - ?z) < 2 * unat n"
      using b(1) x assms(1) unfolding double by linarith
  qed
qed

lemma next_pow2_0: "next_pow2 0 = Inr 1"
  by (simp add: next_pow2_def)

lemma next_pow2_1: "next_pow2 1 = Inl Undefined"
  by (simp add: next_pow2_def builtin_clzll_def)

lemma next_pow2_large:
  assumes "2 ^ 63 < unat n"
  shows "next_pow2 n = Inl Undefined"
proof -
  have x: "unat (n - 1) = unat n - 1"
    using assms by (simp add: unat_minus_one unat_eq_0 flip: unat_gt_0)
  then have nz: "n - 1 \<noteq> 0" "n \<noteq> 0"
    using assms by auto
  have "leading_zeros (n - 1) = 0"
  proof (rule ccontr)
    assume "leading_zeros (n - 1) \<noteq> 0"
    then have "(2 :: nat) ^ (64 - leading_zeros (n - 1)) \<le> 2 ^ 63"
      by (intro power_increasing) simp_all
    then show False
      using leading_zeros_bounds(2) [OF nz(1)] x assms by linarith
  qed
  then show ?thesis
    using nz by (simp add: next_pow2_def builtin_clzll_def shift_left64_def)
qed

text \<open>For every request from 2 up to \<open>2 ^ 63\<close>, \<open>next_pow2\<close> returns the least power of two that
  is not below the request.\<close>

theorem next_pow2_least:
  assumes "2 \<le> unat n" "unat n \<le> 2 ^ 63"
  shows "\<exists>p. next_pow2 n = Inr p \<and> pow2 p \<and> n \<le> p \<and> (\<forall>q. pow2 q \<longrightarrow> n \<le> q \<longrightarrow> p \<le> q)"
proof -
  obtain k where k: "k < 64" "next_pow2 n = Inr (2 ^ k)" "unat n \<le> 2 ^ k" "2 ^ k < 2 * unat n"
    using next_pow2_value [OF assms] .
  have "2 ^ k \<le> q" if q: "pow2 q" "n \<le> q" for q
  proof -
    obtain j where j: "j < 64" "q = 2 ^ j"
      using q(1) by (auto simp: pow2_def)
    have "(2 :: nat) ^ k < 2 ^ Suc j"
      using k(4) q(2) j by (simp add: word_le_nat_alt unat_pow2)
    then have "k < Suc j"
      by (rule power_less_imp_less_exp [rotated]) simp
    then have "k \<le> j"
      by simp
    then show ?thesis
      using j k(1) by (simp add: word_le_nat_alt unat_pow2)
  qed
  moreover have "n \<le> 2 ^ k"
    using k by (simp add: word_le_nat_alt unat_pow2)
  ultimately show ?thesis
    using k pow2I by blast
qed

theorem next_pow2_least_witness:
  "\<exists>p. next_pow2 100 = Inr p \<and> pow2 p \<and> 100 \<le> p \<and> (\<forall>q. pow2 q \<longrightarrow> 100 \<le> q \<longrightarrow> p \<le> q)"
  by (rule next_pow2_least) simp_all

text \<open>\<open>next_pow2\<close> has no defined result exactly for 1 (it asks for the leading zeros of 0) and
  for requests above \<open>2 ^ 63\<close> (it shifts by 64).\<close>

theorem next_pow2_undefined: "next_pow2 n = Inl Undefined \<longleftrightarrow> n = 1 \<or> 2 ^ 63 < unat n"
proof
  assume undef: "next_pow2 n = Inl Undefined"
  show "n = 1 \<or> 2 ^ 63 < unat n"
  proof (rule ccontr)
    assume "\<not> (n = 1 \<or> 2 ^ 63 < unat n)"
    then have "unat n \<noteq> unat (1 :: u64)" "unat n \<le> 2 ^ 63"
      by (simp_all only: unsigned_word_eqI not_less de_Morgan_disj word_unat_eq_iff) simp
    moreover have "n \<noteq> 0 \<longrightarrow> 0 < unat n"
      by (simp add: unat_gt_0)
    ultimately have "n \<noteq> 0 \<longrightarrow> 2 \<le> unat n" "unat n \<le> 2 ^ 63"
      by auto
    then show False
      using undef next_pow2_0 next_pow2_value [of n] by (cases "n = 0") force+
  qed
next
  assume "n = 1 \<or> 2 ^ 63 < unat n"
  then show "next_pow2 n = Inl Undefined"
    using next_pow2_1 next_pow2_large by blast
qed

lemma next_pow2_pow2:
  assumes "next_pow2 n = Inr p"
  shows "pow2 p"
proof (cases "n = 0")
  case True
  then show ?thesis
    using assms pow2I [of 0] next_pow2_0 by simp
next
  case False
  then obtain z where "shift_left64 1 (64 - z) = Inr p"
    using assms by (auto simp: next_pow2_def bind_res_Inr)
  then show ?thesis
    using pow2I [of "64 - z"] by (auto simp: shift_left64_def push_bit_one split: if_splits)
qed

lemma next_pow2_nonzero: "next_pow2 n = Inr p \<Longrightarrow> p \<noteq> 0"
  using next_pow2_pow2 [of n p] pow2_pos [of p] by auto

section \<open>Byte order\<close>

definition reverse_byte_order64 :: "u64 \<Rightarrow> u64" where
  "reverse_byte_order64 w = le_word (rev (le_bytes 8 w))"

definition reverse_byte_order32 :: "u32 \<Rightarrow> u32" where
  "reverse_byte_order32 w = ucast (le_word (rev (le_bytes 4 (ucast w))))"

text \<open>Byte-order reversal is its own inverse and stores the bytes of its argument in the
  opposite order.\<close>

theorem reverse_byte_order64_involution:
  "reverse_byte_order64 (reverse_byte_order64 w) = w
   \<and> le_bytes 8 (reverse_byte_order64 w) = rev (le_bytes 8 w)"
  using le_bytes_le_word [of "rev (le_bytes 8 w)"]
  by (simp add: reverse_byte_order64_def)

section \<open>Splitting a string\<close>

fun str_find :: "'c list \<Rightarrow> 'c \<Rightarrow> nat option" where
  "str_find [] d = None"
| "str_find (c # cs) d = (if c = d then Some 0 else map_option Suc (str_find cs d))"

definition split_view :: "'c list \<Rightarrow> 'c \<Rightarrow> 'c list \<times> 'c list" where
  "split_view str delim =
     (case str_find str delim of
        None \<Rightarrow> (str, [])
      | Some pos \<Rightarrow> (take pos str, drop (pos + 1) str))"

lemma str_find_None: "str_find s d = None \<longleftrightarrow> d \<notin> set s"
  by (induction s) auto

lemma str_find_Some:
  "str_find s d = Some i \<Longrightarrow> i < length s \<and> s ! i = d \<and> d \<notin> set (take i s)"
  by (induction s arbitrary: i) (auto split: if_splits)

text \<open>\<open>split\<close> cuts at the first delimiter: the parts joined by it give the string back and the
  first part has no delimiter; without a delimiter it returns the whole string and an empty rest.\<close>

theorem split_view_first:
  "if d \<in> set s
   then s = fst (split_view s d) @ d # snd (split_view s d) \<and> d \<notin> set (fst (split_view s d))
   else split_view s d = (s, [])"
proof (cases "str_find s d")
  case None
  then show ?thesis
    using str_find_None [of s d] by (simp add: split_view_def)
next
  case (Some i)
  then have i: "i < length s" "s ! i = d" "d \<notin> set (take i s)"
    using str_find_Some by fast+
  then have "d \<in> set s"
    by auto
  moreover have "s = take i s @ d # drop (Suc i) s"
    using i id_take_nth_drop by blast
  ultimately show ?thesis
    using i(3) by (simp add: split_view_def Some)
qed

section \<open>Exceptions with a formatted message\<close>

text \<open>
  \<open>formatted\<close> is what \<^verbatim>\<open>vsnprintf\<close> would produce with an unbounded buffer; the code keeps what
  fits into 4096 bytes with the terminator, and asserts that the message is not empty.
\<close>

definition system_error :: "int \<Rightarrow> string \<Rightarrow> (int \<times> string) res" where
  "system_error err formatted =
     (if length formatted = 0 then Inl Assertion else Inr (err, take 4095 formatted))"

end
