(* ===== verification/Hex.thy ===== *)
theory Hex
  imports Prelude
begin

text \<open>
  \<^verbatim>\<open>src/hex.cpp\<close>, \<^verbatim>\<open>src/hex.h\<close> and the error codes of \<^verbatim>\<open>src/error.h\<close>: reading hexadecimal text
  into integers and into a byte buffer. A string is a list of bytes and \<^verbatim>\<open>char\<close> is signed, so a
  byte from 128 on indexes the digit table below its start, which is \<open>Inl Undefined\<close>. An output
  parameter is passed in with its old content and returned, changed or not.
\<close>

section \<open>Error codes and the digit table\<close>

datatype errcode = Ok_code | No_buffer | No_memory | Invalid_param

definition no_digits :: "int list" where
  "no_digits = [-1, -1, -1, -1, -1, -1, -1, -1, -1, -1, -1, -1, -1, -1, -1, -1]"

definition hex_map :: "int list" where
  "hex_map =
     no_digits @ no_digits @ no_digits @
     [0, 1, 2, 3, 4, 5, 6, 7, 8, 9, -1, -1, -1, -1, -1, -1] @
     [-1, 10, 11, 12, 13, 14, 15, -1, -1, -1, -1, -1, -1, -1, -1, -1] @
     no_digits @
     [-1, 10, 11, 12, 13, 14, 15, -1, -1, -1, -1, -1, -1, -1, -1, -1] @
     no_digits @
     no_digits @ no_digits @ no_digits @ no_digits @ no_digits @ no_digits @ no_digits @ no_digits"

definition hex_lookup :: "u8 \<Rightarrow> int res" where
  "hex_lookup c = (if sint c < 0 then Inl Undefined else Inr (hex_map ! nat (sint c)))"

section \<open>Reading an integer\<close>

text \<open>
  The loop of the worker function: \<open>None\<close> is the early return with \<^verbatim>\<open>invalid_param\<close>. The table
  entry is cast to \<^verbatim>\<open>unsigned int\<close> before it is compared with \<open>-1\<close>. Reading past the bytes the
  caller owns is undefined.
\<close>

fun hex_loop :: "u8 list \<Rightarrow> nat \<Rightarrow> u64 \<Rightarrow> u64 option res" where
  "hex_loop str 0 v = Inr (Some v)"
| "hex_loop [] (Suc n) v = Inl Undefined"
| "hex_loop (c # str) (Suc n) v =
     bind_res (hex_lookup c) (\<lambda>t.
       let tmp = (of_int t :: u32)
       in if tmp = -1 then Inr None else hex_loop str n (ucast tmp + push_bit 4 v))"

definition hex_store :: "('a \<Rightarrow> 'b) \<Rightarrow> 'a option \<Rightarrow> 'b \<Rightarrow> errcode \<times> 'b" where
  "hex_store narrow r old =
     (case r of None \<Rightarrow> (Invalid_param, old) | Some v \<Rightarrow> (Ok_code, narrow v))"

definition hex_str64 :: "u8 list \<Rightarrow> u32 \<Rightarrow> u64 \<Rightarrow> (errcode \<times> u64) res" where
  "hex_str64 str len val = bind_res (hex_loop str (unat len) 0) (\<lambda>r. Inr (hex_store id r val))"

definition hex_str32 :: "u8 list \<Rightarrow> u32 \<Rightarrow> u32 \<Rightarrow> (errcode \<times> u32) res" where
  "hex_str32 str len val = bind_res (hex_loop str (unat len) 0) (\<lambda>r. Inr (hex_store ucast r val))"

definition hex_str8 :: "u8 list \<Rightarrow> u32 \<Rightarrow> u8 \<Rightarrow> (errcode \<times> u8) res" where
  "hex_str8 str len val = bind_res (hex_loop str (unat len) 0) (\<lambda>r. Inr (hex_store ucast r val))"

section \<open>Reading a buffer\<close>

text \<open>
  The pair loop. Each byte is read with \<open>hex_str8\<close> into a local variable that is never
  initialised, and the returned code is dropped: where the pair is not hexadecimal the stored
  byte is indeterminate, here \<open>None\<close>. The loop also returns the characters left over.
\<close>

definition hex_pair :: "u8 list \<Rightarrow> u8 option res" where
  "hex_pair str = bind_res (hex_str8 str 2 0) (\<lambda>(code, b).
     Inr (if code = Ok_code then Some b else None))"

fun hex_pairs :: "u8 list \<Rightarrow> nat \<Rightarrow> (u8 option list \<times> nat) res" where
  "hex_pairs str len =
     (if len > 1
      then bind_res (hex_pair str) (\<lambda>b.
             bind_res (hex_pairs (drop 2 str) (len - 2)) (\<lambda>(out, rest). Inr (b # out, rest)))
      else Inr ([], len))"

declare hex_pairs.simps [simp del]

definition hex_str_buf ::
    "u8 list \<Rightarrow> u32 \<Rightarrow> u32 \<Rightarrow> (errcode \<times> u8 option list \<times> u32) res" where
  "hex_str_buf str len cap =
     (if len div 2 > cap then Inr (No_buffer, [], cap)
      else bind_res (hex_pairs str (unat len)) (\<lambda>(out, rest).
             Inr (if rest = 0 then (Ok_code, out, of_nat (length out))
                  else (Invalid_param, out, cap))))"

section \<open>Digits\<close>

definition hex_digit_value :: "u8 \<Rightarrow> nat option" where
  "hex_digit_value c =
     (if 48 \<le> c \<and> c \<le> 57 then Some (unat c - 48)
      else if 65 \<le> c \<and> c \<le> 70 then Some (unat c - 55)
      else if 97 \<le> c \<and> c \<le> 102 then Some (unat c - 87)
      else None)"

definition table_entry :: "nat \<Rightarrow> int" where
  "table_entry i =
     (if 48 \<le> i \<and> i \<le> 57 then int i - 48
      else if 65 \<le> i \<and> i \<le> 70 then int i - 55
      else if 97 \<le> i \<and> i \<le> 102 then int i - 87
      else -1)"

lemma hex_map_table: "hex_map = map table_entry [0..<256]"
  by code_simp

lemma sint_u8: "sint (c :: u8) = (uint c + 128) mod 256 - 128"
  using int_word_sint [of "uint c", where ?'a = 8] by simp

lemma unat_u8: "unat (c :: u8) < 256"
  using unsigned_less [of c] by simp

lemma uint_u8: "0 \<le> uint (c :: u8)" "uint (c :: u8) < 256"
  using unsigned_less [of c] by simp_all

lemma sint_ascii: "c < 128 \<Longrightarrow> sint (c :: u8) = uint c"
  using uint_u8 [of c] by (simp add: sint_u8 word_less_def)

lemma sint_high:
  assumes "128 \<le> c"
  shows "sint (c :: u8) < 0"
proof -
  have "128 \<le> uint c"
    using assms by (simp add: word_le_def)
  then have "(uint c - 128) mod 256 < 128"
    using uint_u8 [of c] by simp
  moreover have "(uint c + 128) mod 256 = (uint c - 128 + 256) mod 256"
    by (simp add: add.commute)
  ultimately have "(uint c + 128) mod 256 < 128"
    by (simp only: mod_add_self2)
  then show ?thesis
    by (simp add: sint_u8)
qed

lemma hex_lookup_ascii:
  assumes "c < 128"
  shows "hex_lookup c = Inr (case hex_digit_value c of None \<Rightarrow> -1 | Some d \<Rightarrow> int d)"
proof -
  have "hex_lookup c = Inr (table_entry (unat c))"
    using assms unat_u8 [of c] by (simp add: hex_lookup_def sint_ascii hex_map_table)
  then show ?thesis
    by (auto simp: table_entry_def hex_digit_value_def word_le_nat_alt)
qed

lemma hex_lookup_high: "128 \<le> c \<Longrightarrow> hex_lookup c = Inl Undefined"
  by (simp add: hex_lookup_def sint_high)

lemma hex_digit_value_Some:
  "hex_digit_value c = Some d \<Longrightarrow> c < 128 \<and> d < 16"
  by (auto simp: hex_digit_value_def word_le_nat_alt word_less_nat_alt split: if_splits)

section \<open>The value of a digit string\<close>

fun hex_value :: "nat \<Rightarrow> u8 list \<Rightarrow> nat" where
  "hex_value v [] = v"
| "hex_value v (c # cs) = hex_value (16 * v + the (hex_digit_value c)) cs"

definition all_hex :: "u8 list \<Rightarrow> bool" where
  "all_hex str \<longleftrightarrow> list_all (\<lambda>c. hex_digit_value c \<noteq> None) str"

definition ascii :: "u8 list \<Rightarrow> bool" where
  "ascii str \<longleftrightarrow> list_all (\<lambda>c. c < 128) str"

lemma all_hex_simps [simp]:
  "all_hex []" "all_hex (c # cs) \<longleftrightarrow> hex_digit_value c \<noteq> None \<and> all_hex cs"
  by (simp_all add: all_hex_def)

lemma ascii_simps [simp]:
  "ascii []" "ascii (c # cs) \<longleftrightarrow> c < 128 \<and> ascii cs"
  by (simp_all add: ascii_def)

lemma ascii_drop: "ascii str \<Longrightarrow> ascii (drop n str)"
  by (auto simp: ascii_def list_all_iff dest: in_set_dropD)

lemma hex_loop_step:
  assumes "hex_digit_value c = Some d"
  shows "hex_loop (c # str) (Suc n) (of_nat v) = hex_loop str n (of_nat (16 * v + d))"
proof -
  have d: "c < 128" "d < 16"
    using hex_digit_value_Some [OF assms] by simp_all
  then have t: "take_bit 32 d = d"
    by (simp add: take_bit_eq_mod)
  then have "unat (of_nat d :: u32) = d" "ucast (of_nat d :: u32) = (of_nat d :: u64)"
    by (simp_all add: unsigned_of_nat)
  then have "of_nat d \<noteq> (-1 :: u32)" "ucast (of_nat d :: u32) = (of_nat d :: u64)"
    using d by (auto simp: unsigned_minus_1_eq_mask mask_eq_exp_minus_1 dest: arg_cong [of _ _ unat])
  then show ?thesis
    using d by (simp add: hex_lookup_ascii assms push_bit_eq_mult algebra_simps)
qed

lemma hex_loop_ascii:
  assumes "n \<le> length str" "ascii (take n str)"
  shows "hex_loop str n (of_nat v) =
    Inr (if all_hex (take n str) then Some (of_nat (hex_value v (take n str))) else None)"
  using assms
proof (induction n arbitrary: str v)
  case 0
  show ?case by simp
next
  case (Suc n)
  then obtain c cs where str: "str = c # cs"
    by (cases str) auto
  show ?case
  proof (cases "hex_digit_value c")
    case None
    then show ?thesis
      using Suc.prems by (simp add: str hex_lookup_ascii)
  next
    case (Some d)
    then show ?thesis
      using Suc.prems Suc.IH [of cs "16 * v + d"] by (simp only: str hex_loop_step) (simp add: Some)
  qed
qed

text \<open>C38: on ASCII text the 64-bit reader accepts exactly the strings of hexadecimal digits, stores
  their value modulo \<open>2 ^ 64\<close> (longer strings keep their last 16 digits), and leaves the output
  untouched when it rejects.\<close>

theorem hex_str64_correct:
  assumes "unat len \<le> length str" "ascii (take (unat len) str)"
  shows "hex_str64 str len old =
    Inr (if all_hex (take (unat len) str)
         then (Ok_code, of_nat (hex_value 0 (take (unat len) str)))
         else (Invalid_param, old))"
  using hex_loop_ascii [OF assms, of 0] by (simp add: hex_str64_def hex_store_def)

theorem hex_str64_correct_witness:
  "hex_str64 [50, 65, 102] 3 7 = Inr (Ok_code, 687) \<and> hex_str64 [50, 71] 2 7 = Inr (Invalid_param, 7)"
  using hex_str64_correct [of 3 "[50, 65, 102]" 7] hex_str64_correct [of 2 "[50, 71]" 7]
  by (simp add: hex_digit_value_def)

lemma ucast_of_nat_8: "ucast (of_nat n :: u64) = (of_nat n :: u8)"
  by (rule bit_eqI) (auto simp: bit_simps)

lemma hex_pair_ascii:
  assumes "c < 128" "c' < 128"
  shows "hex_pair (c # c' # str) =
    Inr (if all_hex [c, c'] then Some (of_nat (hex_value 0 [c, c'])) else None)"
proof -
  have "hex_loop (c # c' # str) (unat (2 :: u32)) 0 =
    Inr (if all_hex [c, c'] then Some (of_nat (hex_value 0 [c, c'])) else None)"
    using hex_loop_ascii [of 2 "c # c' # str" 0] assms
    by (simp add: take_Cons' del: hex_loop.simps hex_value.simps)
  then show ?thesis
    by (simp add: hex_pair_def hex_str8_def hex_store_def ucast_of_nat_8
        del: hex_loop.simps hex_value.simps)
qed

section \<open>Buffers: round trip, and the rejected pair that is not reported\<close>

definition hex_char :: "nat \<Rightarrow> u8" where
  "hex_char d = (if d < 10 then of_nat (48 + d) else of_nat (55 + d))"

fun hex_encode :: "u8 list \<Rightarrow> u8 list" where
  "hex_encode [] = []"
| "hex_encode (b # bs) = hex_char (unat b div 16) # hex_char (unat b mod 16) # hex_encode bs"

lemma length_hex_encode [simp]: "length (hex_encode bs) = 2 * length bs"
  by (induction bs) simp_all

lemma hex_digit_value_char:
  assumes "d < 16"
  shows "hex_digit_value (hex_char d) = Some d" "hex_char d < 128"
proof -
  have "list_all (\<lambda>d. hex_digit_value (hex_char d) = Some d \<and> hex_char d < 128) [0..<16]"
    by code_simp
  then show "hex_digit_value (hex_char d) = Some d" "hex_char d < 128"
    using assms by (auto simp: list_all_iff)
qed

lemma hex_pair_encode:
  "hex_pair (hex_char (unat b div 16) # hex_char (unat b mod 16) # str) = Inr (Some b)"
proof -
  have "unat b div 16 < 16" "unat b mod 16 < 16"
    using unat_u8 [of b] by (simp_all add: less_mult_imp_div_less)
  moreover have "of_nat (16 * (unat b div 16) + unat b mod 16) = b"
    by (simp only: mult_div_mod_eq) simp
  ultimately show ?thesis
    by (simp add: hex_pair_ascii hex_digit_value_char del: of_nat_add of_nat_mult)
qed

lemma hex_pairs_encode: "hex_pairs (hex_encode bs @ str) (2 * length bs) = Inr (map Some bs, 0)"
proof (induction bs)
  case Nil
  show ?case by (simp add: hex_pairs.simps)
next
  case (Cons b bs)
  then show ?case
    by (simp add: hex_pairs.simps [of _ "Suc _"] hex_pair_encode)
qed

text \<open>C39: decoding the hexadecimal text of a byte string into a buffer that is large enough gives the
  bytes back, sets the size to their number and reports success.\<close>

theorem hex_buffer_roundtrip:
  assumes "2 * length bs < 2 ^ 32" "length bs \<le> unat cap"
  shows "hex_str_buf (hex_encode bs) (of_nat (2 * length bs)) cap =
    Inr (Ok_code, map Some bs, of_nat (length bs))"
proof -
  have n: "unat (of_nat (2 * length bs) :: u32) = 2 * length bs"
    unfolding unat_of_nat32 by (rule mod_less [OF assms(1)])
  then have "unat (of_nat (2 * length bs) div 2 :: u32) = length bs"
    by (simp add: unat_div)
  then have "\<not> (of_nat (2 * length bs) div 2 :: u32) > cap"
    using assms(2) by (simp only: not_less word_le_nat_alt)
  then show ?thesis
    using n hex_pairs_encode [of bs "[]"] by (simp add: hex_str_buf_def)
qed

theorem hex_buffer_roundtrip_witness:
  "hex_str_buf (hex_encode [171, 5]) (of_nat 4) 2 = Inr (Ok_code, [Some 171, Some 5], 2)"
  using hex_buffer_roundtrip [of "[171, 5]" 2] by simp

fun pair_flags :: "u8 list \<Rightarrow> bool list" where
  "pair_flags (c # c' # str) = all_hex [c, c'] # pair_flags str"
| "pair_flags str = []"

lemma hex_pairs_ascii:
  "ascii str \<Longrightarrow> even (length str) \<Longrightarrow>
   \<exists>out. hex_pairs str (length str) = Inr (out, 0) \<and> map (\<lambda>b. b \<noteq> None) out = pair_flags str"
proof (induction str rule: pair_flags.induct)
  case (1 c c' str)
  then obtain out where "hex_pairs str (length str) = Inr (out, 0)"
      "map (\<lambda>b. b \<noteq> None) out = pair_flags str"
    by auto
  moreover have "hex_pair (c # c' # str) =
      Inr (if all_hex [c, c'] then Some (of_nat (hex_value 0 [c, c'])) else None)"
    using 1 by (intro hex_pair_ascii) simp_all
  ultimately show ?case
    by (auto simp: hex_pairs.simps [of _ "Suc _"] simp del: all_hex_simps hex_value.simps)
qed (simp_all add: hex_pairs.simps)

text \<open>The buffer reader never rejects a digit: on ASCII text of even length that fits it reports
  success whatever the characters are, and a byte of the buffer is defined exactly where its pair
  is hexadecimal.\<close>

theorem hex_buffer_ignores_bad_digits:
  assumes "ascii str" "even (length str)" "length str < 2 ^ 32" "length str div 2 \<le> unat cap"
  shows "\<exists>out. hex_str_buf str (of_nat (length str)) cap = Inr (Ok_code, out, of_nat (length out))
    \<and> map (\<lambda>b. b \<noteq> None) out = pair_flags str"
proof -
  have n: "unat (of_nat (length str) :: u32) = length str"
    unfolding unat_of_nat32 by (rule mod_less [OF assms(3)])
  then have "unat (of_nat (length str) div 2 :: u32) = length str div 2"
    by (simp add: unat_div)
  then have "\<not> (of_nat (length str) div 2 :: u32) > cap"
    using assms(4) by (simp only: not_less word_le_nat_alt)
  then show ?thesis
    using n hex_pairs_ascii [OF assms(1,2)] by (auto simp: hex_str_buf_def)
qed

theorem hex_buffer_ignores_bad_digits_witness:
  "\<exists>out. hex_str_buf [71, 48, 49, 50] (of_nat 4) 2 = Inr (Ok_code, out, of_nat (length out))
    \<and> map (\<lambda>b. b \<noteq> None) out = [False, True]"
  using hex_buffer_ignores_bad_digits [of "[71, 48, 49, 50]" 2] by (simp add: hex_digit_value_def)

end
