(* ===== verification/Hash_Bytes.thy ===== *)
theory Hash_Bytes
  imports Prelude
begin

text \<open>
  \<^verbatim>\<open>src/hash.cpp\<close>: the exclusive-or hash of a byte string, first eight bytes at a time and then the
  remaining bytes one by one. A tail byte is promoted to a 32-bit \<^verbatim>\<open>int\<close> before it is shifted, so the
  shift is undefined from the fifth tail byte on and the result of the fourth is sign-extended
  when it enters the 64-bit accumulator; both are written out here.
\<close>

section \<open>The code\<close>

fun xor_words :: "nat \<Rightarrow> u8 list \<Rightarrow> u64 \<Rightarrow> u64" where
  "xor_words 0 bs res = res"
| "xor_words (Suc n) bs res = xor_words n (drop 8 bs) (res XOR le_word (take 8 bs))"

definition tail_byte :: "nat \<Rightarrow> u8 \<Rightarrow> u64 res" where
  "tail_byte i b =
     (if 32 \<le> 8 * i then Inl Undefined else Inr (scast (push_bit (8 * i) (ucast b :: u32))))"

fun xor_tail :: "nat \<Rightarrow> u8 list \<Rightarrow> u64 \<Rightarrow> u64 res" where
  "xor_tail i [] res = Inr res"
| "xor_tail i (b # bs) res = bind_res (tail_byte i b) (\<lambda>t. xor_tail (Suc i) bs (res XOR t))"

definition hash_bytes :: "u8 list \<Rightarrow> size_t res" where
  "hash_bytes bs =
     (let n = length bs div 8; res = xor_words n bs 0
      in xor_tail 0 (drop (8 * n) bs) res)"

section \<open>Where it is defined\<close>

lemma xor_tail_undefined:
  "i \<le> 4 \<Longrightarrow> xor_tail i bs res = Inl Undefined \<longleftrightarrow> 4 < i + length bs"
proof (induction bs arbitrary: i res)
  case Nil
  then show ?case by simp
next
  case (Cons b bs)
  then show ?case
    by (cases "i = 4") (auto simp: tail_byte_def)
qed

text \<open>Hashing is undefined behaviour exactly for the lengths that leave five, six or seven tail
  bytes.\<close>

theorem hash_bytes_undefined: "hash_bytes bs = Inl Undefined \<longleftrightarrow> 4 < length bs mod 8"
  by (simp add: hash_bytes_def Let_def xor_tail_undefined minus_mult_div_eq_mod)

section \<open>What it computes\<close>

definition padded_words :: "u8 list \<Rightarrow> u64 list" where
  "padded_words bs = map (\<lambda>i. le_word (take 8 (drop (8 * i) bs))) [0..<(length bs + 7) div 8]"

definition xor_all :: "u64 list \<Rightarrow> u64" where
  "xor_all ws = foldr (\<lambda>w acc. w XOR acc) ws 0"

lemma xor_all_simps [simp]: "xor_all [] = 0" "xor_all (w # ws) = w XOR xor_all ws"
  by (simp_all add: xor_all_def)

lemma xor_all_append: "xor_all (vs @ ws) = xor_all vs XOR xor_all ws"
  by (induction vs) (simp_all add: ac_simps)

lemma xor_words_xor_all:
  "xor_words n bs res = res XOR xor_all (map (\<lambda>i. le_word (take 8 (drop (8 * i) bs))) [0..<n])"
proof (induction n arbitrary: bs res)
  case 0
  show ?case by simp
next
  case (Suc n)
  have "map (\<lambda>i. le_word (take 8 (drop (8 * i) (drop 8 bs)))) [0..<n]
      = map (\<lambda>i. le_word (take 8 (drop (8 * i) bs))) [Suc 0..<Suc n]"
    unfolding map_Suc_upt [symmetric] by (simp add: o_def add.commute)
  moreover have "[0..<Suc n] = 0 # [Suc 0..<Suc n]"
    by (simp add: upt_conv_Cons)
  ultimately show ?case
    by (simp only: xor_words.simps Suc.IH list.map xor_all_simps) (simp add: ac_simps)
qed

lemma tail_byte_low:
  assumes "i < 3"
  shows "tail_byte i b = Inr (push_bit (8 * i) (ucast b))"
proof -
  have "scast (push_bit (8 * i) (ucast b :: u32)) = (push_bit (8 * i) (ucast b) :: u64)"
    using assms
    by (intro bit_eqI) (auto simp: bit_simps min_def dest: bit_imp_le_length)
  then show ?thesis
    using assms by (simp add: tail_byte_def)
qed

lemma xor_tail_low:
  "i + length bs \<le> 3 \<Longrightarrow> xor_tail i bs res = Inr (res XOR push_bit (8 * i) (le_word bs))"
proof (induction bs arbitrary: i res)
  case Nil
  show ?case by simp
next
  case (Cons b bs)
  have "(res XOR push_bit (8 * i) (ucast b)) XOR push_bit (8 * Suc i) (le_word bs)
      = res XOR push_bit (8 * i) (ucast b OR push_bit 8 (le_word bs))"
    by (rule bit_eqI) (auto simp: bit_simps add.commute [of 8] dest: bit_imp_le_length)
  with Cons show ?case
    by (simp add: tail_byte_low)
qed

lemma padded_words_split:
  "padded_words bs = map (\<lambda>i. le_word (take 8 (drop (8 * i) bs))) [0..<length bs div 8]
     @ (if length bs mod 8 = 0 then [] else [le_word (drop (8 * (length bs div 8)) bs)])"
proof (cases "length bs mod 8 = 0")
  case True
  then have "(length bs + 7) div 8 = length bs div 8"
    by presburger
  then show ?thesis
    using True by (simp add: padded_words_def)
next
  case False
  then have "(length bs + 7) div 8 = Suc (length bs div 8)"
    by presburger
  moreover have "take 8 (drop (8 * (length bs div 8)) bs) = drop (8 * (length bs div 8)) bs"
    by (simp add: minus_mult_div_eq_mod)
  ultimately show ?thesis
    using False by (simp add: padded_words_def)
qed

text \<open>C40: with at most three tail bytes the hash is the exclusive or of the little-endian 64-bit words of
  the string, the last one padded with zeros.\<close>

theorem hash_bytes_padded:
  assumes "length bs mod 8 \<le> 3"
  shows "hash_bytes bs = Inr (xor_all (padded_words bs))"
proof -
  have "length (drop (8 * (length bs div 8)) bs) = length bs mod 8"
    by (simp add: minus_mult_div_eq_mod)
  then show ?thesis
    using assms
    by (simp add: hash_bytes_def Let_def xor_tail_low xor_words_xor_all padded_words_split xor_all_append)
qed

theorem hash_bytes_padded_witness:
  "hash_bytes [1, 0, 0, 0, 0, 0, 0, 128, 7, 1] = Inr (xor_all (padded_words [1, 0, 0, 0, 0, 0, 0, 128, 7, 1]))"
  by (rule hash_bytes_padded) simp

text \<open>With four tail bytes the top half of the hash is flipped when the last byte has its high bit
  set: the hash then differs from the zero-padded one by the sign extension.\<close>

theorem hash_bytes_sign_extension:
  assumes "length bs mod 8 = 4"
  shows "hash_bytes bs =
    Inr (xor_all (padded_words bs) XOR (if bit (last bs) 7 then push_bit 32 (mask 32) else 0))"
proof -
  define t where "t = drop (8 * (length bs div 8)) bs"
  have "length t = 4"
    using assms by (simp add: t_def minus_mult_div_eq_mod)
  then obtain a b c d where t: "t = [a, b, c, d]"
    by (auto simp: numeral_eq_Suc length_Suc_conv)
  then have last: "last bs = d"
    by (metis last.simps last_drop list.simps(3) t_def drop_eq_Nil not_less)
  have ext: "scast (push_bit 24 (ucast d :: u32))
      = (push_bit 24 (ucast d) :: u64) XOR (if bit d 7 then push_bit 32 (mask 32) else 0)"
  proof (rule bit_eqI)
    fix n
    show "bit (scast (push_bit 24 (ucast d :: u32)) :: u64) n
      \<longleftrightarrow> bit ((push_bit 24 (ucast d) :: u64) XOR (if bit d 7 then push_bit 32 (mask 32) else 0)) n"
      by (cases n "31 :: nat" rule: linorder_cases)
        (auto simp: bit_simps min_def dest: bit_imp_le_length)
  qed
  have "xor_tail 0 t r = Inr (r XOR le_word t XOR (if bit d 7 then push_bit 32 (mask 32) else 0))" for r
  proof -
    have "le_word t = ucast a XOR push_bit 8 (ucast b) XOR push_bit 16 (ucast c) XOR push_bit 24 (ucast d)"
      unfolding t by (rule bit_eqI) (auto simp: bit_simps dest: bit_imp_le_length)
    then show ?thesis
      by (simp add: t tail_byte_low) (simp add: tail_byte_def ext ac_simps)
  qed
  then show ?thesis
    using assms last
    by (simp add: hash_bytes_def Let_def xor_words_xor_all padded_words_split xor_all_append
        xor.assoc flip: t_def)
qed

theorem hash_bytes_sign_extension_witness:
  "hash_bytes [0, 0, 0, 128] = Inr (le_word [0, 0, 0, 128] XOR push_bit 32 (mask 32))"
  using hash_bytes_sign_extension [of "[0, 0, 0, 128]"] by (simp add: padded_words_def)

end
