(* ===== verification/Ip_Addr.thy ===== *)
theory Ip_Addr
  imports Prelude
begin

text \<open>
  \<^verbatim>\<open>src/ipv4_addr.h\<close> and \<^verbatim>\<open>src/ipv6_addr.h\<close>: the address value types with their equality and hash.
  An IPv4 address is its 32-bit \<^verbatim>\<open>s_addr\<close>; an IPv6 address is the 16-byte union, whose \<^verbatim>\<open>qwords\<close> and
  \<^verbatim>\<open>dwords\<close> views are little-endian reads of the bytes. \<^verbatim>\<open>inet_pton\<close> is the C library's: the model
  takes it as a function that gives the return code and the address it stored.
\<close>

section \<open>IPv4\<close>

record ipv4_addr =
  s_addr :: u32

definition ipv4_default :: ipv4_addr where
  "ipv4_default = \<lparr>s_addr = 0\<rparr>"

definition ipv4_of_string :: "(string \<Rightarrow> int \<times> u32) \<Rightarrow> string option \<Rightarrow> ipv4_addr res" where
  "ipv4_of_string inet_pton ip =
     (case ip of
        None \<Rightarrow> Inl Assertion
      | Some s \<Rightarrow>
          let (rc, a) = inet_pton s
          in if 1 \<noteq> rc then Inr \<lparr>s_addr = 0\<rparr> else Inr \<lparr>s_addr = a\<rparr>)"

definition ipv4_of_in_addr :: "u32 \<Rightarrow> ipv4_addr" where
  "ipv4_of_in_addr a = \<lparr>s_addr = a\<rparr>"

definition ipv4_eq :: "ipv4_addr \<Rightarrow> ipv4_addr \<Rightarrow> bool" where
  "ipv4_eq a b \<longleftrightarrow> s_addr a = s_addr b"

definition ipv4_hash :: "ipv4_addr \<Rightarrow> size_t" where
  "ipv4_hash a = ucast (s_addr a)"

section \<open>IPv6\<close>

record ipv6_addr =
  addr_bytes :: "u8 list"

definition ipv6_default :: ipv6_addr where
  "ipv6_default = \<lparr>addr_bytes = replicate 16 0\<rparr>"

definition qword :: "ipv6_addr \<Rightarrow> nat \<Rightarrow> u64" where
  "qword a i = le_word (take 8 (drop (8 * i) (addr_bytes a)))"

definition dword :: "ipv6_addr \<Rightarrow> nat \<Rightarrow> u32" where
  "dword a i = ucast (le_word (take 4 (drop (4 * i) (addr_bytes a))))"

definition ipv6_eq :: "ipv6_addr \<Rightarrow> ipv6_addr \<Rightarrow> bool" where
  "ipv6_eq a b \<longleftrightarrow> qword a 0 = qword b 0 \<and> qword a 1 = qword b 1"

definition ipv6_hash :: "ipv6_addr \<Rightarrow> size_t" where
  "ipv6_hash a = qword a 0 XOR qword a 1"

definition ipv6_hash32 :: "ipv6_addr \<Rightarrow> u32" where
  "ipv6_hash32 a = dword a 0 XOR dword a 1 XOR dword a 2 XOR dword a 3"

definition ipv6_wf :: "ipv6_addr \<Rightarrow> bool" where
  "ipv6_wf a \<longleftrightarrow> length (addr_bytes a) = 16"

section \<open>Equality and hash\<close>

lemma le_word_inj:
  assumes "le_word xs = le_word ys" "length xs = length ys" "length xs \<le> 8"
  shows "xs = ys"
  by (metis assms le_bytes_le_word)

lemma ipv6_wf_default: "ipv6_wf ipv6_default"
  by (simp add: ipv6_wf_def ipv6_default_def)

lemma ipv4_eq_iff: "ipv4_eq a b \<longleftrightarrow> a = b"
  by (cases a; cases b) (simp add: ipv4_eq_def)

lemma ucast_up_down: "ucast (ucast (w :: u32) :: u64) = w"
  by (rule bit_eqI) (auto simp: bit_simps)

lemma ipv4_hash_inj: "ipv4_hash a = ipv4_hash b \<longleftrightarrow> ipv4_eq a b"
  unfolding ipv4_hash_def ipv4_eq_def by (metis ucast_up_down)

lemma ipv6_eq_iff:
  assumes "ipv6_wf a" "ipv6_wf b"
  shows "ipv6_eq a b \<longleftrightarrow> a = b"
proof
  assume "ipv6_eq a b"
  then have "take 8 (addr_bytes a) = take 8 (addr_bytes b)"
      "drop 8 (addr_bytes a) = drop 8 (addr_bytes b)"
    using assms by (auto simp: ipv6_eq_def qword_def ipv6_wf_def intro: le_word_inj)
  then have "addr_bytes a = addr_bytes b"
    by (metis append_take_drop_id)
  then show "a = b"
    by simp
next
  assume "a = b"
  then show "ipv6_eq a b"
    by (simp add: ipv6_eq_def)
qed

text \<open>Comparing the two 64-bit halves of IPv6 addresses decides equality of all sixteen bytes, and
  equal addresses have equal hashes on the 64-bit and on the 32-bit branch of \<open>hash\<close>.\<close>

theorem ipv6_eq_hash:
  assumes "ipv6_wf a" "ipv6_wf b"
  shows "(ipv6_eq a b \<longleftrightarrow> addr_bytes a = addr_bytes b)
    \<and> (ipv6_eq a b \<longrightarrow> ipv6_hash a = ipv6_hash b \<and> ipv6_hash32 a = ipv6_hash32 b)"
  using ipv6_eq_iff [OF assms] by auto

theorem ipv6_eq_hash_witness:
  "(ipv6_eq \<lparr>addr_bytes = replicate 16 1\<rparr> ipv6_default
      \<longleftrightarrow> addr_bytes \<lparr>addr_bytes = replicate 16 1\<rparr> = addr_bytes ipv6_default)"
  by (rule ipv6_eq_hash [THEN conjunct1]) (simp_all add: ipv6_wf_def ipv6_default_def)

end
