(* ===== verification/Allocator.thy ===== *)
theory Allocator
  imports Prelude
begin

text \<open>
  \<^verbatim>\<open>src/allocator.h\<close>: the standard allocator interface over a pair of functions. The functions are
  values of the model: \<open>alloc\<close> and \<open>dealloc\<close> pass a heap of the caller's choice, so the class is
  verified for every pair, which may also fault; \<open>sizeof\<close> is the size of the value type. Objects are
  constructed and destroyed in an object store by address, apart from the heap the functions manage.
\<close>

record 'h allocator =
  alloc :: "size_t \<Rightarrow> 'h \<Rightarrow> (u64 \<times> 'h) res"
  dealloc :: "u64 \<Rightarrow> 'h \<Rightarrow> 'h res"

definition rebind_allocator :: "'h allocator \<Rightarrow> 'h allocator" where
  "rebind_allocator a = \<lparr>alloc = alloc a, dealloc = dealloc a\<rparr>"

definition allocate :: "size_t \<Rightarrow> 'h allocator \<Rightarrow> size_t \<Rightarrow> 'h \<Rightarrow> (u64 \<times> 'h) res" where
  "allocate sizeof a n h = alloc a (n * sizeof) h"

definition deallocate :: "'h allocator \<Rightarrow> u64 \<Rightarrow> size_t \<Rightarrow> 'h \<Rightarrow> 'h res" where
  "deallocate a p n h = dealloc a p h"

definition max_count :: "size_t \<Rightarrow> size_t" where
  "max_count sizeof = (-1) div sizeof"

text \<open>
  Placement new and the destructor call. An object occupies \<open>sizeof\<close> bytes from its address on.
  Construction does not look at what was there: it ends the lifetime of every object whose bytes it
  reuses.
\<close>

type_synonym 'v objects = "u64 \<Rightarrow> 'v option"

definition overlaps :: "size_t \<Rightarrow> u64 \<Rightarrow> u64 \<Rightarrow> bool" where
  "overlaps sizeof a p \<longleftrightarrow> a - p < sizeof \<or> p - a < sizeof"

definition construct :: "size_t \<Rightarrow> u64 \<Rightarrow> 'v \<Rightarrow> 'v objects \<Rightarrow> 'v objects" where
  "construct sizeof p v st =
     (\<lambda>a. if a = p then Some v else if overlaps sizeof a p then None else st a)"

definition destroy :: "u64 \<Rightarrow> 'v objects \<Rightarrow> 'v objects res" where
  "destroy p st = (case st p of None \<Rightarrow> Inl Undefined | Some v \<Rightarrow> Inr (st(p := None)))"

lemma unat_minus_one_word64: "unat (-1 :: size_t) = 2 ^ 64 - 1"
  by (simp add: unsigned_minus_1_eq_mask mask_eq_exp_minus_1)

lemma unat_max_count: "unat (max_count sizeof) = (2 ^ 64 - 1) div unat sizeof"
  unfolding max_count_def unat_div unat_minus_one_word64 ..

lemma max_count_iff:
  assumes "sizeof \<noteq> 0"
  shows "n \<le> max_count sizeof \<longleftrightarrow> unat n * unat sizeof < 2 ^ 64"
proof -
  have "0 < unat sizeof"
    using assms by (simp add: unat_gt_0)
  then have "unat n \<le> (2 ^ 64 - 1) div unat sizeof \<longleftrightarrow> unat n * unat sizeof \<le> 2 ^ 64 - 1"
    by (rule less_eq_div_iff_mult_less_eq)
  then show ?thesis
    by (auto simp: word_le_nat_alt unat_max_count simp del: One_nat_def)
qed

text \<open>\<open>allocate\<close> asks its allocation function for \<open>n * sizeof\<close> bytes computed modulo \<open>2 ^ 64\<close>; the
  request is the exact byte count precisely for \<open>n\<close> up to \<open>max_size\<close>, which is not checked.\<close>

theorem allocate_exact_iff:
  assumes "sizeof \<noteq> 0"
  shows "allocate sizeof a n h = alloc a (n * sizeof) h
    \<and> (unat (n * sizeof) = unat n * unat sizeof \<longleftrightarrow> n \<le> max_count sizeof)"
proof -
  have "unat (n * sizeof) = (unat n * unat sizeof) mod 2 ^ 64"
    by (simp add: unat_word_ariths)
  moreover have "x mod 2 ^ 64 = x \<longleftrightarrow> x < 2 ^ 64" for x :: nat
    by (metis mod_less mod_less_divisor zero_less_numeral zero_less_power)
  ultimately have "unat (n * sizeof) = unat n * unat sizeof \<longleftrightarrow> n \<le> max_count sizeof"
    unfolding max_count_iff [OF assms] by metis
  then show ?thesis
    by (simp add: allocate_def)
qed

theorem allocate_exact_iff_witness:
  "unat ((2 ^ 61 :: size_t) * 8) \<noteq> unat (2 ^ 61 :: size_t) * unat (8 :: size_t)
   \<and> \<not> (2 ^ 61 :: size_t) \<le> max_count 8"
  using allocate_exact_iff [of 8 "\<lparr>alloc = \<lambda>n h. Inr (n, h), dealloc = \<lambda>p h. Inr h\<rparr>" "2 ^ 61" "()"]
  by simp

end
