(* ===== verification/Posix.thy ===== *)
theory Posix
  imports Prelude "HOL-Library.Multiset"
begin

text \<open>
  The operating system as the library sees it. The kernel is not part of the sources, so it is a
  parameter: an \<open>os\<close> is any strategy that answers a call from the calls made so far. A function
  that makes system calls takes the \<open>os\<close> and the trace of calls already answered and returns the
  longer trace; every theorem holds for all strategies, or names what it asks of them.

  Two readings of a trace state what the calls achieve, as the manual pages document it: \<open>held\<close> is
  the multiset of file descriptors a process has open, \<open>view_of\<close> tells which file a descriptor names
  and what lies at an address.
\<close>

section \<open>Calls, replies and traces\<close>

type_synonym cstring = "u8 list"

datatype sock_addr = Inet_addr u32 "16 word" | Unix_addr cstring

datatype call =
    Shm_open cstring bool
  | Shm_unlink cstring
  | Ftruncate int u64
  | Mmap u64 u64 u32 u32 int u64
  | Mremap u64 u64 u64 u32 u64
  | Munmap u64 u64
  | Read_fd int nat
  | Lseek_start int
  | Close int
  | Dup_fd int
  | Get_flags int
  | Set_flags int int
  | Socket_new bool
  | Bind int sock_addr
  | Listen int nat
  | Unlink cstring
  | Accept int
  | Recv int nat
  | Send int "u8 list"
  | Epoll_create
  | Epoll_add int int u32 u64
  | Epoll_del int int
  | Epoll_wait int nat int

text \<open>
  Strings are byte lists without the terminator. The arguments are those of the C functions (address, length,
  protection, flags, descriptor and offset of \<^verbatim>\<open>mmap\<close>; old address, old and new length, flags and new
  address of \<^verbatim>\<open>mremap\<close>); \<^verbatim>\<open>shm_open\<close> is always called for reading and writing, and the flag says
  whether it creates, exclusively. A reply carries every kind of result a call can have: the return value,
  \<^verbatim>\<open>errno\<close>, an address, bytes stored through a pointer, the events of a wait (listener pointer and event
  mask), and the number of the file a descriptor was opened on (the inode, as \<^verbatim>\<open>fstat\<close> reports it).
\<close>

record reply =
  rv :: int
  err :: int
  ptr :: u64
  bytes :: "u8 list"
  evs :: "(u64 \<times> u32) list"
  ino :: nat

type_synonym trace = "(call \<times> reply) list"
type_synonym os = "trace \<Rightarrow> call \<Rightarrow> reply"

definition syscall :: "os \<Rightarrow> call \<Rightarrow> trace \<Rightarrow> reply \<times> trace" where
  "syscall os c tr = (let r = os tr c in (r, tr @ [(c, r)]))"

lemma syscall_eq: "syscall os c tr = (os tr c, tr @ [(c, os tr c)])"
  by (simp add: syscall_def Let_def)

definition eagain :: int where "eagain = 11"
definition eintr :: int where "eintr = 4"
definition enoent :: int where "enoent = 2"

section \<open>Descriptors a process holds\<close>

fun new_fd :: "call \<Rightarrow> int \<Rightarrow> int multiset" where
  "new_fd (Shm_open _ _) r = (if r < 0 then {#} else {#r#})"
| "new_fd (Dup_fd _) r = (if r < 0 then {#} else {#r#})"
| "new_fd (Socket_new _) r = (if r < 0 then {#} else {#r#})"
| "new_fd (Accept _) r = (if r < 0 then {#} else {#r#})"
| "new_fd Epoll_create r = (if r < 0 then {#} else {#r#})"
| "new_fd _ r = {#}"

fun old_fd :: "call \<Rightarrow> int multiset" where
  "old_fd (Close fd) = {#fd#}"
| "old_fd _ = {#}"

definition fd_step :: "int multiset \<Rightarrow> call \<times> reply \<Rightarrow> int multiset" where
  "fd_step m e = m - old_fd (fst e) + new_fd (fst e) (rv (snd e))"

definition held :: "trace \<Rightarrow> int multiset" where
  "held tr = run fd_step {#} tr"

lemma held_Nil [simp]: "held [] = {#}"
  by (simp add: held_def)

lemma held_append: "held (tr @ es) = run fd_step (held tr) es"
  by (simp add: held_def run_append)

lemma fd_step_eq [simp]: "fd_step m (c, r) = m - old_fd c + new_fd c (rv r)"
  by (simp add: fd_step_def)

lemma new_fd_nonneg: "x \<in># new_fd c r \<Longrightarrow> 0 \<le> x"
  by (induction c r rule: new_fd.induct) (auto split: if_splits)

lemma held_nonneg: "x \<in># held tr \<Longrightarrow> 0 \<le> x"
proof (induction tr rule: rev_induct)
  case (snoc e tr)
  obtain c r where "e = (c, r)"
    by (cases e)
  with snoc show ?case
    by (auto simp: held_append dest: new_fd_nonneg in_diffD)
qed simp

text \<open>Every close is of a descriptor that is open at that point.\<close>

definition closes_ok :: "trace \<Rightarrow> bool" where
  "closes_ok tr \<longleftrightarrow>
     (\<forall>i < length tr. \<forall>fd. fst (tr ! i) = Close fd \<longrightarrow> 0 \<le> fd \<longrightarrow> fd \<in># held (take i tr))"

lemma closes_ok_Nil [simp]: "closes_ok []"
  by (simp add: closes_ok_def)

lemma closes_ok_snoc:
  "closes_ok (tr @ [(c, r)]) \<longleftrightarrow> closes_ok tr \<and> (\<forall>fd. c = Close fd \<longrightarrow> 0 \<le> fd \<longrightarrow> fd \<in># held tr)"
  by (auto simp: closes_ok_def nth_append less_Suc_eq)

lemma held_snoc: "held (tr @ [(c, r)]) = held tr - old_fd c + new_fd c (rv r)"
  by (simp add: held_append)

lemma syscall_held:
  "syscall os c tr = (r, tr') \<Longrightarrow> r = os tr c \<and> held tr' = held tr - old_fd c + new_fd c (rv r)
    \<and> (closes_ok tr' \<longleftrightarrow> closes_ok tr \<and> (\<forall>fd. c = Close fd \<longrightarrow> 0 \<le> fd \<longrightarrow> fd \<in># held tr))"
  by (auto simp: syscall_eq held_snoc closes_ok_snoc)

section \<open>Files and the address space\<close>

definition prot_read :: u32 where "prot_read = 1"
definition prot_write :: u32 where "prot_write = 2"
definition map_shared :: u32 where "map_shared = 1"
definition map_private :: u32 where "map_private = 2"
definition map_fixed :: u32 where "map_fixed = 16"
definition map_anonymous :: u32 where "map_anonymous = 32"
definition mremap_maymove :: u32 where "mremap_maymove = 1"
definition mremap_fixed :: u32 where "mremap_fixed = 2"

definition map_failed :: u64 where "map_failed = -1"

lemmas mmap_flags = prot_read_def prot_write_def map_shared_def map_private_def map_fixed_def map_anonymous_def
  mremap_maymove_def mremap_fixed_def

text \<open>
  What can lie behind an address: a shared-memory file, by its number; a file the process got in another way, by its
  descriptor; memory of an anonymous shared mapping; memory of a private mapping. The last two are
  numbered by the mapping that made them.
\<close>

datatype mobject = Shm_file nat | Other_file int | Shared_memory nat | Private_memory nat

type_synonym vspace = "u64 \<Rightarrow> (mobject \<times> u64) option"

text \<open>A view: the file behind each descriptor, the sizes this process gave to files, the number of the next
  mapping, and for each address that can be read and written what it is backed by.\<close>

record view =
  fd_file :: "int \<Rightarrow> mobject"
  size_set :: "nat \<Rightarrow> u64 option"
  maps_made :: nat
  mapped :: vspace

definition in_range :: "u64 \<Rightarrow> u64 \<Rightarrow> u64 \<Rightarrow> bool" where
  "in_range p len a \<longleftrightarrow> a - p < len"

text \<open>The object a new mapping shows.\<close>

definition mmap_object :: "view \<Rightarrow> u32 \<Rightarrow> int \<Rightarrow> mobject" where
  "mmap_object v flags fd =
     (if flags AND map_shared = 0 then Private_memory (maps_made v)
      else if flags AND map_anonymous \<noteq> 0 then Shared_memory (maps_made v)
      else fd_file v fd)"

text \<open>
  The documented effects. \<^verbatim>\<open>mremap\<close> with old size 0 maps the target range to what the source range is
  a shared mapping of; of a private mapping it gives no second view.
\<close>

fun view_step :: "view \<Rightarrow> call \<times> reply \<Rightarrow> view" where
  "view_step v (Shm_open nm creat, r) =
     (if rv r < 0 then v
      else v\<lparr>fd_file := (fd_file v)(rv r := Shm_file (ino r)),
             size_set := (if creat then (size_set v)(ino r := Some 0) else size_set v)\<rparr>)"
| "view_step v (Ftruncate fd n, r) =
     (if rv r < 0 then v
      else case fd_file v fd of
        Shm_file i \<Rightarrow> v\<lparr>size_set := (size_set v)(i := Some n)\<rparr>
      | _ \<Rightarrow> v)"
| "view_step v (Dup_fd fd, r) = (if rv r < 0 then v else v\<lparr>fd_file := (fd_file v)(rv r := fd_file v fd)\<rparr>)"
| "view_step v (Close fd, r) = v\<lparr>fd_file := (fd_file v)(fd := Other_file fd)\<rparr>"
| "view_step v (Mmap addr len prot flags fd off, r) =
     (if ptr r = map_failed then v
      else v\<lparr>maps_made := Suc (maps_made v),
             mapped := (\<lambda>a. if in_range (ptr r) len a
               then (if prot AND prot_read \<noteq> 0 \<and> prot AND prot_write \<noteq> 0
                     then Some (mmap_object v flags fd, off + (a - ptr r)) else None)
               else mapped v a)\<rparr>)"
| "view_step v (Mremap old olen nlen flags new, r) =
     (if ptr r = map_failed then v
      else v\<lparr>maps_made := Suc (maps_made v),
             mapped := (\<lambda>a. if in_range (ptr r) nlen a
               then (case mapped v (old + (a - ptr r)) of
                       Some (Private_memory k, off) \<Rightarrow>
                         if olen = 0 then Some (Private_memory (maps_made v), a - ptr r)
                         else Some (Private_memory k, off)
                     | x \<Rightarrow> x)
               else if in_range old olen a then None
               else mapped v a)\<rparr>)"
| "view_step v (Munmap addr len, r) = v\<lparr>mapped := (\<lambda>a. if in_range addr len a then None else mapped v a)\<rparr>"
| "view_step v (_, r) = v"

definition no_view :: view where
  "no_view = \<lparr>fd_file = Other_file, size_set = (\<lambda>_. None), maps_made = 0, mapped = (\<lambda>_. None)\<rparr>"

definition view_of :: "trace \<Rightarrow> view" where
  "view_of tr = run view_step no_view tr"

definition vmap :: "trace \<Rightarrow> vspace" where
  "vmap tr = mapped (view_of tr)"

lemma view_of_append: "view_of (tr @ es) = run view_step (view_of tr) es"
  by (simp add: view_of_def run_append)

end
