(* ===== verification/Ring.thy ===== *)
theory Ring
  imports Prelude
begin

text \<open>
  Reading and writing a ring of cells, shared by the byte ring of \<^verbatim>\<open>circular_buffer.c\<close>, its concurrent
  use and the slot ring of \<^verbatim>\<open>circular_queue.h\<close>. Positions are unbounded naturals; a cell is the
  position modulo the length of the ring.
\<close>

definition ring_read :: "'a list \<Rightarrow> nat \<Rightarrow> nat \<Rightarrow> 'a list" where
  "ring_read xs s n = map (\<lambda>i. xs ! ((s + i) mod length xs)) [0..<n]"

fun ring_write :: "'a list \<Rightarrow> nat \<Rightarrow> 'a list \<Rightarrow> 'a list" where
  "ring_write xs s [] = xs"
| "ring_write xs s (b # bs) = ring_write (xs[s mod length xs := b]) (Suc s) bs"

lemma length_ring_read [simp]: "length (ring_read xs s n) = n"
  by (simp add: ring_read_def)

lemma length_ring_write [simp]: "length (ring_write xs s bs) = length xs"
  by (induction xs s bs rule: ring_write.induct) simp_all

lemma ring_read_0 [simp]: "ring_read xs s 0 = []"
  by (simp add: ring_read_def)

lemma nth_ring_read: "i < n \<Longrightarrow> ring_read xs s n ! i = xs ! ((s + i) mod length xs)"
  by (simp add: ring_read_def)

lemma ring_read_add: "ring_read xs s (m + n) = ring_read xs s m @ ring_read xs (s + m) n"
  by (rule nth_equalityI) (auto simp: nth_ring_read nth_append add.assoc)

lemma take_ring_read: "k \<le> n \<Longrightarrow> take k (ring_read xs s n) = ring_read xs s k"
  using ring_read_add [of xs s k "n - k"] by simp

lemma drop_ring_read: "drop k (ring_read xs s n) = ring_read xs (s + k) (n - k)"
proof (cases "k \<le> n")
  case True
  then show ?thesis
    using ring_read_add [of xs s k "n - k"] by simp
next
  case False
  then show ?thesis
    by simp
qed

lemma ring_read_mod:
  assumes "s mod length xs = t mod length xs"
  shows "ring_read xs s n = ring_read xs t n"
proof -
  have "(s + i) mod length xs = (t + i) mod length xs" for i
    by (metis assms mod_add_left_eq)
  then show ?thesis
    by (simp add: ring_read_def)
qed

lemma ring_write_mod:
  "s mod length xs = t mod length xs \<Longrightarrow> ring_write xs s bs = ring_write xs t bs"
proof (induction xs s bs arbitrary: t rule: ring_write.induct)
  case (2 xs s b bs)
  have "Suc s mod length xs = Suc t mod length xs"
    using "2.prems" by (metis mod_Suc_eq)
  then show ?case
    using "2.IH" [of "Suc t"] "2.prems" by simp
qed simp

text \<open>Two positions less than a full turn apart share a cell only if they are equal.\<close>

lemma ring_pos_inj:
  assumes "(p :: nat) mod c = q mod c" "p \<le> q" "q < p + c"
  shows "p = q"
proof -
  have "(q - p) mod c = 0"
    using assms(1,2) by (metis mod_eq_dvd_iff_nat mod_0_imp_dvd dvd_imp_mod_0)
  moreover have "q - p < c"
    using assms(2,3) by linarith
  ultimately show ?thesis
    using assms(2) by simp
qed

lemma ring_write_other:
  assumes "t < s + length xs" "s + length bs \<le> t + length xs" "t < s \<or> s + length bs \<le> t"
  shows "ring_write xs s bs ! (t mod length xs) = xs ! (t mod length xs)"
  using assms
proof (induction xs s bs rule: ring_write.induct)
  case (2 xs s b bs)
  have "s mod length xs \<noteq> t mod length xs"
  proof
    assume eq: "s mod length xs = t mod length xs"
    have "s = t"
    proof (cases "t < s")
      case True
      then show ?thesis
        using ring_pos_inj [of t "length xs" s] eq "2.prems" by simp
    next
      case False
      then show ?thesis
        using ring_pos_inj [of s "length xs" t] eq "2.prems" by simp
    qed
    then show False
      using "2.prems" by simp
  qed
  then have "xs[s mod length xs := b] ! (t mod length xs) = xs ! (t mod length xs)"
    by simp
  moreover have "ring_write (xs[s mod length xs := b]) (Suc s) bs ! (t mod length xs)
      = xs[s mod length xs := b] ! (t mod length xs)"
    using "2.IH" "2.prems" by auto
  ultimately show ?case
    by simp
qed simp

lemma ring_write_same:
  assumes "j < length bs" "length bs \<le> length xs"
  shows "ring_write xs s bs ! ((s + j) mod length xs) = bs ! j"
  using assms
proof (induction xs s bs arbitrary: j rule: ring_write.induct)
  case (2 xs s b bs)
  show ?case
  proof (cases j)
    case 0
    have "ring_write (xs[s mod length xs := b]) (Suc s) bs ! (s mod length xs)
        = xs[s mod length xs := b] ! (s mod length xs)"
      using ring_write_other [of s "Suc s" "xs[s mod length xs := b]" bs] "2.prems" by simp
    moreover have "s mod length xs < length xs"
      using "2.prems" by (intro mod_less_divisor) linarith
    ultimately show ?thesis
      using 0 by simp
  next
    case (Suc i)
    then show ?thesis
      using "2.IH" [of i] "2.prems" by simp
  qed
qed simp

text \<open>The law both rings rest on: writing right after what is stored appends to it.\<close>

lemma ring_read_write:
  assumes "n + length bs \<le> length xs"
  shows "ring_read (ring_write xs (s + n) bs) s (n + length bs) = ring_read xs s n @ bs"
proof (rule nth_equalityI)
  fix i
  assume "i < length (ring_read (ring_write xs (s + n) bs) s (n + length bs))"
  then have i: "i < n + length bs"
    by simp
  show "ring_read (ring_write xs (s + n) bs) s (n + length bs) ! i = (ring_read xs s n @ bs) ! i"
  proof (cases "i < n")
    case True
    then have "ring_write xs (s + n) bs ! ((s + i) mod length xs) = xs ! ((s + i) mod length xs)"
      using assms by (intro ring_write_other) auto
    then show ?thesis
      using True i by (simp add: nth_ring_read nth_append)
  next
    case False
    then obtain j where j: "i = n + j" "j < length bs"
      using i by (metis le_Suc_ex nat_add_left_cancel_less not_less)
    then have "ring_write xs (s + n) bs ! ((s + n + j) mod length xs) = bs ! j"
      using assms by (intro ring_write_same) auto
    then show ?thesis
      using j i by (simp add: nth_ring_read nth_append add.assoc)
  qed
qed simp

lemma ring_read_write_other:
  assumes "s + n \<le> t" "t + length bs \<le> s + length xs"
  shows "ring_read (ring_write xs t bs) s n = ring_read xs s n"
  by (rule nth_equalityI) (use assms in \<open>auto simp: nth_ring_read intro!: ring_write_other\<close>)

end
