(* ===== verification/Byte_Ring.thy ===== *)
theory Byte_Ring
  imports Posix Ring
begin

text \<open>
  The contract a byte ring gives its users, as a locale: \<open>put\<close> appends what fits, \<open>view\<close> shows the
  stored bytes in order, \<open>pop\<close> drops a prefix, \<open>room\<close> counts the free bytes. The users of the ring
  fill it from one side and drain it from the other in any order; that nothing is lost, repeated or
  reordered is proved here once, from the contract.
\<close>

datatype ring_event = Fill "u8 list" | Drain size_t

record 's ring_log =
  ring_state :: 's
  accepted :: "u8 list"
  delivered :: "u8 list"

fun ring_step ::
    "('s \<Rightarrow> nat) \<Rightarrow> ('s \<Rightarrow> u8 list \<Rightarrow> 's) \<Rightarrow> ('s \<Rightarrow> u8 list) \<Rightarrow> ('s \<Rightarrow> size_t \<Rightarrow> 's) \<Rightarrow>
     's ring_log \<Rightarrow> ring_event \<Rightarrow> 's ring_log" where
  "ring_step room put view pop l (Fill bs) =
     (let s = ring_state l; fit = take (room s) bs
      in l\<lparr>ring_state := put s fit, accepted := accepted l @ fit\<rparr>)"
| "ring_step room put view pop l (Drain n) =
     (let s = ring_state l
      in l\<lparr>ring_state := pop s n, delivered := delivered l @ take (unat n) (view s)\<rparr>)"

locale byte_ring =
  fixes ok :: "'s \<Rightarrow> bool"
    and stored :: "'s \<Rightarrow> u8 list"
    and room :: "'s \<Rightarrow> nat"
    and put :: "'s \<Rightarrow> u8 list \<Rightarrow> 's"
    and view :: "'s \<Rightarrow> u8 list"
    and pop :: "'s \<Rightarrow> size_t \<Rightarrow> 's"
  assumes ok_put: "ok s \<Longrightarrow> length bs \<le> room s \<Longrightarrow> ok (put s bs)"
    and ok_pop: "ok s \<Longrightarrow> ok (pop s n)"
    and stored_put: "ok s \<Longrightarrow> length bs \<le> room s \<Longrightarrow> stored (put s bs) = stored s @ bs"
    and stored_pop: "ok s \<Longrightarrow> stored (pop s n) = drop (unat n) (stored s)"
    and view_stored: "ok s \<Longrightarrow> view s = stored s"
    and room_put: "ok s \<Longrightarrow> length bs \<le> room s \<Longrightarrow> room (put s bs) = room s - length bs"
    and room_pop: "ok s \<Longrightarrow> room (pop s n) = room s + min (unat n) (length (stored s))"
begin

text \<open>Bytes in flight: everything accepted was delivered or is still stored, in order.\<close>

lemma step_in_flight:
  assumes "ok (ring_state l) \<and> accepted l = delivered l @ stored (ring_state l)"
  shows "ok (ring_state (ring_step room put view pop l e))
    \<and> accepted (ring_step room put view pop l e)
      = delivered (ring_step room put view pop l e) @ stored (ring_state (ring_step room put view pop l e))"
proof (cases e)
  case (Fill bs)
  have "length (take (room (ring_state l)) bs) \<le> room (ring_state l)"
    by simp
  then show ?thesis
    using assms by (simp only: Fill ring_step.simps Let_def) (simp add: ok_put stored_put)
next
  case (Drain n)
  then show ?thesis
    using assms by (simp add: Let_def ok_pop stored_pop view_stored)
qed

sublocale flight: invariant_steps "ring_step room put view pop"
  "\<lambda>l. ok (ring_state l) \<and> accepted l = delivered l @ stored (ring_state l)"
  by unfold_locales (rule step_in_flight)

lemma occupancy_put: "ok s \<Longrightarrow> length bs \<le> room s \<Longrightarrow>
    length (stored (put s bs)) + room (put s bs) = length (stored s) + room s"
  by (simp add: stored_put room_put)

lemma occupancy_pop: "ok s \<Longrightarrow>
    length (stored (pop s n)) + room (pop s n) = length (stored s) + room s"
  by (simp add: stored_pop room_pop)

end

end
