(* ===== verification/Circular_Buffer.thy ===== *)
theory Circular_Buffer
  imports Byte_Ring
begin

text \<open>
  \<^verbatim>\<open>src/circular_buffer.c\<close>: the byte ring in shared memory. The header record has the fields of
  \<^verbatim>\<open>struct circular_buffer_header\<close>; an attached buffer is the address it is mapped at and its header.
  The index operations come first, then the memory behind the data pointers. Creation, attachment
  and removal are in \<open>Shm_Buffer\<close>.
\<close>

section \<open>Header and index arithmetic\<close>

record cb_header =
  r_idx :: size_t
  w_idx :: size_t
  capacity :: size_t
  private_size :: size_t
  page_mask :: u64
  flag :: u32
  cb_name :: cstring

definition sizeof_header :: size_t where
  "sizeof_header = 256"

definition readable_size :: "cb_header \<Rightarrow> size_t" where
  "readable_size cb = w_idx cb - r_idx cb"

definition writable_size :: "cb_header \<Rightarrow> size_t" where
  "writable_size cb = capacity cb - readable_size cb"

definition aligned_header_size :: "size_t \<Rightarrow> u64 \<Rightarrow> size_t" where
  "aligned_header_size psize pmask = (sizeof_header + psize + pmask) AND NOT pmask"

definition buffer_start :: "u64 \<Rightarrow> cb_header \<Rightarrow> u64" where
  "buffer_start base cb = base + aligned_header_size (private_size cb) (page_mask cb)"

definition buffer_pos :: "u64 \<Rightarrow> cb_header \<Rightarrow> size_t \<Rightarrow> u64" where
  "buffer_pos base cb pos = buffer_start base cb + (pos AND (capacity cb - 1))"

section \<open>Pieces and index moves\<close>

record buffer_piece =
  piece_data :: u64
  piece_size :: size_t

definition circular_buffer_get_private_data :: "u64 \<Rightarrow> u64" where
  "circular_buffer_get_private_data base = base + sizeof_header"

definition circular_buffer_get_writable :: "u64 \<Rightarrow> cb_header \<Rightarrow> buffer_piece" where
  "circular_buffer_get_writable base cb =
     \<lparr>piece_data = buffer_pos base cb (w_idx cb), piece_size = writable_size cb\<rparr>"

definition circular_buffer_get_readable :: "u64 \<Rightarrow> cb_header \<Rightarrow> buffer_piece" where
  "circular_buffer_get_readable base cb =
     \<lparr>piece_data = buffer_pos base cb (r_idx cb), piece_size = readable_size cb\<rparr>"

definition circular_buffer_pop_data :: "cb_header \<Rightarrow> size_t \<Rightarrow> size_t \<times> cb_header" where
  "circular_buffer_pop_data cb n =
     (let tmp = readable_size cb; n = (if n > tmp then tmp else n)
      in (n, cb\<lparr>r_idx := r_idx cb + n\<rparr>))"

definition circular_buffer_push_data :: "cb_header \<Rightarrow> size_t \<Rightarrow> size_t \<times> cb_header" where
  "circular_buffer_push_data cb n =
     (let tmp = writable_size cb; n = (if n > tmp then tmp else n)
      in (n, cb\<lparr>w_idx := w_idx cb + n\<rparr>))"

section \<open>Well-formed headers\<close>

text \<open>
  The index part of the invariant: no more bytes are stored than the capacity. It is kept for any
  capacity; the cells of the ring are addressed rightly only for a power of two (\<open>ring_ok\<close> below).
\<close>

definition cb_ok :: "cb_header \<Rightarrow> bool" where
  "cb_ok cb \<longleftrightarrow> readable_size cb \<le> capacity cb"

lemma unat_writable_size:
  "cb_ok cb \<Longrightarrow> unat (writable_size cb) = unat (capacity cb) - unat (readable_size cb)"
  by (simp add: cb_ok_def writable_size_def unat_sub)

lemma pop_data_simps [simp]:
  "fst (circular_buffer_pop_data cb n) = min n (readable_size cb)"
  "snd (circular_buffer_pop_data cb n) = cb\<lparr>r_idx := r_idx cb + min n (readable_size cb)\<rparr>"
  by (auto simp: circular_buffer_pop_data_def Let_def min_def)

lemma push_data_simps [simp]:
  "fst (circular_buffer_push_data cb n) = min n (writable_size cb)"
  "snd (circular_buffer_push_data cb n) = cb\<lparr>w_idx := w_idx cb + min n (writable_size cb)\<rparr>"
  by (auto simp: circular_buffer_push_data_def Let_def min_def)

lemma min_le_word: "min (a :: size_t) b \<le> a" "min (a :: size_t) b \<le> b"
  by simp_all

lemma readable_size_pop:
  "unat (readable_size (snd (circular_buffer_pop_data cb n)))
     = unat (readable_size cb) - unat (min n (readable_size cb))"
proof -
  have "readable_size (snd (circular_buffer_pop_data cb n)) = readable_size cb - min n (readable_size cb)"
    by (simp add: readable_size_def)
  then show ?thesis
    by (simp add: unat_sub)
qed

lemma readable_size_push:
  assumes "cb_ok cb"
  shows "unat (readable_size (snd (circular_buffer_push_data cb n)))
     = unat (readable_size cb) + unat (min n (writable_size cb))"
proof -
  let ?n = "min n (writable_size cb)"
  have "unat ?n \<le> unat (writable_size cb)"
    by (simp flip: word_le_nat_alt)
  then have "unat (readable_size cb) + unat ?n \<le> unat (capacity cb)"
    using assms unat_writable_size [OF assms] by (simp add: cb_ok_def word_le_nat_alt)
  then have "unat (readable_size cb) + unat ?n < 2 ^ 64"
    using unat_less_2p64 [of "capacity cb"] by linarith
  then have "unat (readable_size cb + ?n) = unat (readable_size cb) + unat ?n"
    by (simp add: unat_word_ariths)
  then show ?thesis
    by (simp add: readable_size_def algebra_simps)
qed

lemma cb_ok_pop: "cb_ok cb \<Longrightarrow> cb_ok (snd (circular_buffer_pop_data cb n))"
  using readable_size_pop [of cb n] by (simp add: cb_ok_def word_le_nat_alt)

lemma cb_ok_push:
  assumes "cb_ok cb"
  shows "cb_ok (snd (circular_buffer_push_data cb n))"
proof -
  have "unat (min n (writable_size cb)) \<le> unat (writable_size cb)"
    by (simp flip: word_le_nat_alt)
  then show ?thesis
    using readable_size_push [OF assms, of n] assms unat_writable_size [OF assms]
    by (simp add: cb_ok_def word_le_nat_alt)
qed

section \<open>The cells behind the data pointers\<close>

text \<open>
  \<open>rb_cells\<close> is the data area of the shared object. The library maps it twice in a row
  (proved in \<open>Shm_Buffer\<close>), so the byte at \<open>buffer_start + i\<close> for \<open>i\<close> below twice the
  capacity is cell \<open>i\<close> modulo the capacity: a store or load of a piece is a ring write or read from
  the offset of its pointer.
\<close>

record ring_buffer =
  rb_hdr :: cb_header
  rb_cells :: "u8 list"

definition offset_of :: "u64 \<Rightarrow> cb_header \<Rightarrow> u64 \<Rightarrow> nat" where
  "offset_of base cb p = unat (p - buffer_start base cb)"

definition store_bytes :: "u64 \<Rightarrow> ring_buffer \<Rightarrow> u64 \<Rightarrow> u8 list \<Rightarrow> ring_buffer" where
  "store_bytes base rb p bs =
     rb\<lparr>rb_cells := ring_write (rb_cells rb) (offset_of base (rb_hdr rb) p) bs\<rparr>"

definition load_bytes :: "u64 \<Rightarrow> ring_buffer \<Rightarrow> u64 \<Rightarrow> nat \<Rightarrow> u8 list" where
  "load_bytes base rb p n = ring_read (rb_cells rb) (offset_of base (rb_hdr rb) p) n"

text \<open>One use of the buffer by each side: fill the writable piece and push, view the readable piece,
  pop.\<close>

definition rb_room :: "ring_buffer \<Rightarrow> nat" where
  "rb_room rb = unat (writable_size (rb_hdr rb))"

definition rb_put :: "u64 \<Rightarrow> ring_buffer \<Rightarrow> u8 list \<Rightarrow> ring_buffer" where
  "rb_put base rb bs =
     (let piece = circular_buffer_get_writable base (rb_hdr rb);
          rb = store_bytes base rb (piece_data piece) bs
      in rb\<lparr>rb_hdr := snd (circular_buffer_push_data (rb_hdr rb) (of_nat (length bs)))\<rparr>)"

definition rb_view :: "u64 \<Rightarrow> ring_buffer \<Rightarrow> u8 list" where
  "rb_view base rb =
     (let piece = circular_buffer_get_readable base (rb_hdr rb)
      in load_bytes base rb (piece_data piece) (unat (piece_size piece)))"

definition rb_pop :: "ring_buffer \<Rightarrow> size_t \<Rightarrow> ring_buffer" where
  "rb_pop rb n = rb\<lparr>rb_hdr := snd (circular_buffer_pop_data (rb_hdr rb) n)\<rparr>"

definition ring_ok :: "ring_buffer \<Rightarrow> bool" where
  "ring_ok rb \<longleftrightarrow> cb_ok (rb_hdr rb) \<and> pow2 (capacity (rb_hdr rb))
     \<and> length (rb_cells rb) = unat (capacity (rb_hdr rb))"

definition rb_stored :: "ring_buffer \<Rightarrow> u8 list" where
  "rb_stored rb = ring_read (rb_cells rb) (unat (r_idx (rb_hdr rb))) (unat (readable_size (rb_hdr rb)))"

lemma offset_of_pos:
  "pow2 (capacity cb) \<Longrightarrow> offset_of base cb (buffer_pos base cb pos) = unat pos mod unat (capacity cb)"
  by (simp add: offset_of_def buffer_pos_def and_mask_mod)

lemma length_rb_stored [simp]: "length (rb_stored rb) = unat (readable_size (rb_hdr rb))"
  by (simp add: rb_stored_def)

lemma rb_view_stored: "ring_ok rb \<Longrightarrow> rb_view base rb = rb_stored rb"
  by (simp add: rb_view_def rb_stored_def load_bytes_def circular_buffer_get_readable_def
      ring_ok_def offset_of_pos) (rule ring_read_mod, simp)

lemma of_nat_room:
  assumes "length bs \<le> rb_room rb"
  shows "unat (of_nat (length bs) :: size_t) = length bs"
    "min (of_nat (length bs)) (writable_size (rb_hdr rb)) = of_nat (length bs)"
proof -
  show n: "unat (of_nat (length bs) :: size_t) = length bs"
    using assms unat_less_2p64 [of "writable_size (rb_hdr rb)"]
    unfolding unat_of_nat64 rb_room_def by (intro mod_less) linarith
  show "min (of_nat (length bs)) (writable_size (rb_hdr rb)) = of_nat (length bs)"
    using assms n by (simp add: min_def word_le_nat_alt rb_room_def)
qed

text \<open>Putting appends, and keeps the ring well-formed.\<close>

lemma rb_put_eq:
  assumes "ring_ok rb" "length bs \<le> rb_room rb"
  shows "rb_put base rb bs =
    \<lparr>rb_hdr = (rb_hdr rb)\<lparr>w_idx := w_idx (rb_hdr rb) + of_nat (length bs)\<rparr>,
     rb_cells = ring_write (rb_cells rb)
       (unat (r_idx (rb_hdr rb)) + unat (readable_size (rb_hdr rb))) bs\<rparr>"
proof -
  have "unat (w_idx (rb_hdr rb)) mod unat (capacity (rb_hdr rb)) mod length (rb_cells rb)
      = (unat (r_idx (rb_hdr rb)) + unat (readable_size (rb_hdr rb))) mod length (rb_cells rb)"
    using assms(1) by (simp add: ring_ok_def index_mod_add) (simp add: readable_size_def)
  then have "ring_write (rb_cells rb) (unat (w_idx (rb_hdr rb)) mod unat (capacity (rb_hdr rb))) bs
      = ring_write (rb_cells rb) (unat (r_idx (rb_hdr rb)) + unat (readable_size (rb_hdr rb))) bs"
    by (rule ring_write_mod)
  then show ?thesis
    using assms of_nat_room [OF assms(2)]
    by (simp add: rb_put_def store_bytes_def circular_buffer_get_writable_def ring_ok_def offset_of_pos)
qed

lemma rb_put_readable:
  assumes "ring_ok rb" "length bs \<le> rb_room rb"
  shows "unat (readable_size (rb_hdr (rb_put base rb bs)))
    = unat (readable_size (rb_hdr rb)) + length bs"
  using assms readable_size_push [of "rb_hdr rb" "of_nat (length bs)"] of_nat_room [OF assms(2)]
  by (simp add: rb_put_eq ring_ok_def)

lemma ring_ok_put:
  assumes "ring_ok rb" "length bs \<le> rb_room rb"
  shows "ring_ok (rb_put base rb bs)"
  using assms cb_ok_push [of "rb_hdr rb" "of_nat (length bs)"] of_nat_room [OF assms(2)]
  by (simp add: rb_put_eq ring_ok_def)

lemma rb_stored_put:
  assumes "ring_ok rb" "length bs \<le> rb_room rb"
  shows "rb_stored (rb_put base rb bs) = rb_stored rb @ bs"
proof -
  have "unat (readable_size (rb_hdr rb)) + length bs \<le> length (rb_cells rb)"
    using assms unat_writable_size [of "rb_hdr rb"]
    by (auto simp: ring_ok_def rb_room_def cb_ok_def word_le_nat_alt)
  then show ?thesis
    using rb_put_readable [OF assms] unfolding rb_stored_def
    by (simp add: rb_put_eq [OF assms] ring_read_write)
qed

lemma rb_room_put:
  assumes "ring_ok rb" "length bs \<le> rb_room rb"
  shows "rb_room (rb_put base rb bs) = rb_room rb - length bs"
proof -
  have "cb_ok (rb_hdr (rb_put base rb bs))" "cb_ok (rb_hdr rb)"
    using ring_ok_put [OF assms, of base] assms(1) by (simp_all add: ring_ok_def)
  moreover have "capacity (rb_hdr (rb_put base rb bs)) = capacity (rb_hdr rb)"
    by (simp add: rb_put_eq [OF assms])
  ultimately show ?thesis
    using rb_put_readable [OF assms, of base] by (simp add: rb_room_def unat_writable_size)
qed

text \<open>Popping drops a prefix.\<close>

lemma unat_min_size: "unat (min (a :: size_t) b) = min (unat a) (unat b)"
  by (simp add: min_def word_le_nat_alt)

lemma rb_pop_simps [simp]:
  "rb_cells (rb_pop rb n) = rb_cells rb"
  "capacity (rb_hdr (rb_pop rb n)) = capacity (rb_hdr rb)"
  by (simp_all add: rb_pop_def)

lemma rb_pop_readable:
  "unat (readable_size (rb_hdr (rb_pop rb n)))
    = unat (readable_size (rb_hdr rb)) - min (unat n) (unat (readable_size (rb_hdr rb)))"
  using readable_size_pop [of "rb_hdr rb" n] by (simp add: rb_pop_def unat_min_size)

lemma ring_ok_pop: "ring_ok rb \<Longrightarrow> ring_ok (rb_pop rb n)"
  using cb_ok_pop [of "rb_hdr rb" n] by (simp add: ring_ok_def) (simp add: rb_pop_def)

lemma rb_stored_pop:
  assumes "ring_ok rb"
  shows "rb_stored (rb_pop rb n) = drop (unat n) (rb_stored rb)"
proof -
  let ?m = "min n (readable_size (rb_hdr rb))"
  have "unat (r_idx (rb_hdr rb) + ?m) mod length (rb_cells rb)
      = (unat (r_idx (rb_hdr rb)) + unat ?m) mod length (rb_cells rb)"
    using assms by (simp add: ring_ok_def index_mod_add)
  then have "ring_read (rb_cells rb) (unat (r_idx (rb_hdr rb) + ?m)) k
      = ring_read (rb_cells rb) (unat (r_idx (rb_hdr rb)) + unat ?m) k" for k
    by (rule ring_read_mod)
  moreover have "rb_stored (rb_pop rb n) = ring_read (rb_cells rb) (unat (r_idx (rb_hdr rb) + ?m))
      (unat (readable_size (rb_hdr rb)) - unat ?m)"
    unfolding rb_stored_def rb_pop_readable by (simp add: rb_pop_def unat_min_size)
  ultimately have "rb_stored (rb_pop rb n) = drop (unat ?m) (rb_stored rb)"
    by (simp only: rb_stored_def drop_ring_read)
  also have "\<dots> = drop (unat n) (rb_stored rb)"
    by (cases "unat n \<le> length (rb_stored rb)") (simp_all add: unat_min_size)
  finally show ?thesis .
qed

lemma rb_room_pop:
  assumes "ring_ok rb"
  shows "rb_room (rb_pop rb n) = rb_room rb + min (unat n) (length (rb_stored rb))"
proof -
  have "cb_ok (rb_hdr (rb_pop rb n))" "cb_ok (rb_hdr rb)"
    using ring_ok_pop [OF assms] assms by (simp_all add: ring_ok_def)
  moreover have "unat (readable_size (rb_hdr rb)) \<le> unat (capacity (rb_hdr rb))"
    using assms by (simp add: ring_ok_def cb_ok_def word_le_nat_alt)
  ultimately show ?thesis
    by (simp add: rb_room_def unat_writable_size rb_pop_readable)
qed

interpretation cb: byte_ring ring_ok rb_stored rb_room "rb_put base" "rb_view base" rb_pop for base
  by unfold_locales
    (simp_all only: ring_ok_put ring_ok_pop rb_stored_put rb_stored_pop rb_view_stored rb_room_put rb_room_pop)

section \<open>Properties of the ring\<close>

definition cb_step :: "u64 \<Rightarrow> ring_buffer ring_log \<Rightarrow> ring_event \<Rightarrow> ring_buffer ring_log" where
  "cb_step base = ring_step rb_room (rb_put base) (rb_view base) rb_pop"

text \<open>C1: with a capacity that is a power of two the buffer is a lossless byte queue: however fills and
  drains alternate, and across the wrap-around of the 64-bit indices and of the ring, the bytes
  accepted so far are the bytes delivered so far followed by the bytes still stored.\<close>

theorem circular_buffer_fifo:
  assumes "ring_ok rb"
  shows "accepted (run (cb_step base) \<lparr>ring_state = rb, accepted = rb_stored rb, delivered = []\<rparr> es)
    = delivered (run (cb_step base) \<lparr>ring_state = rb, accepted = rb_stored rb, delivered = []\<rparr> es)
      @ rb_stored (ring_state
          (run (cb_step base) \<lparr>ring_state = rb, accepted = rb_stored rb, delivered = []\<rparr> es))"
  unfolding cb_step_def by (rule cb.flight.run_ok [THEN conjunct2]) (simp add: assms)

definition small_ring :: ring_buffer where
  "small_ring = \<lparr>rb_hdr = \<lparr>r_idx = -3, w_idx = -3, capacity = 4, private_size = 0,
     page_mask = 4095, flag = 0, cb_name = []\<rparr>, rb_cells = [0, 0, 0, 0]\<rparr>"

lemma small_ring_ok: "ring_ok small_ring"
proof -
  have "pow2 4"
    unfolding pow2_def by (rule exI [of _ 2]) simp
  then show ?thesis
    by (simp add: ring_ok_def small_ring_def cb_ok_def readable_size_def)
qed

theorem circular_buffer_fifo_witness:
  "(let l = run (cb_step 0) \<lparr>ring_state = small_ring, accepted = rb_stored small_ring, delivered = []\<rparr>
      [Fill [1, 2, 3], Drain 2, Fill [4, 5, 6]]
    in accepted l = delivered l @ rb_stored (ring_state l))"
  unfolding Let_def by (rule circular_buffer_fifo [OF small_ring_ok])

text \<open>
  The data pointer of a position is formed with \<^verbatim>\<open>pos & (capacity - 1)\<close>, but creation rounds the
  capacity to a multiple of the page size only.
\<close>

lemma clear_bit_below:
  assumes "0 < n" "\<nexists>k. n = (2 :: nat) ^ k"
  obtains j where "2 ^ j < n" "\<not> bit (n - 1) j"
proof -
  obtain m where m: "2 ^ m \<le> n" "n < 2 ^ (m + 1)"
    using ex_power_ivl1 [of 2 n] assms(1) by auto
  then have "2 ^ m < n"
    using assms(2) by (metis le_neq_implies_less)
  have "\<exists>j \<le> m. \<not> bit (n - 1) j"
  proof (rule ccontr)
    assume "\<not> (\<exists>j \<le> m. \<not> bit (n - 1) j)"
    then have "take_bit (m + 1) (n - 1) = mask (m + 1)"
      by (intro bit_eqI) (auto simp: bit_simps)
    moreover have "take_bit (m + 1) (n - 1) = n - 1"
      using m(2) by (intro take_bit_nat_eq_self) linarith
    ultimately have "n - 1 = 2 ^ (m + 1) - 1"
      by (simp add: mask_eq_exp_minus_1)
    then have "n = 2 ^ (m + 1)"
      using assms(1) zero_less_power [of "2 :: nat" "m + 1"] by linarith
    then show False
      using m(2) by simp
  qed
  then obtain j where j: "j \<le> m" "\<not> bit (n - 1) j"
    by blast
  then have "(2 :: nat) ^ j \<le> 2 ^ m"
    by (simp add: power_increasing)
  then have "2 ^ j < n"
    using \<open>2 ^ m < n\<close> by (rule le_less_trans)
  then show ?thesis
    using that j by blast
qed

lemma buffer_pos_collision:
  assumes "capacity cb \<noteq> 0" "\<not> pow2 (capacity cb)"
  obtains p where "p \<noteq> 0" "p < capacity cb" "buffer_pos base cb p = buffer_pos base cb 0"
proof -
  let ?c = "capacity cb"
  have "unat ?c \<noteq> 2 ^ k" for k
  proof
    assume eq: "unat ?c = 2 ^ k"
    then have "(2 :: nat) ^ k < 2 ^ 64"
      using unat_less_2p64 [of ?c] by simp
    then have "k < 64"
      by (rule power_less_imp_less_exp [rotated]) simp
    then have "unat ?c = unat (2 ^ k :: size_t)"
      using eq by (simp add: unat_pow2)
    then have "?c = 2 ^ k"
      by (rule unsigned_word_eqI)
    then show False
      using assms(2) \<open>k < 64\<close> by (simp add: pow2I)
  qed
  moreover have "0 < unat ?c"
    using assms(1) by (simp add: unat_gt_0)
  ultimately obtain j where j: "2 ^ j < unat ?c" "\<not> bit (unat ?c - 1) j"
    using clear_bit_below by blast
  have "(2 :: nat) ^ j < 2 ^ 64"
    using j(1) unat_less_2p64 [of ?c] by linarith
  then have "j < 64"
    by (rule power_less_imp_less_exp [rotated]) simp
  have "unat (?c - 1) = unat ?c - 1"
    using assms(1) by (simp add: unat_minus_one)
  then have "\<not> bit (unat (?c - 1)) j"
    using j(2) by simp
  then have clear: "\<not> bit (?c - 1) j"
    by (auto simp: bit_unsigned_iff)
  have "(2 ^ j :: size_t) AND (?c - 1) = 0"
    using clear by (intro bit_eqI) (auto simp: bit_simps)
  moreover have "(2 ^ j :: size_t) < ?c" "(2 ^ j :: size_t) \<noteq> 0"
    using j(1) \<open>j < 64\<close> by (auto simp: word_less_nat_alt unat_pow2 dest: arg_cong [of _ _ unat])
  ultimately show ?thesis
    using that [of "2 ^ j"] by (simp add: buffer_pos_def)
qed

text \<open>C37: distinct positions below the capacity have distinct data pointers exactly when the capacity
  is a power of two.\<close>

theorem buffer_pos_injective_iff:
  assumes "capacity cb \<noteq> 0"
  shows "inj_on (buffer_pos base cb) {p. p < capacity cb} \<longleftrightarrow> pow2 (capacity cb)"
proof
  assume inj: "inj_on (buffer_pos base cb) {p. p < capacity cb}"
  show "pow2 (capacity cb)"
  proof (rule ccontr)
    assume "\<not> pow2 (capacity cb)"
    then obtain p where "p \<noteq> 0" "p < capacity cb" "buffer_pos base cb p = buffer_pos base cb 0"
      using buffer_pos_collision assms by blast
    moreover have "0 < capacity cb"
      using assms by (simp add: word_gt_0)
    ultimately show False
      using inj by (auto dest: inj_onD)
  qed
next
  assume pow2: "pow2 (capacity cb)"
  show "inj_on (buffer_pos base cb) {p. p < capacity cb}"
  proof (rule inj_onI)
    fix p q
    assume less: "p \<in> {p. p < capacity cb}" "q \<in> {p. p < capacity cb}"
      and eq: "buffer_pos base cb p = buffer_pos base cb q"
    have "unat p mod unat (capacity cb) = unat q mod unat (capacity cb)"
      using arg_cong [OF eq, of "offset_of base cb"] by (simp add: offset_of_pos pow2)
    then have "unat p = unat q"
      using less by (simp add: word_less_nat_alt)
    then show "p = q"
      by (rule unsigned_word_eqI)
  qed
qed

theorem buffer_pos_injective_iff_witness:
  "\<not> inj_on (buffer_pos 0 ((rb_hdr small_ring)\<lparr>capacity := 12288\<rparr>)) {p. p < 12288}
   \<and> inj_on (buffer_pos 0 (rb_hdr small_ring)) {p. p < 4}"
proof -
  have "\<not> pow2 12288" "pow2 4"
    by (simp_all only: pow2_code) code_simp+
  then show ?thesis
    using buffer_pos_injective_iff [of "(rb_hdr small_ring)\<lparr>capacity := 12288\<rparr>" 0]
      buffer_pos_injective_iff [of "rb_hdr small_ring" 0]
    by (simp add: small_ring_def)
qed

end
