(* ===== verification/Shm_Buffer.thy ===== *)
theory Shm_Buffer
  imports Circular_Buffer
begin

text \<open>
  The life cycle of a circular buffer (\<^verbatim>\<open>src/circular_buffer.c\<close>): the double mapping of the shared
  object, creation, attachment by another process, detaching and removal. \<open>page\<close> is what
  \<^verbatim>\<open>sysconf(_SC_PAGESIZE)\<close> returns. A returned buffer is its mapping address with its header.
\<close>

section \<open>Mapping the object twice\<close>

definition map_error :: "os \<Rightarrow> u64 \<Rightarrow> u64 \<Rightarrow> trace \<Rightarrow> u64 option res \<times> trace" where
  "map_error os addr len tr =
     (if addr \<noteq> map_failed then (Inr None, snd (syscall os (Munmap addr len) tr)) else (Inr None, tr))"

definition map_shared_memory ::
    "os \<Rightarrow> u64 \<Rightarrow> int \<Rightarrow> size_t \<Rightarrow> size_t \<Rightarrow> trace \<Rightarrow> u64 option res \<times> trace" where
  "map_shared_memory os page shmfd head cap tr =
     (if \<not> head > 0 \<or> \<not> cap > 0 \<or> head AND (page - 1) \<noteq> 0 \<or> cap AND (page - 1) \<noteq> 0
      then (Inl Assertion, tr)
      else
        let total = cap + head;
            (r, tr) = syscall os (Mmap 0 (total + cap) (prot_read OR prot_write) (map_private OR map_anonymous) (-1) 0) tr;
            addr = ptr r
        in if addr = 0 then map_error os addr (total + cap) tr
           else
             let flags = map_shared OR map_fixed OR (if shmfd = -1 then map_anonymous else 0);
                 prot = prot_read OR prot_write;
                 (r, tr) = syscall os (Mmap addr total prot flags shmfd 0) tr
             in if ptr r \<noteq> addr then map_error os addr (total + cap) tr
                else
                  let (r, tr) = syscall os
                        (Mremap (addr + head) 0 cap (mremap_maymove OR mremap_fixed) (addr + total)) tr
                  in if ptr r \<noteq> addr + total then map_error os addr (total + cap) tr
                     else (Inr (Some addr), tr))"

text \<open>The calls it makes.\<close>

abbreviation reserve_call :: "size_t \<Rightarrow> call" where
  "reserve_call n \<equiv> Mmap 0 n (prot_read OR prot_write) (map_private OR map_anonymous) (-1) 0"

abbreviation share_call :: "u64 \<Rightarrow> size_t \<Rightarrow> int \<Rightarrow> call" where
  "share_call addr n fd \<equiv>
     Mmap addr n (prot_read OR prot_write) (map_shared OR map_fixed OR (if fd = -1 then map_anonymous else 0)) fd 0"

abbreviation mirror_call :: "u64 \<Rightarrow> size_t \<Rightarrow> u64 \<Rightarrow> call" where
  "mirror_call old n new \<equiv> Mremap old 0 n (mremap_maymove OR mremap_fixed) new"

section \<open>Creation\<close>

definition circular_buffer_fcreate ::
    "os \<Rightarrow> u64 \<Rightarrow> int \<Rightarrow> size_t \<Rightarrow> size_t \<Rightarrow> u32 \<Rightarrow> trace \<Rightarrow> (u64 \<times> cb_header) option res \<times> trace" where
  "circular_buffer_fcreate os page shmfd cap psize flg tr =
     (let pmask = page - 1;
          cap = (cap + pmask) AND NOT pmask;
          head = aligned_header_size psize pmask;
          (failed, tr) = (if shmfd \<ge> 0
                          then let (r, tr) = syscall os (Ftruncate shmfd (cap + head)) tr in (rv r < 0, tr)
                          else (False, tr))
      in if failed then (Inr None, tr)
         else case map_shared_memory os page shmfd head cap tr of
           (Inl e, tr) \<Rightarrow> (Inl e, tr)
         | (Inr None, tr) \<Rightarrow> (Inr None, tr)
         | (Inr (Some addr), tr) \<Rightarrow>
             (Inr (Some (addr, \<lparr>r_idx = 0, w_idx = 0, capacity = cap, private_size = psize,
                page_mask = pmask, flag = flg, cb_name = []\<rparr>)), tr))"

text \<open>\<^verbatim>\<open>strcpy\<close> into the 64-byte name field: a name that does not fit with its terminator overruns it.\<close>

definition store_name :: "cstring \<Rightarrow> cb_header \<Rightarrow> cb_header res" where
  "store_name nm cb = (if length nm < 64 then Inr (cb\<lparr>cb_name := nm\<rparr>) else Inl Undefined)"

definition circular_buffer_create ::
    "os \<Rightarrow> u64 \<Rightarrow> cstring option \<Rightarrow> size_t \<Rightarrow> size_t \<Rightarrow> u32 \<Rightarrow> trace \<Rightarrow>
     (u64 \<times> cb_header) option res \<times> trace" where
  "circular_buffer_create os page name cap psize flg tr =
     (if \<not> cap > 0 then (Inl Assertion, tr)
      else
        let (shmfd, tr) = (case name of
              None \<Rightarrow> (-1, tr)
            | Some nm \<Rightarrow> let (r, tr) = syscall os (Shm_open nm True) tr in (rv r, tr))
        in if name \<noteq> None \<and> shmfd < 0 then (Inr None, tr)
           else case circular_buffer_fcreate os page shmfd cap psize flg tr of
             (Inl e, tr) \<Rightarrow> (Inl e, tr)
           | (Inr None, tr) \<Rightarrow> (Inr None, snd (syscall os (Close shmfd) tr))
           | (Inr (Some (addr, cb)), tr) \<Rightarrow>
               (case name of
                  None \<Rightarrow> (Inr (Some (addr, cb)), tr)
                | Some nm \<Rightarrow>
                    (case store_name nm cb of
                       Inl e \<Rightarrow> (Inl e, tr)
                     | Inr cb \<Rightarrow> (Inr (Some (addr, cb)), snd (syscall os (Close shmfd) tr)))))"

section \<open>Attachment\<close>

text \<open>The header as it lies in the shared object: each index on a cache line of its own, the name field
  at byte 156, 256 bytes in all.\<close>

definition bytes_at :: "nat \<Rightarrow> nat \<Rightarrow> u8 list \<Rightarrow> u8 list" where
  "bytes_at off n bs = take n (drop off bs)"

definition decode_header :: "u8 list \<Rightarrow> cb_header" where
  "decode_header bs =
     \<lparr>r_idx = le_word (bytes_at 0 8 bs), w_idx = le_word (bytes_at 64 8 bs),
      capacity = le_word (bytes_at 128 8 bs), private_size = le_word (bytes_at 136 8 bs),
      page_mask = le_word (bytes_at 144 8 bs), flag = ucast (le_word (bytes_at 152 4 bs)),
      cb_name = takeWhile (\<lambda>b. b \<noteq> 0) (bytes_at 156 64 bs)\<rparr>"

definition circular_buffer_fattach ::
    "os \<Rightarrow> u64 \<Rightarrow> int \<Rightarrow> trace \<Rightarrow> (u64 \<times> cb_header) option res \<times> trace" where
  "circular_buffer_fattach os page shmfd tr =
     (if \<not> shmfd \<ge> 0 then (Inl Assertion, tr)
      else
        let (r, tr) = syscall os (Read_fd shmfd 256) tr
        in if rv r = 256
           then
             let header = decode_header (bytes r);
                 (r, tr) = syscall os (Lseek_start shmfd) tr;
                 head = aligned_header_size (private_size header) (page_mask header)
             in (case map_shared_memory os page shmfd head (capacity header) tr of
                   (Inl e, tr) \<Rightarrow> (Inl e, tr)
                 | (Inr a, tr) \<Rightarrow> (Inr (map_option (\<lambda>addr. (addr, header)) a), tr))
           else (Inr None, tr))"

definition circular_buffer_attach ::
    "os \<Rightarrow> u64 \<Rightarrow> cstring option \<Rightarrow> trace \<Rightarrow> (u64 \<times> cb_header) option res \<times> trace" where
  "circular_buffer_attach os page name tr =
     (case name of
        None \<Rightarrow> (Inl Assertion, tr)
      | Some nm \<Rightarrow>
          let (r, tr) = syscall os (Shm_open nm False) tr; shmfd = rv r
          in if shmfd < 0 then (Inr None, tr)
             else case circular_buffer_fattach os page shmfd tr of
               (Inl e, tr) \<Rightarrow> (Inl e, tr)
             | (Inr h, tr) \<Rightarrow> (Inr h, snd (syscall os (Close shmfd) tr)))"

section \<open>Detaching and removal\<close>

definition mapped_size :: "cb_header \<Rightarrow> size_t" where
  "mapped_size cb = aligned_header_size (private_size cb) (page_mask cb) + capacity cb + capacity cb"

definition circular_buffer_detach :: "os \<Rightarrow> u64 \<times> cb_header \<Rightarrow> trace \<Rightarrow> trace" where
  "circular_buffer_detach os b tr = snd (syscall os (Munmap (fst b) (mapped_size (snd b))) tr)"

definition circular_buffer_destroy :: "os \<Rightarrow> u64 \<times> cb_header \<Rightarrow> trace \<Rightarrow> trace" where
  "circular_buffer_destroy os b tr =
     (let tr = (if cb_name (snd b) \<noteq> [] then snd (syscall os (Shm_unlink (cb_name (snd b))) tr) else tr)
      in snd (syscall os (Munmap (fst b) (mapped_size (snd b))) tr))"

section \<open>The double mapping\<close>

lemma map_error_None: "fst (map_error os addr len tr) = Inr None"
  by (simp add: map_error_def)

lemma map_shared_memory_Some:
  assumes "map_shared_memory os page shmfd head cap tr = (Inr (Some a), tr')"
  obtains r1 r2 r3 where
    "tr' = tr @ [(reserve_call (cap + head + cap), r1), (share_call a (cap + head) shmfd, r2),
       (mirror_call (a + head) cap (a + (cap + head)), r3)]"
    "ptr r1 = a" "ptr r2 = a" "ptr r3 = a + (cap + head)" "0 < cap" "0 < head" "a \<noteq> 0"
proof -
  have none: "(Inr None, t) \<noteq> (Inr (Some a), tr')" for t :: trace
    by simp
  show ?thesis
    using assms map_error_None
    by (auto simp: map_shared_memory_def syscall_eq Let_def map_error_def split: if_splits intro!: that)
qed

lemma unat_sub_wrap:
  assumes "x < (y :: size_t)"
  shows "unat (x - y) = 2 ^ 64 + unat x - unat y"
  using assms by (simp add: unat_sub_if_size word_less_nat_alt word_size)

lemma behind_range:
  assumes "i < cap" "2 * unat cap < 2 ^ 64"
  shows "\<not> i - cap < (cap :: size_t)"
  using assms unat_sub_wrap [OF assms(1)] by (simp add: word_less_nat_alt)

lemma mirror_ranges:
  assumes "unat head + 2 * unat cap < 2 ^ 64"
  shows "i < cap \<Longrightarrow> head + i < cap + head" "i < cap \<Longrightarrow> \<not> i - cap < (cap :: size_t)"
    "i < head \<Longrightarrow> i < cap + head" "i < head \<Longrightarrow> \<not> i - (cap + head) < cap"
proof -
  have sum: "unat (cap + head) = unat cap + unat head"
    using assms by (intro unat_add_lem [THEN iffD1]) simp
  show "head + i < cap + head" if "i < cap"
  proof -
    have "unat (head + i) = unat head + unat i"
      using that assms by (intro unat_add_lem [THEN iffD1]) (simp add: word_less_nat_alt)
    then show ?thesis
      using that by (simp add: word_less_nat_alt sum)
  qed
  show "\<not> i - cap < cap" if "i < cap"
    using behind_range [OF that] assms by simp
  show low: "i < cap + head" if "i < head"
    using that by (simp add: word_less_nat_alt sum)
  show "\<not> i - (cap + head) < cap" if "i < head"
    using unat_sub_wrap [OF low [OF that]] sum assms by (simp add: not_less word_le_nat_alt)
qed

text \<open>What the shared mapping of a descriptor shows: with -1 new shared memory, else the file behind it.\<close>

definition shared_object :: "trace \<Rightarrow> int \<Rightarrow> mobject" where
  "shared_object tr fd =
     (if fd = -1 then Shared_memory (Suc (maps_made (view_of tr))) else fd_file (view_of tr) fd)"

lemma fd_file_shareable: "fd_file (view_of tr) fd \<noteq> Private_memory k"
proof (induction tr arbitrary: fd rule: rev_induct)
  case (snoc e tr)
  obtain c r where "e = (c, r)"
    by (cases e)
  then show ?case
    using snoc by (cases c) (auto simp: view_of_append split: mobject.splits)
qed (simp add: view_of_def no_view_def)

lemma shared_object_shareable: "shared_object tr fd \<noteq> Private_memory k"
  by (simp add: shared_object_def fd_file_shareable)

lemma shared_view:
  "view_step v (reserve_call n, r) = (if ptr r = map_failed then v else
     v\<lparr>maps_made := Suc (maps_made v), mapped := (\<lambda>a. if in_range (ptr r) n a
       then Some (Private_memory (maps_made v), a - ptr r) else mapped v a)\<rparr>)"
  "view_step v (share_call addr n fd, r) = (if ptr r = map_failed then v else
     v\<lparr>maps_made := Suc (maps_made v), mapped := (\<lambda>a. if in_range (ptr r) n a
       then Some (if fd = -1 then Shared_memory (maps_made v) else fd_file v fd, a - ptr r) else mapped v a)\<rparr>)"
  "view_step v (mirror_call old n new, r) = (if ptr r = map_failed then v else
     v\<lparr>maps_made := Suc (maps_made v), mapped := (\<lambda>a. if in_range (ptr r) n a
       then (case mapped v (old + (a - ptr r)) of
               Some (Private_memory k, off) \<Rightarrow> Some (Private_memory (maps_made v), a - ptr r)
             | x \<Rightarrow> x)
       else mapped v a)\<rparr>)"
proof -
  have mirror: "(case mapped v (old + (a - ptr r)) of
        Some (Private_memory k, off) \<Rightarrow> if (0 :: u64) = 0 then Some (Private_memory m, x) else Some (Private_memory k, off) | y \<Rightarrow> y)
      = (case mapped v (old + (a - ptr r)) of Some (Private_memory k, off) \<Rightarrow> Some (Private_memory m, x) | y \<Rightarrow> y)" for a m x
    by (simp split: option.split prod.split mobject.split)
  show "view_step v (mirror_call old n new, r) = (if ptr r = map_failed then v else
     v\<lparr>maps_made := Suc (maps_made v), mapped := (\<lambda>a. if in_range (ptr r) n a
       then (case mapped v (old + (a - ptr r)) of
               Some (Private_memory k, off) \<Rightarrow> Some (Private_memory (maps_made v), a - ptr r)
             | x \<Rightarrow> x)
       else mapped v a)\<rparr>)"
    unfolding view_step.simps mirror by (simp add: in_range_def cong: if_cong)
qed (simp_all add: mmap_flags mmap_object_def cong: if_cong)

text \<open>What the three calls of a successful mapping do to the address space.\<close>

lemma double_mapping_vmap:
  assumes "map_shared_memory os page shmfd head cap tr = (Inr (Some a), tr')"
    and "unat a + unat head + 2 * unat cap < 2 ^ 64"
  defines "obj \<equiv> shared_object tr shmfd"
  shows "\<And>j. j < cap + head \<Longrightarrow> \<not> j - (cap + head) < cap \<Longrightarrow> vmap tr' (a + j) = Some (obj, j)"
    and "\<And>i. i < cap \<Longrightarrow> head + i < cap + head \<Longrightarrow> vmap tr' (a + (cap + head) + i) = Some (obj, head + i)"
proof -
  obtain r1 r2 r3 where tr': "tr' = tr @ [(reserve_call (cap + head + cap), r1),
      (share_call a (cap + head) shmfd, r2), (mirror_call (a + head) cap (a + (cap + head)), r3)]"
    and p: "ptr r1 = a" "ptr r2 = a" "ptr r3 = a + (cap + head)" and pos: "0 < cap" "0 < head"
    using map_shared_memory_Some [OF assms(1)] .
  have cap0: "0 < unat cap"
    using pos by (simp add: word_less_nat_alt)
  have sum: "unat (cap + head) = unat cap + unat head"
    using assms(2) by (intro unat_add_lem [THEN iffD1]) simp
  have sum3: "unat (a + (cap + head)) = unat a + (unat cap + unat head)"
    unfolding sum [symmetric] using assms(2) sum by (intro unat_add_lem [THEN iffD1]) simp
  have "unat a \<noteq> 2 ^ 64 - 1" "unat (a + (cap + head)) \<noteq> 2 ^ 64 - 1"
    unfolding sum3 using assms(2) cap0 by linarith+
  then have nf: "a \<noteq> map_failed" "a + (cap + head) \<noteq> map_failed"
    by (auto simp: map_failed_def unsigned_minus_1_eq_mask mask_eq_exp_minus_1)
  define v where "v = view_of tr"
  define m2 where "m2 = (\<lambda>x. if x - a < cap + head then Some (obj, x - a)
      else if x - a < cap + head + cap then Some (Private_memory (maps_made v), x - a) else mapped v x)"
  define w where "w = view_step (view_step v (reserve_call (cap + head + cap), r1)) (share_call a (cap + head) shmfd, r2)"
  have w: "mapped w = m2"
    unfolding w_def shared_view using nf p by (auto simp: m2_def in_range_def obj_def shared_object_def v_def fun_eq_iff)
  have "view_of tr' = view_step w (mirror_call (a + head) cap (a + (cap + head)), r3)"
    by (simp only: tr' view_of_append v_def w_def run.simps)
  then have vm: "vmap tr' x = (if x - (a + (cap + head)) < cap
      then (case m2 (a + head + (x - (a + (cap + head)))) of
              Some (Private_memory k, off) \<Rightarrow> Some (Private_memory (maps_made w), x - (a + (cap + head)))
            | y \<Rightarrow> y)
      else m2 x)" for x
    unfolding vmap_def shared_view(3) p(3) using nf(2) w by (simp add: in_range_def)
  show "vmap tr' (a + j) = Some (obj, j)" if "j < cap + head" "\<not> j - (cap + head) < cap" for j
    using that by (simp add: vm m2_def)
  show "vmap tr' (a + (cap + head) + i) = Some (obj, head + i)" if "i < cap" "head + i < cap + head" for i
    using that shared_object_shareable [of tr shmfd] by (simp add: vm m2_def obj_def add.assoc split: mobject.split)
qed

lemma double_mapping:
  assumes "map_shared_memory os page shmfd head cap tr = (Inr (Some a), tr')"
    and "unat a + unat head + 2 * unat cap < 2 ^ 64"
  shows "\<forall>i < head. vmap tr' (a + i) = Some (shared_object tr shmfd, i)"
    and "\<forall>i < cap. vmap tr' (a + head + i) = Some (shared_object tr shmfd, head + i)
         \<and> vmap tr' (a + head + cap + i) = Some (shared_object tr shmfd, head + i)"
proof -
  have wide: "unat head + 2 * unat cap < 2 ^ 64"
    using assms(2) by simp
  note low = double_mapping_vmap(1) [OF assms] and high = double_mapping_vmap(2) [OF assms]
  show "\<forall>i < head. vmap tr' (a + i) = Some (shared_object tr shmfd, i)"
    using low [OF mirror_ranges(3,4) [OF wide]] by blast
  have "vmap tr' (a + head + i) = Some (shared_object tr shmfd, head + i)" if "i < cap" for i
    using low [OF mirror_ranges(1) [OF wide that]] mirror_ranges(2) [OF wide that] by (simp add: add.assoc)
  moreover have "vmap tr' (a + head + cap + i) = Some (shared_object tr shmfd, head + i)" if "i < cap" for i
    using high [OF that mirror_ranges(1) [OF wide that]] by (simp add: algebra_simps)
  ultimately show "\<forall>i < cap. vmap tr' (a + head + i) = Some (shared_object tr shmfd, head + i)
         \<and> vmap tr' (a + head + cap + i) = Some (shared_object tr shmfd, head + i)"
    by blast
qed

text \<open>C16: after a successful double mapping the header area and the data area of one object lie at the
  returned address, and the data area appears a second time right behind itself, so that any piece
  of at most \<open>capacity\<close> bytes starting inside the ring is contiguous in memory. The object is the file
  behind the descriptor, or new shared memory when the descriptor is -1.\<close>

theorem map_shared_memory_mirror:
  assumes "map_shared_memory os page shmfd head cap tr = (Inr (Some a), tr')"
    and "unat a + unat head + 2 * unat cap < 2 ^ 64"
  shows "\<exists>obj. (\<forall>i < head. vmap tr' (a + i) = Some (obj, i))
    \<and> (\<forall>i < cap. vmap tr' (a + head + i) = Some (obj, head + i)
         \<and> vmap tr' (a + head + cap + i) = Some (obj, head + i))
    \<and> obj = (if shmfd = -1 then Shared_memory (Suc (maps_made (view_of tr))) else fd_file (view_of tr) shmfd)"
  using double_mapping [OF assms] unfolding shared_object_def by blast

definition grant_all :: os where
  "grant_all tr c = (case c of
      Mmap addr len prot flags fd off \<Rightarrow> \<lparr>rv = 0, err = 0, ptr = (if flags AND map_fixed \<noteq> 0 then addr else 65536), bytes = [], evs = [], ino = 0\<rparr>
    | Mremap old olen nlen flags new \<Rightarrow> \<lparr>rv = 0, err = 0, ptr = new, bytes = [], evs = [], ino = 0\<rparr>
    | Shm_open nm ex \<Rightarrow> \<lparr>rv = 3, err = 0, ptr = 0, bytes = [], evs = [], ino = 0\<rparr>
    | _ \<Rightarrow> \<lparr>rv = 0, err = 0, ptr = 0, bytes = [], evs = [], ino = 0\<rparr>)"

lemma map_shared_memory_grant_all:
  "\<exists>tr'. map_shared_memory grant_all 4096 (-1) 4096 8192 [] = (Inr (Some 65536), tr')"
  by (simp add: map_shared_memory_def syscall_eq grant_all_def mmap_flags Let_def)

theorem map_shared_memory_mirror_witness:
  "\<exists>tr' obj. map_shared_memory grant_all 4096 (-1) 4096 8192 [] = (Inr (Some 65536), tr')
    \<and> vmap tr' (65536 + 4096 + 7) = Some (obj, 4096 + 7)
    \<and> vmap tr' (65536 + 4096 + 8192 + 7) = Some (obj, 4096 + 7)"
proof -
  obtain tr' where m: "map_shared_memory grant_all 4096 (-1) 4096 8192 [] = (Inr (Some 65536), tr')"
    using map_shared_memory_grant_all by blast
  have "unat (65536 :: u64) + unat (4096 :: size_t) + 2 * unat (8192 :: size_t) < 2 ^ 64"
    by simp
  from map_shared_memory_mirror [OF m this] obtain obj where
    obj: "\<forall>i < 8192. vmap tr' (65536 + 4096 + i) = Some (obj, 4096 + i)
      \<and> vmap tr' (65536 + 4096 + 8192 + i) = Some (obj, 4096 + i)"
    by blast
  have "vmap tr' (65536 + 4096 + 7) = Some (obj, 4096 + 7)
      \<and> vmap tr' (65536 + 4096 + 8192 + 7) = Some (obj, 4096 + 7)"
    by (rule obj [rule_format]) simp
  then show ?thesis
    using m by blast
qed

section \<open>Created headers\<close>

lemma and_not_mask:
  assumes "pow2 c"
  shows "unat (x AND NOT (c - 1)) = unat x - unat x mod unat c"
proof -
  have "(x AND NOT (c - 1)) + (x AND (c - 1)) = (x AND NOT (c - 1)) OR (x AND (c - 1))"
    by (rule disjunctive_add) (auto simp: bit_simps)
  also have "\<dots> = x"
    by (rule bit_eqI) (auto simp: bit_simps)
  finally have "x AND NOT (c - 1) = x - (x AND (c - 1))"
    by (simp add: algebra_simps)
  moreover have "x AND (c - 1) \<le> x"
    unfolding word_le_nat_alt and_mask_mod [OF assms] by simp
  ultimately show ?thesis
    by (simp add: unat_sub and_mask_mod [OF assms])
qed

lemma round_up_page:
  assumes "pow2 page" "unat c + unat page \<le> 2 ^ 64"
  shows "unat page dvd unat ((c + (page - 1)) AND NOT (page - 1))"
    "c \<le> (c + (page - 1)) AND NOT (page - 1)"
    "unat ((c + (page - 1)) AND NOT (page - 1)) < unat c + unat page"
proof -
  have pos: "0 < unat page"
    by (rule pow2_pos [OF assms(1)])
  then have p1: "unat (page - 1) = unat page - 1"
    by (simp add: unat_minus_one unat_gt_0)
  have sum: "unat (c + (page - 1)) = unat c + (unat page - 1)"
    unfolding p1 [symmetric] using assms(2) pos p1 by (intro unat_add_lem [THEN iffD1]) simp
  have eq: "unat ((c + (page - 1)) AND NOT (page - 1))
      = (unat c + (unat page - 1)) - (unat c + (unat page - 1)) mod unat page"
    unfolding and_not_mask [OF assms(1)] sum ..
  show "unat page dvd unat ((c + (page - 1)) AND NOT (page - 1))"
    unfolding eq by (rule dvd_minus_mod)
  have "(unat c + (unat page - 1)) mod unat page < unat page"
    using pos by (rule mod_less_divisor)
  then show "c \<le> (c + (page - 1)) AND NOT (page - 1)"
    unfolding word_le_nat_alt eq using pos by linarith
  show "unat ((c + (page - 1)) AND NOT (page - 1)) < unat c + unat page"
    unfolding eq using pos by linarith
qed

lemma fcreate_Some:
  assumes "circular_buffer_fcreate os page shmfd cap psize flg tr = (Inr (Some (addr, cb)), tr')"
  shows "cb = \<lparr>r_idx = 0, w_idx = 0, capacity = (cap + (page - 1)) AND NOT (page - 1),
      private_size = psize, page_mask = page - 1, flag = flg, cb_name = []\<rparr>"
  using assms
  by (auto simp: circular_buffer_fcreate_def Let_def syscall_eq split: prod.splits sum.splits option.splits if_splits)

text \<open>A created buffer is empty and well-formed, and its capacity is the request rounded up to the
  next multiple of the page size.\<close>

theorem fcreate_header:
  assumes "circular_buffer_fcreate os page shmfd cap psize flg tr = (Inr (Some (addr, cb)), tr')"
    and "pow2 page" "unat cap + unat page \<le> 2 ^ 64"
  shows "cb_ok cb \<and> readable_size cb = 0 \<and> unat page dvd unat (capacity cb)
    \<and> cap \<le> capacity cb \<and> unat (capacity cb) < unat cap + unat page"
  using round_up_page [OF assms(2,3)]
  by (simp add: fcreate_Some [OF assms(1)] cb_ok_def readable_size_def)

lemma fcreate_grant_all:
  "\<exists>cb tr'. circular_buffer_fcreate grant_all 4096 (-1) 10000 0 0 [] = (Inr (Some (65536, cb)), tr')"
proof -
  have h: "aligned_header_size 0 4095 = 4096"
    by code_simp
  show ?thesis
    by (simp add: circular_buffer_fcreate_def h map_shared_memory_def syscall_eq grant_all_def mmap_flags Let_def)
qed

theorem fcreate_header_witness:
  "\<exists>cb tr'. circular_buffer_fcreate grant_all 4096 (-1) 10000 0 0 [] = (Inr (Some (65536, cb)), tr')
    \<and> 4096 dvd unat (capacity cb) \<and> 10000 \<le> capacity cb"
proof -
  obtain cb tr' where f: "circular_buffer_fcreate grant_all 4096 (-1) 10000 0 0 [] = (Inr (Some (65536, cb)), tr')"
    using fcreate_grant_all by blast
  have "pow2 4096"
    unfolding pow2_def by (rule exI [of _ 12]) simp
  then show ?thesis
    using fcreate_header [OF f] f by auto
qed

text \<open>A buffer created with three pages overlaps: once one page of data is stored, the writable
  piece starts at the same address as the readable piece, although both are non-empty, so the next
  write destroys unread data.\<close>

theorem fcreate_three_pages_overlap:
  assumes "circular_buffer_fcreate os 4096 shmfd 12288 psize flg tr = (Inr (Some (addr, cb)), tr')"
    and "cb' = snd (circular_buffer_push_data cb 4096)"
  shows "piece_data (circular_buffer_get_writable addr cb') = piece_data (circular_buffer_get_readable addr cb')
    \<and> piece_size (circular_buffer_get_readable addr cb') = 4096
    \<and> piece_size (circular_buffer_get_writable addr cb') = 8192"
proof -
  have cb': "w_idx cb' = 4096" "r_idx cb' = 0" "capacity cb' = 12288"
    by (simp_all add: assms(2) fcreate_Some [OF assms(1)] writable_size_def readable_size_def)
  show ?thesis
    by (simp add: circular_buffer_get_writable_def circular_buffer_get_readable_def buffer_pos_def
        writable_size_def readable_size_def cb')
qed

theorem fcreate_three_pages_overlap_witness:
  "\<exists>cb tr'. circular_buffer_fcreate grant_all 4096 (-1) 12288 0 0 [] = (Inr (Some (65536, cb)), tr')
    \<and> piece_data (circular_buffer_get_writable 65536 (snd (circular_buffer_push_data cb 4096)))
      = piece_data (circular_buffer_get_readable 65536 (snd (circular_buffer_push_data cb 4096)))"
proof -
  have h: "aligned_header_size 0 4095 = 4096"
    by code_simp
  have "\<exists>cb tr'. circular_buffer_fcreate grant_all 4096 (-1) 12288 0 0 [] = (Inr (Some (65536, cb)), tr')"
    by (simp add: circular_buffer_fcreate_def h map_shared_memory_def syscall_eq grant_all_def mmap_flags Let_def)
  then show ?thesis
    using fcreate_three_pages_overlap by blast
qed

section \<open>Descriptors\<close>

lemma held_map_error: "held (snd (map_error os addr len tr)) = held tr"
  by (simp add: map_error_def syscall_eq held_append)

lemma held_map_shared_memory: "held (snd (map_shared_memory os page shmfd head cap tr)) = held tr"
  by (simp add: map_shared_memory_def syscall_eq Let_def held_map_error held_append)

lemma held_fcreate: "held (snd (circular_buffer_fcreate os page shmfd cap psize flg tr)) = held tr"
proof -
  have m: "held t' = held t" if "map_shared_memory os page shmfd h c t = (r, t')" for h c t r t'
    using held_map_shared_memory [of os page shmfd h c t] that by simp
  show ?thesis
    by (auto simp: circular_buffer_fcreate_def syscall_eq Let_def held_append
        split: prod.splits sum.splits option.splits dest!: m)
qed

lemma held_fattach: "held (snd (circular_buffer_fattach os page shmfd tr)) = held tr"
proof -
  have m: "held t' = held t" if "map_shared_memory os page shmfd h c t = (r, t')" for h c t r t'
    using held_map_shared_memory [of os page shmfd h c t] that by simp
  show ?thesis
    by (auto simp: circular_buffer_fattach_def syscall_eq Let_def held_append
        split: prod.splits sum.splits dest!: m)
qed

text \<open>The buffer functions throw nothing: they fail by a null pointer, an assertion or an overrun.\<close>

lemma map_faults: "map_shared_memory os page fd h c tr \<noteq> (Inl Runtime_error, tr')"
  by (auto simp: map_shared_memory_def map_error_def Let_def split: prod.splits if_splits)

lemma fcreate_faults: "circular_buffer_fcreate os page fd c p flg tr \<noteq> (Inl Runtime_error, tr')"
  by (auto simp: circular_buffer_fcreate_def Let_def map_faults split: prod.splits sum.splits option.splits if_splits)

lemma circular_buffer_create_faults: "circular_buffer_create os page name c p flg tr \<noteq> (Inl Runtime_error, tr')"
  by (auto simp: circular_buffer_create_def Let_def fcreate_faults store_name_def
      split: prod.splits sum.splits option.splits if_splits)

lemma create_held:
  assumes "circular_buffer_create os page name cap psize flg tr = (Inr b, tr')"
  shows "held tr' = held tr"
proof -
  have m: "held t' = held t" if "circular_buffer_fcreate os page fd cap psize flg t = (r, t')" for fd t r t'
    using held_fcreate [of os page fd cap psize flg t] that by simp
  have neg: "- 1 \<notin># held t" for t
    using held_nonneg [of "-1" t] by auto
  have "case circular_buffer_create os page name cap psize flg tr of
      (Inr b, tr') \<Rightarrow> held tr' = held tr | (Inl e, tr') \<Rightarrow> True"
    by (auto simp: circular_buffer_create_def syscall_eq Let_def held_append neg
        split: prod.splits sum.splits option.splits dest!: m)
  then show ?thesis
    using assms by simp
qed

text \<open>Creating and attaching never leak the shared-memory descriptor: whenever \<open>create\<close> or
  \<open>attach\<close> returns, with a buffer or with a null pointer, the process holds the descriptors it held
  before.\<close>

theorem create_attach_no_fd_leak:
  "(case circular_buffer_create os page name cap psize flg tr of
      (Inr b, tr') \<Rightarrow> held tr' = held tr | (Inl e, tr') \<Rightarrow> True)
   \<and> (case circular_buffer_attach os page name tr of
      (Inr b, tr') \<Rightarrow> held tr' = held tr | (Inl e, tr') \<Rightarrow> True)"
proof
  show "case circular_buffer_create os page name cap psize flg tr of
      (Inr b, tr') \<Rightarrow> held tr' = held tr | (Inl e, tr') \<Rightarrow> True"
    using create_held [of os page name cap psize flg tr] by (auto split: prod.splits sum.splits)
next
  have m: "held t' = held t" if "circular_buffer_fattach os page fd t = (r, t')" for fd t r t'
    using held_fattach [of os page fd t] that by simp
  show "case circular_buffer_attach os page name tr of
      (Inr b, tr') \<Rightarrow> held tr' = held tr | (Inl e, tr') \<Rightarrow> True"
    by (auto simp: circular_buffer_attach_def syscall_eq Let_def held_append
        split: prod.splits sum.splits option.splits dest!: m)
qed

section \<open>Failed mappings and removal\<close>

lemma vmap_munmap: "in_range addr len a \<Longrightarrow> vmap (tr @ [(Munmap addr len, r)]) a = None"
  by (simp add: vmap_def view_of_append)

text \<open>When the double mapping fails after the address range was reserved, the whole range is
  unmapped again before the null pointer is returned.\<close>

theorem map_shared_memory_failure_unmaps:
  assumes "map_shared_memory os page shmfd head cap tr = (Inr None, tr')"
    and "addr = ptr (os tr (reserve_call (cap + head + cap)))"
    and "addr \<noteq> map_failed" "in_range addr (cap + head + cap) a"
  shows "vmap tr' a = None"
proof -
  have fail: "vmap t' a = None" if "map_error os x len t = (r, t')" "x = addr" "len = cap + head + cap"
    for x len t r t'
    using that assms(3,4) by (auto simp: map_error_def syscall_eq vmap_munmap)
  show ?thesis
    using assms(1) unfolding map_shared_memory_def
    by (auto simp: syscall_eq Let_def assms(2) split: if_splits elim!: fail)
qed

definition grant_first :: os where
  "grant_first tr c = (case c of
      Mmap addr len prot flags fd off \<Rightarrow>
        \<lparr>rv = 0, err = 0, ptr = (if flags AND map_fixed \<noteq> 0 then map_failed else 65536), bytes = [], evs = [], ino = 0\<rparr>
    | _ \<Rightarrow> \<lparr>rv = 0, err = 0, ptr = map_failed, bytes = [], evs = [], ino = 0\<rparr>)"

theorem map_shared_memory_failure_unmaps_witness:
  "\<exists>tr'. map_shared_memory grant_first 4096 3 4096 8192 [] = (Inr None, tr') \<and> vmap tr' 70000 = None"
proof -
  obtain tr' where m: "map_shared_memory grant_first 4096 3 4096 8192 [] = (Inr None, tr')"
    by (simp add: map_shared_memory_def syscall_eq grant_first_def mmap_flags Let_def map_error_def map_failed_def)
  moreover have "vmap tr' 70000 = None"
    by (rule map_shared_memory_failure_unmaps [OF m refl])
      (simp_all add: grant_first_def map_failed_def in_range_def mmap_flags)
  ultimately show ?thesis
    by blast
qed

text \<open>Detaching and destroying unmap everything the buffer mapped, both views of the data area
  included, and destroying also removes the name of a named buffer.\<close>

theorem detach_destroy_unmap:
  assumes "in_range (fst b) (mapped_size (snd b)) a"
  shows "vmap (circular_buffer_detach os b tr) a = None
    \<and> vmap (circular_buffer_destroy os b tr) a = None
    \<and> (Shm_unlink (cb_name (snd b)) \<in> fst ` set (drop (length tr) (circular_buffer_destroy os b tr))
       \<longleftrightarrow> cb_name (snd b) \<noteq> [])"
  using assms
  by (auto simp: circular_buffer_detach_def circular_buffer_destroy_def syscall_eq vmap_munmap Let_def)

theorem detach_destroy_unmap_witness:
  "vmap (circular_buffer_destroy grant_all (65536, rb_hdr small_ring) []) 65600 = None"
proof -
  have "in_range 65536 (mapped_size (rb_hdr small_ring)) 65600"
    by code_simp
  then show ?thesis
    using detach_destroy_unmap [of "(65536, rb_hdr small_ring)" 65600 grant_all "[]"] by simp
qed

section \<open>The header in the shared object\<close>

definition encode_header :: "cb_header \<Rightarrow> u8 list" where
  "encode_header cb =
     le_bytes 8 (r_idx cb) @ replicate 56 0 @ le_bytes 8 (w_idx cb) @ replicate 56 0 @
     le_bytes 8 (capacity cb) @ le_bytes 8 (private_size cb) @ le_bytes 8 (page_mask cb) @
     le_bytes 4 (ucast (flag cb)) @ cb_name cb @ replicate (64 - length (cb_name cb)) 0 @
     replicate 36 0"

lemma length_encode_header: "length (cb_name cb) < 64 \<Longrightarrow> length (encode_header cb) = 256"
  by (simp add: encode_header_def)

lemma bytes_at_append:
  "length xs = off \<Longrightarrow> length ys = n \<Longrightarrow> bytes_at off n (xs @ ys @ zs) = ys"
  by (simp add: bytes_at_def)

lemma name_bytes:
  "0 \<notin> set nm \<Longrightarrow> length nm < 64 \<Longrightarrow>
   takeWhile (\<lambda>b. b \<noteq> 0) (nm @ replicate (64 - length nm) (0 :: u8)) = nm"
  by (subst takeWhile_append2) (auto simp: takeWhile_replicate)

lemma flag_bytes: "ucast (take_bit 32 (ucast (w :: u32) :: u64)) = w"
  by (rule bit_eqI) (auto simp: bit_simps)

lemma decode_header_encode:
  assumes "length (cb_name cb) < 64" "0 \<notin> set (cb_name cb)"
  shows "decode_header (encode_header cb) = cb"
proof -
  let ?e = "encode_header cb" and ?nm = "cb_name cb @ replicate (64 - length (cb_name cb)) 0"
  have nm: "length ?nm = 64"
    using assms(1) by simp
  have "bytes_at 0 8 ?e = le_bytes 8 (r_idx cb)"
    using bytes_at_append [of "[]"] by (simp add: encode_header_def)
  moreover have "bytes_at 64 8 ?e = le_bytes 8 (w_idx cb)"
    by (simp add: encode_header_def bytes_at_def)
  moreover have "bytes_at 128 8 ?e = le_bytes 8 (capacity cb)"
    by (simp add: encode_header_def bytes_at_def)
  moreover have "bytes_at 136 8 ?e = le_bytes 8 (private_size cb)"
    by (simp add: encode_header_def bytes_at_def)
  moreover have "bytes_at 144 8 ?e = le_bytes 8 (page_mask cb)"
    by (simp add: encode_header_def bytes_at_def)
  moreover have "bytes_at 152 4 ?e = le_bytes 4 (ucast (flag cb))"
    by (simp add: encode_header_def bytes_at_def)
  moreover have "bytes_at 156 64 ?e = ?nm"
    using assms(1) by (simp add: encode_header_def bytes_at_def)
  ultimately show ?thesis
    by (intro cb_header.equality)
      (simp_all add: decode_header_def name_bytes assms flag_bytes le_word_le_bytes [of 4])
qed

text \<open>Attaching reads back the header the creator stored: if the object starts with the header
  \<open>cb\<close> and the mapping succeeds, the attached buffer has exactly that header, so both processes
  compute the same data pointers relative to their mapping.\<close>

theorem fattach_reads_header:
  assumes "rv (os tr (Read_fd shmfd 256)) = 256"
    and "bytes (os tr (Read_fd shmfd 256)) = encode_header cb"
    and "length (cb_name cb) < 64" "0 \<notin> set (cb_name cb)"
    and "circular_buffer_fattach os page shmfd tr = (Inr (Some (addr, cb')), tr')"
  shows "cb' = cb \<and> buffer_pos addr cb' pos - addr = buffer_pos base cb pos - base"
proof -
  have "cb' = cb"
    using assms decode_header_encode [OF assms(3,4)]
    by (auto simp: circular_buffer_fattach_def syscall_eq Let_def split: prod.splits sum.splits if_splits)
  then show ?thesis
    by (simp add: buffer_pos_def buffer_start_def)
qed

definition shared_header :: cb_header where
  "shared_header = \<lparr>r_idx = 0, w_idx = 5, capacity = 4096, private_size = 0, page_mask = 4095,
     flag = 0, cb_name = [47, 97]\<rparr>"

definition grant_read :: os where
  "grant_read tr c = (case c of
      Read_fd fd n \<Rightarrow> \<lparr>rv = 256, err = 0, ptr = 0, bytes = encode_header shared_header, evs = [], ino = 0\<rparr>
    | _ \<Rightarrow> grant_all tr c)"

theorem fattach_reads_header_witness:
  "\<exists>tr'. circular_buffer_fattach grant_read 4096 3 [] = (Inr (Some (65536, shared_header)), tr')"
proof -
  have h: "aligned_header_size 0 4095 = 4096"
    by code_simp
  have nm: "length (cb_name shared_header) < 64" "0 \<notin> set (cb_name shared_header)"
    by (simp_all add: shared_header_def)
  have "capacity shared_header = 4096" "private_size shared_header = 0" "page_mask shared_header = 4095"
    by (simp_all add: shared_header_def)
  then obtain cb' tr' where f: "circular_buffer_fattach grant_read 4096 3 [] = (Inr (Some (65536, cb')), tr')"
    by (simp add: circular_buffer_fattach_def decode_header_encode nm h map_shared_memory_def
        syscall_eq grant_read_def grant_all_def mmap_flags Let_def)
  have "cb' = shared_header"
    by (rule fattach_reads_header [OF _ _ nm f, THEN conjunct1]) (simp_all add: grant_read_def)
  then show ?thesis
    using f by blast
qed

end
