(* ===== verification/Shared_Ring.thy ===== *)
theory Shared_Ring
  imports Shm_Buffer
begin

text \<open>
  The byte ring of \<^verbatim>\<open>src/circular_buffer.c\<close> as two processes have it: each maps a shared-memory file at an
  address of its own, and reaches header and data only by loads and stores through that mapping. The
  other theories speak of a header record and a list of cells; this one shows that the bytes in the
  file are what they say, for the addresses the code computes and across the end of the data area,
  where an access runs on into the second copy of the mapping.

  Memory is that of the whole system: what a store changes depends on what the address space of the
  process says is behind the address. Two processes see each other's stores only where both have the
  same file behind the addresses they use; a mapping that is private or anonymous is memory of the
  process alone.
\<close>

section \<open>Loads and stores through a mapping\<close>

type_synonym object = "u64 \<Rightarrow> u8"

datatype place = In_file nat | In_process nat mobject

record memory =
  cells :: "place \<Rightarrow> object"
  file_len :: "nat \<Rightarrow> u64"

record process =
  pr_id :: nat
  pr_base :: u64
  pr_map :: vspace

text \<open>Where an address leads. Nothing is behind an address that is not mapped, or behind the end of a file.\<close>

definition locate :: "process \<Rightarrow> memory \<Rightarrow> u64 \<Rightarrow> (place \<times> u64) res" where
  "locate p M x =
     (case pr_map p x of
        None \<Rightarrow> Inl Undefined
      | Some (Shm_file i, off) \<Rightarrow> if off < file_len M i then Inr (In_file i, off) else Inl Undefined
      | Some (ob, off) \<Rightarrow> Inr (In_process (pr_id p) ob, off))"

definition put_cell :: "memory \<Rightarrow> place \<times> u64 \<Rightarrow> u8 \<Rightarrow> memory" where
  "put_cell M x b = M\<lparr>cells := (cells M)(fst x := (cells M (fst x))(snd x := b))\<rparr>"

fun mem_loads :: "process \<Rightarrow> memory \<Rightarrow> u64 \<Rightarrow> nat \<Rightarrow> u8 list res" where
  "mem_loads p M x 0 = Inr []"
| "mem_loads p M x (Suc n) =
     bind_res (locate p M x) (\<lambda>(pl, off). bind_res (mem_loads p M (x + 1) n) (\<lambda>bs. Inr (cells M pl off # bs)))"

fun mem_stores :: "process \<Rightarrow> memory \<Rightarrow> u64 \<Rightarrow> u8 list \<Rightarrow> memory res" where
  "mem_stores p M x [] = Inr M"
| "mem_stores p M x (b # bs) = bind_res (locate p M x) (\<lambda>y. mem_stores p (put_cell M y b) (x + 1) bs)"

section \<open>The operations on the mapped file\<close>

text \<open>The header fields are read and written where they lie: the read index at offset 0, the write index
  at 64.\<close>

definition shm_header :: "process \<Rightarrow> memory \<Rightarrow> cb_header res" where
  "shm_header p M = bind_res (mem_loads p M (pr_base p) 256) (\<lambda>bs. Inr (decode_header bs))"

definition shm_get_writable :: "process \<Rightarrow> memory \<Rightarrow> buffer_piece res" where
  "shm_get_writable p M = bind_res (shm_header p M) (\<lambda>cb. Inr (circular_buffer_get_writable (pr_base p) cb))"

definition shm_get_readable :: "process \<Rightarrow> memory \<Rightarrow> buffer_piece res" where
  "shm_get_readable p M = bind_res (shm_header p M) (\<lambda>cb. Inr (circular_buffer_get_readable (pr_base p) cb))"

definition shm_push_data :: "process \<Rightarrow> memory \<Rightarrow> size_t \<Rightarrow> (size_t \<times> memory) res" where
  "shm_push_data p M n =
     bind_res (shm_header p M) (\<lambda>cb.
       let (k, cb') = circular_buffer_push_data cb n
       in bind_res (mem_stores p M (pr_base p + 64) (le_bytes 8 (w_idx cb'))) (\<lambda>M. Inr (k, M)))"

definition shm_pop_data :: "process \<Rightarrow> memory \<Rightarrow> size_t \<Rightarrow> (size_t \<times> memory) res" where
  "shm_pop_data p M n =
     bind_res (shm_header p M) (\<lambda>cb.
       let (k, cb') = circular_buffer_pop_data cb n
       in bind_res (mem_stores p M (pr_base p) (le_bytes 8 (r_idx cb'))) (\<lambda>M. Inr (k, M)))"

text \<open>Process \<open>p\<close> fills the ring, process \<open>q\<close> drains it.\<close>

fun shm_step :: "process \<Rightarrow> process \<Rightarrow> memory ring_log \<Rightarrow> ring_event \<Rightarrow> memory ring_log res" where
  "shm_step p q l (Fill bs) =
     bind_res (shm_get_writable p (ring_state l)) (\<lambda>piece.
       let fit = take (unat (piece_size piece)) bs in
       bind_res (mem_stores p (ring_state l) (piece_data piece) fit) (\<lambda>M.
       bind_res (shm_push_data p M (of_nat (length fit))) (\<lambda>(k, M).
         Inr (l\<lparr>ring_state := M, accepted := accepted l @ fit\<rparr>))))"
| "shm_step p q l (Drain n) =
     bind_res (shm_get_readable q (ring_state l)) (\<lambda>piece.
       bind_res (mem_loads q (ring_state l) (piece_data piece) (unat (piece_size piece))) (\<lambda>view.
       bind_res (shm_pop_data q (ring_state l) n) (\<lambda>(k, M).
         Inr (l\<lparr>ring_state := M, delivered := delivered l @ take (unat k) view\<rparr>))))"

section \<open>Regions of a file\<close>

definition region :: "object \<Rightarrow> u64 \<Rightarrow> nat \<Rightarrow> u8 list" where
  "region f h n = map (\<lambda>i. f (h + of_nat i)) [0..<n]"

lemma length_region [simp]: "length (region f h n) = n"
  by (simp add: region_def)

lemma nth_region [simp]: "i < n \<Longrightarrow> region f h n ! i = f (h + of_nat i)"
  by (simp add: region_def)

lemma of_nat_less64: "i < unat (w :: u64) \<Longrightarrow> (of_nat i :: u64) < w"
  using unat_less_2p64 [of w] by (simp add: word_less_nat_alt unat_of_nat64)

lemma of_nat_inj64:
  assumes "(of_nat i :: u64) = of_nat j" "i < 2 ^ 64" "j < 2 ^ 64"
  shows "i = j"
  using arg_cong [OF assms(1), of unat] assms(2,3) by (simp add: unat_of_nat64)

lemma region_upd:
  assumes "j < n" "n \<le> 2 ^ 64"
  shows "region (f(h + of_nat j := b)) h n = (region f h n)[j := b]"
  by (rule nth_equalityI) (use assms in \<open>auto simp: nth_list_update dest!: of_nat_inj64\<close>)

text \<open>Accesses that go through the cells of a region in a circle.\<close>

lemma loads_region:
  assumes "0 < n" "\<And>i. i < k \<Longrightarrow> locate p M (x + of_nat i) = Inr (pl, h + of_nat ((s + i) mod n))"
  shows "mem_loads p M x k = Inr (ring_read (region (cells M pl) h n) s k)"
  using assms(2)
proof (induction k arbitrary: x s)
  case (Suc k)
  have "locate p M x = Inr (pl, h + of_nat (s mod n))"
    using Suc.prems [of 0] by simp
  moreover have "mem_loads p M (x + 1) k = Inr (ring_read (region (cells M pl) h n) (Suc s) k)"
    by (rule Suc.IH) (use Suc.prems [of "Suc _"] in \<open>simp add: ac_simps\<close>)
  moreover have "ring_read (region (cells M pl) h n) s (Suc k)
      = cells M pl (h + of_nat (s mod n)) # ring_read (region (cells M pl) h n) (Suc s) k"
    using ring_read_add [of "region (cells M pl) h n" s 1 k] assms(1) by (simp add: ring_read_def)
  ultimately show ?case
    by simp
qed simp

lemma put_cell_simps [simp]:
  "cells (put_cell M x b) = (cells M)(fst x := (cells M (fst x))(snd x := b))"
  "file_len (put_cell M x b) = file_len M" "locate p (put_cell M x b) = locate p M"
  by (simp_all add: put_cell_def locate_def fun_eq_iff split: option.split prod.split mobject.split)

lemma stores_region:
  assumes "0 < n" "n \<le> 2 ^ 64"
    and "\<And>i. i < length bs \<Longrightarrow> locate p M (x + of_nat i) = Inr (pl, h + of_nat ((s + i) mod n))"
  shows "\<exists>M'. mem_stores p M x bs = Inr M' \<and> region (cells M' pl) h n = ring_write (region (cells M pl) h n) s bs
    \<and> (\<forall>y. (\<forall>j < n. y \<noteq> h + of_nat j) \<longrightarrow> cells M' pl y = cells M pl y) \<and> file_len M' = file_len M"
  using assms(3)
proof (induction bs arbitrary: M x s)
  case (Cons b bs)
  let ?M = "put_cell M (pl, h + of_nat (s mod n)) b"
  have "locate p M x = Inr (pl, h + of_nat (s mod n))"
    using Cons.prems [of 0] by simp
  moreover have "\<exists>M'. mem_stores p ?M (x + 1) bs = Inr M'
      \<and> region (cells M' pl) h n = ring_write (region (cells ?M pl) h n) (Suc s) bs
      \<and> (\<forall>y. (\<forall>j < n. y \<noteq> h + of_nat j) \<longrightarrow> cells M' pl y = cells ?M pl y) \<and> file_len M' = file_len ?M"
    by (rule Cons.IH) (use Cons.prems [of "Suc _"] in \<open>simp add: ac_simps\<close>)
  then obtain M' where M': "mem_stores p ?M (x + 1) bs = Inr M'"
      "region (cells M' pl) h n = ring_write (region (cells ?M pl) h n) (Suc s) bs"
      "\<forall>y. (\<forall>j < n. y \<noteq> h + of_nat j) \<longrightarrow> cells M' pl y = cells ?M pl y" "file_len M' = file_len M"
    by auto
  moreover have "s mod n < n"
    using assms(1) by simp
  ultimately show ?case
    using region_upd [of "s mod n" n "cells M pl" h b] assms(2) by (intro exI [of _ M']) auto
qed simp

section \<open>The mapped file\<close>

text \<open>File \<open>i\<close> as a successful double mapping shows it (\<open>Shm_Buffer\<close>).\<close>

definition maps_file :: "process \<Rightarrow> nat \<Rightarrow> size_t \<Rightarrow> size_t \<Rightarrow> bool" where
  "maps_file p i head cap \<longleftrightarrow>
     (\<forall>j < head. pr_map p (pr_base p + j) = Some (Shm_file i, j))
     \<and> (\<forall>j < cap. pr_map p (pr_base p + head + j) = Some (Shm_file i, head + j)
          \<and> pr_map p (pr_base p + head + cap + j) = Some (Shm_file i, head + j))"

text \<open>The header lies before the data, and the file has room for both.\<close>

definition layout_ok :: "memory \<Rightarrow> nat \<Rightarrow> size_t \<Rightarrow> size_t \<Rightarrow> bool" where
  "layout_ok M i head cap \<longleftrightarrow> 256 \<le> unat head \<and> unat head + unat cap \<le> unat (file_len M i) \<and> pow2 cap"

text \<open>What the bytes of the file say.\<close>

definition ring_in :: "size_t \<Rightarrow> size_t \<Rightarrow> object \<Rightarrow> ring_buffer" where
  "ring_in head cap f = \<lparr>rb_hdr = decode_header (region f 0 256), rb_cells = region f head (unat cap)\<rparr>"

definition object_ok :: "size_t \<Rightarrow> size_t \<Rightarrow> object \<Rightarrow> bool" where
  "object_ok head cap f \<longleftrightarrow>
     ring_ok (ring_in head cap f) \<and> capacity (rb_hdr (ring_in head cap f)) = cap
     \<and> aligned_header_size (private_size (rb_hdr (ring_in head cap f))) (page_mask (rb_hdr (ring_in head cap f))) = head"

lemma header_mapped:
  assumes "maps_file p i head cap" "layout_ok M i head cap" "j < 256"
  shows "locate p M (pr_base p + of_nat j) = Inr (In_file i, 0 + of_nat (j mod 256))"
proof -
  have j: "unat (of_nat j :: u64) = j"
    using assms(3) by (simp add: unat_of_nat64)
  then have "(of_nat j :: u64) < head" "(of_nat j :: u64) < file_len M i"
    using assms(2,3) by (auto simp: layout_ok_def word_less_nat_alt)
  then show ?thesis
    using assms(1,3) by (simp add: maps_file_def locate_def)
qed

lemma data_offset:
  assumes "layout_ok M i head cap" "j < unat cap"
  shows "unat (head + of_nat j) = unat head + j" "head + of_nat j < file_len M i"
proof -
  have "unat (of_nat j :: u64) = j"
    using assms(2) unat_less_2p64 [of cap] by (simp add: unat_of_nat64)
  then show "unat (head + of_nat j) = unat head + j"
    using assms unat_less_2p64 [of "file_len M i"]
    by (subst unat_add_lem [THEN iffD1]) (auto simp: layout_ok_def)
  then show "head + of_nat j < file_len M i"
    using assms by (auto simp: layout_ok_def word_less_nat_alt)
qed

text \<open>Up to two capacities of bytes from the start of the data are mapped, to the cells in a circle.\<close>

lemma cell_mapped:
  assumes "maps_file p i head cap" "layout_ok M i head cap" "j < 2 * unat cap"
  shows "locate p M (pr_base p + head + of_nat j) = Inr (In_file i, head + of_nat (j mod unat cap))"
proof (cases "j < unat cap")
  case True
  then show ?thesis
    using assms(1) of_nat_less64 [OF True] data_offset(2) [OF assms(2) True] by (simp add: maps_file_def locate_def)
next
  case False
  then obtain k where k: "j = unat cap + k" "k < unat cap"
    using assms(3) by (metis add_less_cancel_left le_Suc_ex mult_2 not_less)
  then have "pr_map p (pr_base p + head + cap + of_nat k) = Some (Shm_file i, head + of_nat k)"
    using assms(1) of_nat_less64 [OF k(2)] by (simp add: maps_file_def)
  then show ?thesis
    using k data_offset(2) [OF assms(2) k(2)] by (simp add: locate_def ac_simps)
qed

text \<open>The header region and the data region do not meet.\<close>

lemma regions_apart:
  assumes "layout_ok M i head cap" "k < 256" "j < unat cap"
  shows "(of_nat k :: u64) \<noteq> head + of_nat j"
proof -
  have "unat (of_nat k :: u64) = k"
    using assms(2) by (simp add: unat_of_nat64)
  then show ?thesis
    using data_offset(1) [OF assms(1,3)] assms(1,2) by (auto simp: layout_ok_def)
qed

lemma region_cong: "(\<And>i. i < n \<Longrightarrow> f' (h + of_nat i) = f (h + of_nat i)) \<Longrightarrow> region f' h n = region f h n"
  by (simp add: region_def)

lemma header_loads:
  assumes "maps_file p i head cap" "layout_ok M i head cap"
  shows "shm_header p M = Inr (decode_header (region (cells M (In_file i)) 0 256))"
proof -
  have "mem_loads p M (pr_base p) 256 = Inr (ring_read (region (cells M (In_file i)) 0 256) 0 256)"
    using header_mapped [OF assms] by (intro loads_region) simp_all
  moreover have "ring_read (region (cells M (In_file i)) 0 256) 0 256 = region (cells M (In_file i)) 0 256"
    by (rule nth_equalityI) (simp_all add: nth_ring_read)
  ultimately show ?thesis
    by (simp add: shm_header_def)
qed

lemma ring_write_inside:
  "s + length bs \<le> length xs \<Longrightarrow> ring_write xs s bs = take s xs @ bs @ drop (s + length bs) xs"
proof (induction xs s bs rule: ring_write.induct)
  case (2 xs s b bs)
  then show ?case
    by (simp add: upd_conv_take_nth_drop take_Suc_conv_app_nth list_update_append) (simp add: add.commute)
qed simp

lemma layout_ok_cong: "file_len M' = file_len M \<Longrightarrow> layout_ok M' = layout_ok M"
  by (simp add: layout_ok_def fun_eq_iff)

lemma index_store:
  assumes "maps_file p i head cap" "layout_ok M i head cap" "off + length bs \<le> 256"
  shows "\<exists>M'. mem_stores p M (pr_base p + of_nat off) bs = Inr M'
    \<and> region (cells M' (In_file i)) 0 256 = take off (region (cells M (In_file i)) 0 256) @ bs
        @ drop (off + length bs) (region (cells M (In_file i)) 0 256)
    \<and> region (cells M' (In_file i)) head (unat cap) = region (cells M (In_file i)) head (unat cap)
    \<and> file_len M' = file_len M"
proof -
  have "locate p M (pr_base p + of_nat off + of_nat j) = Inr (In_file i, 0 + of_nat ((off + j) mod 256))"
    if "j < length bs" for j
    using header_mapped [OF assms(1,2), of "off + j"] assms(3) that by (simp add: add.assoc)
  from stores_region [of 256 bs p _ _ "In_file i" 0 off, OF _ _ this] obtain M' where
    M': "mem_stores p M (pr_base p + of_nat off) bs = Inr M'"
      "region (cells M' (In_file i)) 0 256 = ring_write (region (cells M (In_file i)) 0 256) off bs"
      "\<forall>y. (\<forall>j < 256. y \<noteq> 0 + of_nat j) \<longrightarrow> cells M' (In_file i) y = cells M (In_file i) y" "file_len M' = file_len M"
    by auto
  have "region (cells M' (In_file i)) head (unat cap) = region (cells M (In_file i)) head (unat cap)"
    by (rule region_cong) (use M'(3) regions_apart [OF assms(2)] in \<open>metis add_0\<close>)
  then show ?thesis
    using M'(1,2,4) ring_write_inside [of off bs "region (cells M (In_file i)) 0 256"] assms(3) by simp
qed

lemma decode_index:
  assumes "length hb = 256"
  shows "decode_header (le_bytes 8 w @ drop 8 hb) = (decode_header hb)\<lparr>r_idx := w\<rparr>"
    "decode_header (take 64 hb @ le_bytes 8 w @ drop 72 hb) = (decode_header hb)\<lparr>w_idx := w\<rparr>"
  using assms by (simp_all add: decode_header_def bytes_at_def)

section \<open>The operations are those of the ring\<close>

lemma object_okD:
  assumes "object_ok head cap f"
  shows "ring_ok (ring_in head cap f)" "capacity (decode_header (region f 0 256)) = cap"
    "buffer_start b (decode_header (region f 0 256)) = b + head"
    "\<And>pos. buffer_pos b (decode_header (region f 0 256)) pos = b + head + of_nat (unat pos mod unat cap)"
proof -
  show ok: "ring_ok (ring_in head cap f)" and c: "capacity (decode_header (region f 0 256)) = cap"
    and st: "buffer_start b (decode_header (region f 0 256)) = b + head"
    using assms by (simp_all add: object_ok_def ring_in_def buffer_start_def)
  have "pow2 cap"
    using ok c by (simp add: ring_ok_def ring_in_def)
  then have "pos AND (cap - 1) = of_nat (unat pos mod unat cap)" for pos
    by (simp flip: and_mask_mod)
  then show "buffer_pos b (decode_header (region f 0 256)) pos = b + head + of_nat (unat pos mod unat cap)" for pos
    by (simp add: buffer_pos_def st c)
qed

text \<open>A piece of at most a capacity, from the pointer the code computes for a position, lies in the cells
  from that position on.\<close>

lemma piece_mapped:
  assumes "maps_file p i head cap" "layout_ok M i head cap" "object_ok head cap f" "j < unat n" "n \<le> cap"
  shows "locate p M (buffer_pos (pr_base p) (decode_header (region f 0 256)) pos + of_nat j)
    = Inr (In_file i, head + of_nat ((unat pos mod unat cap + j) mod unat cap))"
proof -
  have "unat pos mod unat cap < unat cap"
    using assms(4,5) by (intro mod_less_divisor) (simp add: word_le_nat_alt)
  then have "unat pos mod unat cap + j < 2 * unat cap"
    using assms(4,5) unfolding word_le_nat_alt by linarith
  from cell_mapped [OF assms(1,2) this] show ?thesis
    by (simp add: object_okD(4) [OF assms(3)] add.assoc)
qed

lemma sizes_le:
  assumes "object_ok head cap f"
  shows "writable_size (decode_header (region f 0 256)) \<le> cap" "readable_size (decode_header (region f 0 256)) \<le> cap"
  using object_okD(1,2) [OF assms] unat_writable_size [of "decode_header (region f 0 256)"]
  by (auto simp: ring_ok_def ring_in_def cb_ok_def word_le_nat_alt)

lemma shm_fill:
  assumes p: "maps_file p i head cap" "layout_ok M i head cap" and f: "object_ok head cap (cells M (In_file i))"
    and fit: "fit = take (rb_room (ring_in head cap (cells M (In_file i)))) bs" and l: "ring_state l = M"
  shows "\<exists>M'. shm_step p q l (Fill bs) = Inr (l\<lparr>ring_state := M', accepted := accepted l @ fit\<rparr>)
    \<and> ring_in head cap (cells M' (In_file i)) = rb_put (pr_base p) (ring_in head cap (cells M (In_file i))) fit
    \<and> file_len M' = file_len M"
proof -
  let ?f = "cells M (In_file i)"
  let ?h = "decode_header (region ?f 0 256)"
  let ?w = "unat (w_idx ?h) mod unat cap" and ?x = "buffer_pos (pr_base p) ?h (w_idx ?h)"
  have cap: "0 < unat cap" "unat cap \<le> 2 ^ 64"
    using p(2) pow2_pos unat_less_2p64 [of cap] by (auto simp: layout_ok_def)
  have len: "length fit \<le> unat (writable_size ?h)" and room: "rb_room (ring_in head cap ?f) = unat (writable_size ?h)"
    by (simp_all add: fit rb_room_def ring_in_def)
  have "locate p M (?x + of_nat j) = Inr (In_file i, head + of_nat ((?w + j) mod unat cap))" if "j < length fit" for j
    by (rule piece_mapped [OF p f _ sizes_le(1) [OF f]]) (use that len in simp)
  from stores_region [OF cap this] obtain M1 where M1: "mem_stores p M ?x fit = Inr M1"
    "region (cells M1 (In_file i)) head (unat cap) = ring_write (region ?f head (unat cap)) ?w fit"
    "\<forall>y. (\<forall>j < unat cap. y \<noteq> head + of_nat j) \<longrightarrow> cells M1 (In_file i) y = ?f y" "file_len M1 = file_len M"
    by auto
  have h1: "region (cells M1 (In_file i)) 0 256 = region ?f 0 256"
    by (rule region_cong) (use M1(3) regions_apart [OF p(2)] in \<open>metis add_0\<close>)
  have p1: "layout_ok M1 i head cap"
    using p(2) layout_ok_cong [OF M1(4)] by simp
  let ?cb = "snd (circular_buffer_push_data ?h (of_nat (length fit)))"
  from index_store [OF p(1) p1, of 64 "le_bytes 8 (w_idx ?cb)"] obtain M2 where M2:
    "mem_stores p M1 (pr_base p + 64) (le_bytes 8 (w_idx ?cb)) = Inr M2"
    "region (cells M2 (In_file i)) 0 256 = take 64 (region ?f 0 256) @ le_bytes 8 (w_idx ?cb) @ drop 72 (region ?f 0 256)"
    "region (cells M2 (In_file i)) head (unat cap) = ring_write (region ?f head (unat cap)) ?w fit"
    "file_len M2 = file_len M"
    using h1 M1(2,4) by auto
  have "shm_step p q l (Fill bs) = Inr (l\<lparr>ring_state := M2, accepted := accepted l @ fit\<rparr>)"
    using l M1(1) M2(1) fit [unfolded room, symmetric]
    by (simp add: shm_get_writable_def shm_push_data_def header_loads [OF p] header_loads [OF p(1) p1] h1
        circular_buffer_get_writable_def case_prod_beta Let_def del: length_take)
  moreover have "ring_in head cap (cells M2 (In_file i)) = rb_put (pr_base p) (ring_in head cap ?f) fit"
    using M2(2,3) decode_index(2) [of "region ?f 0 256"] object_okD(1,2) [OF f]
    by (simp add: ring_in_def rb_put_def store_bytes_def circular_buffer_get_writable_def offset_of_pos ring_ok_def)
  ultimately show ?thesis
    using M2(4) by blast
qed

lemma shm_drain:
  assumes q: "maps_file q i head cap" "layout_ok M i head cap" and f: "object_ok head cap (cells M (In_file i))"
    and l: "ring_state l = M"
  shows "\<exists>M'. shm_step p q l (Drain n) = Inr (l\<lparr>ring_state := M',
      delivered := delivered l @ take (unat n) (rb_stored (ring_in head cap (cells M (In_file i))))\<rparr>)
    \<and> ring_in head cap (cells M' (In_file i)) = rb_pop (ring_in head cap (cells M (In_file i))) n
    \<and> file_len M' = file_len M"
proof -
  let ?f = "cells M (In_file i)"
  let ?h = "decode_header (region ?f 0 256)"
  let ?r = "unat (r_idx ?h) mod unat cap" and ?x = "buffer_pos (pr_base q) ?h (r_idx ?h)"
  have cap: "0 < unat cap"
    using q(2) pow2_pos by (auto simp: layout_ok_def)
  have "locate q M (?x + of_nat j) = Inr (In_file i, head + of_nat ((?r + j) mod unat cap))"
    if "j < unat (readable_size ?h)" for j
    by (rule piece_mapped [OF q f that sizes_le(2) [OF f]])
  from loads_region [OF cap this]
  have "mem_loads q M ?x (unat (readable_size ?h)) = Inr (ring_read (region ?f head (unat cap)) ?r (unat (readable_size ?h)))"
    by simp
  also have "ring_read (region ?f head (unat cap)) ?r (unat (readable_size ?h)) = rb_stored (ring_in head cap ?f)"
    unfolding rb_stored_def by (simp add: ring_in_def) (rule ring_read_mod, simp)
  finally have view: "mem_loads q M ?x (unat (readable_size ?h)) = Inr (rb_stored (ring_in head cap ?f))" .
  let ?cb = "snd (circular_buffer_pop_data ?h n)" and ?k = "fst (circular_buffer_pop_data ?h n)"
  from index_store [OF q, of 0 "le_bytes 8 (r_idx ?cb)"] obtain M2 where M2:
    "mem_stores q M (pr_base q) (le_bytes 8 (r_idx ?cb)) = Inr M2"
    "region (cells M2 (In_file i)) 0 256 = le_bytes 8 (r_idx ?cb) @ drop 8 (region ?f 0 256)"
    "region (cells M2 (In_file i)) head (unat cap) = region ?f head (unat cap)" "file_len M2 = file_len M"
    by auto
  have "take (unat ?k) (rb_stored (ring_in head cap ?f)) = take (unat n) (rb_stored (ring_in head cap ?f))"
    by (auto simp: ring_in_def min_def word_le_nat_alt not_le)
  then have "shm_step p q l (Drain n) = Inr (l\<lparr>ring_state := M2,
      delivered := delivered l @ take (unat n) (rb_stored (ring_in head cap ?f))\<rparr>)"
    using l view M2(1)
    by (simp add: shm_get_readable_def shm_pop_data_def header_loads [OF q] circular_buffer_get_readable_def
        case_prod_beta Let_def del: pop_data_simps)
  moreover have "ring_in head cap (cells M2 (In_file i)) = rb_pop (ring_in head cap ?f) n"
    using M2(2,3) decode_index(1) [of "region ?f 0 256"] by (simp add: ring_in_def rb_pop_def)
  ultimately show ?thesis
    using M2(4) by blast
qed

text \<open>Both processes have the file mapped, and it holds a well-formed ring.\<close>

definition shm_ok :: "process \<Rightarrow> process \<Rightarrow> nat \<Rightarrow> size_t \<Rightarrow> size_t \<Rightarrow> memory ring_log \<Rightarrow> bool" where
  "shm_ok p q i head cap l \<longleftrightarrow>
     maps_file p i head cap \<and> maps_file q i head cap \<and> layout_ok (ring_state l) i head cap
     \<and> object_ok head cap (cells (ring_state l) (In_file i))"

definition shm_abs :: "nat \<Rightarrow> size_t \<Rightarrow> size_t \<Rightarrow> memory ring_log \<Rightarrow> ring_buffer ring_log" where
  "shm_abs i head cap l =
     \<lparr>ring_state = ring_in head cap (cells (ring_state l) (In_file i)), accepted = accepted l, delivered = delivered l\<rparr>"

lemma object_ok_put:
  assumes "object_ok head cap f" "length bs \<le> rb_room (ring_in head cap f)"
    and "ring_in head cap f' = rb_put base (ring_in head cap f) bs"
  shows "object_ok head cap f'"
  using assms ring_ok_put [OF _ assms(2), of base] rb_put_eq [OF _ assms(2), of base]
  by (simp add: object_ok_def)

lemma object_ok_pop:
  assumes "object_ok head cap f" "ring_in head cap f' = rb_pop (ring_in head cap f) n"
  shows "object_ok head cap f'"
  using assms ring_ok_pop [of "ring_in head cap f" n] by (simp add: object_ok_def) (simp add: rb_pop_def)

interpretation shm: safe_steps "shm_step p q" "shm_ok p q i head cap" "shm_abs i head cap" "cb_step (pr_base p)"
  for p q i head cap
proof unfold_locales
  fix l :: "memory ring_log" and e :: ring_event
  let ?f = "cells (ring_state l) (In_file i)"
  assume ok: "shm_ok p q i head cap l"
  then have p: "maps_file p i head cap" "layout_ok (ring_state l) i head cap"
    and q: "maps_file q i head cap" "layout_ok (ring_state l) i head cap" and f: "object_ok head cap ?f"
    by (simp_all add: shm_ok_def)
  note r = object_okD(1) [OF f]
  show "\<exists>l'. shm_step p q l e = Inr l' \<and> shm_ok p q i head cap l'
    \<and> shm_abs i head cap l' = cb_step (pr_base p) (shm_abs i head cap l) e"
  proof (cases e)
    case (Fill bs)
    let ?fit = "take (rb_room (ring_in head cap ?f)) bs"
    obtain M where M: "shm_step p q l (Fill bs) = Inr (l\<lparr>ring_state := M, accepted := accepted l @ ?fit\<rparr>)"
        "ring_in head cap (cells M (In_file i)) = rb_put (pr_base p) (ring_in head cap ?f) ?fit"
        "file_len M = file_len (ring_state l)"
      using shm_fill [OF p f refl refl, of q bs] by blast
    have "object_ok head cap (cells M (In_file i))"
      by (rule object_ok_put [OF f _ M(2)]) simp
    then show ?thesis
      using M Fill ok layout_ok_cong [OF M(3)] by (auto simp: shm_ok_def shm_abs_def cb_step_def Let_def)
  next
    case (Drain n)
    obtain M where M: "shm_step p q l (Drain n) = Inr (l\<lparr>ring_state := M,
          delivered := delivered l @ take (unat n) (rb_stored (ring_in head cap ?f))\<rparr>)"
        "ring_in head cap (cells M (In_file i)) = rb_pop (ring_in head cap ?f) n"
        "file_len M = file_len (ring_state l)"
      using shm_drain [OF q f refl, of p n] by blast
    have "object_ok head cap (cells M (In_file i))"
      by (rule object_ok_pop [OF f M(2)])
    then show ?thesis
      using M Drain ok layout_ok_cong [OF M(3)]
      by (auto simp: shm_ok_def shm_abs_def cb_step_def rb_view_stored [OF r] Let_def)
  qed
qed

section \<open>Initialising the header\<close>

fun store_fields :: "process \<Rightarrow> memory \<Rightarrow> (nat \<times> u8 list) list \<Rightarrow> memory res" where
  "store_fields p M [] = Inr M"
| "store_fields p M ((off, bs) # fs) =
     bind_res (mem_stores p M (pr_base p + of_nat off) bs) (\<lambda>M. store_fields p M fs)"

text \<open>The assignments at the end of \<^verbatim>\<open>circular_buffer_fcreate\<close>, and the \<^verbatim>\<open>strcpy\<close> of \<^verbatim>\<open>circular_buffer_create\<close>.\<close>

definition shm_init :: "process \<Rightarrow> cb_header \<Rightarrow> memory \<Rightarrow> memory res" where
  "shm_init p cb M =
     store_fields p M [(0, le_bytes 8 0), (64, le_bytes 8 0), (156, [0]), (128, le_bytes 8 (capacity cb)),
       (136, le_bytes 8 (private_size cb)), (144, le_bytes 8 (page_mask cb)), (152, le_bytes 4 (ucast (flag cb)))]"

definition shm_init_named :: "process \<Rightarrow> cb_header \<Rightarrow> memory \<Rightarrow> memory res" where
  "shm_init_named p cb M = bind_res (shm_init p cb M) (\<lambda>M. store_fields p M [(156, cb_name cb @ [0])])"

definition put_at :: "u8 list \<Rightarrow> nat \<times> u8 list \<Rightarrow> u8 list" where
  "put_at hb x = (case x of (off, bs) \<Rightarrow> take off hb @ bs @ drop (off + length bs) hb)"

lemma length_put_at [simp]: "off + length bs \<le> length hb \<Longrightarrow> length (put_at hb (off, bs)) = length hb"
  by (simp add: put_at_def)

lemma bytes_at_put_same:
  "off + length bs \<le> length hb \<Longrightarrow> n = length bs \<Longrightarrow> bytes_at off n (put_at hb (off, bs)) = bs"
  by (simp add: put_at_def bytes_at_def)

lemma bytes_at_put_other:
  "off' + length bs \<le> length hb \<Longrightarrow> off + n \<le> off' \<or> off' + length bs \<le> off \<Longrightarrow>
    bytes_at off n (put_at hb (off', bs)) = bytes_at off n hb"
  by (rule nth_equalityI) (auto simp: put_at_def bytes_at_def nth_append)

lemma name_put_at:
  assumes "0 \<notin> set nm" "length nm < 64" "length hb = 256"
  shows "takeWhile (\<lambda>b. b \<noteq> 0) (bytes_at 156 64 (put_at hb (156, nm @ [0]))) = nm"
  using assms by (simp add: put_at_def bytes_at_def takeWhile_append take_Cons')

lemma store_fields_region:
  assumes "maps_file p i head cap" "layout_ok M i head cap" "\<forall>(off, bs) \<in> set fs. off + length bs \<le> 256"
  shows "\<exists>M'. store_fields p M fs = Inr M'
    \<and> region (cells M' (In_file i)) 0 256 = run put_at (region (cells M (In_file i)) 0 256) fs
    \<and> file_len M' = file_len M"
  using assms(2,3)
proof (induction fs arbitrary: M)
  case (Cons x fs)
  obtain off bs where x: "x = (off, bs)" "off + length bs \<le> 256"
    using Cons.prems by (cases x) auto
  obtain M1 where M1: "mem_stores p M (pr_base p + of_nat off) bs = Inr M1"
      "region (cells M1 (In_file i)) 0 256 = put_at (region (cells M (In_file i)) 0 256) (off, bs)" "file_len M1 = file_len M"
    using index_store [OF assms(1) Cons.prems(1) x(2)] by (auto simp: put_at_def)
  obtain M' where "store_fields p M1 fs = Inr M'"
      "region (cells M' (In_file i)) 0 256 = run put_at (region (cells M1 (In_file i)) 0 256) fs" "file_len M' = file_len M1"
    using Cons.IH [of M1] Cons.prems layout_ok_cong [OF M1(3)] by auto
  then show ?case
    using x M1 by simp
qed simp

lemma shm_init_header:
  assumes "maps_file p i head cap" "layout_ok M i head cap" "0 \<notin> set (cb_name cb)" "length (cb_name cb) < 64"
    and "r_idx cb = 0" "w_idx cb = 0"
  shows "\<exists>M'. shm_init_named p cb M = Inr M' \<and> decode_header (region (cells M' (In_file i)) 0 256) = cb
    \<and> file_len M' = file_len M"
proof -
  let ?fs = "[(0, le_bytes 8 0), (64, le_bytes 8 0), (156, [0]), (128, le_bytes 8 (capacity cb)),
       (136, le_bytes 8 (private_size cb)), (144, le_bytes 8 (page_mask cb)), (152, le_bytes 4 (ucast (flag cb)))]"
  let ?nm = "(156, cb_name cb @ [0])" and ?reg = "\<lambda>M. region (cells M (In_file i)) 0 256"
  obtain M1 where M1: "shm_init p cb M = Inr M1" "?reg M1 = run put_at (?reg M) ?fs" "file_len M1 = file_len M"
    using store_fields_region [OF assms(1,2), of ?fs] by (auto simp: shm_init_def)
  have lay: "layout_ok M1 i head cap"
    using assms(2) layout_ok_cong [OF M1(3)] by simp
  obtain M2 where M2: "store_fields p M1 [?nm] = Inr M2" "?reg M2 = put_at (?reg M1) ?nm" "file_len M2 = file_len M"
    using store_fields_region [OF assms(1) lay, of "[?nm]"] assms(4) M1(3) by auto
  have "bytes_at off n (?reg M2) = bytes_at off n (?reg M1)" if "off + n \<le> 156" for off n
    unfolding M2(2) using that assms(4) by (intro bytes_at_put_other) auto
  moreover have "takeWhile (\<lambda>b. b \<noteq> 0) (bytes_at 156 64 (?reg M2)) = cb_name cb"
    unfolding M2(2) by (rule name_put_at [OF assms(3,4)]) simp
  moreover have "bytes_at 0 8 (?reg M1) = le_bytes 8 0" "bytes_at 64 8 (?reg M1) = le_bytes 8 0"
    "bytes_at 128 8 (?reg M1) = le_bytes 8 (capacity cb)"
    "bytes_at 136 8 (?reg M1) = le_bytes 8 (private_size cb)"
    "bytes_at 144 8 (?reg M1) = le_bytes 8 (page_mask cb)"
    "bytes_at 152 4 (?reg M1) = le_bytes 4 (ucast (flag cb))"
    unfolding M1(2) by (simp_all add: bytes_at_put_same bytes_at_put_other)
  ultimately have "decode_header (?reg M2) = cb"
    using assms(5,6) by (intro cb_header.equality)
      (simp_all add: decode_header_def flag_bytes le_word_le_bytes [of 4] le_word_le_bytes_8)
  then show ?thesis
    using M1(1) M2(1,3) by (simp add: shm_init_named_def)
qed

section \<open>Creating and attaching\<close>

definition process_at :: "nat \<Rightarrow> u64 \<Rightarrow> trace \<Rightarrow> process" where
  "process_at pid base tr = \<lparr>pr_id = pid, pr_base = base, pr_map = vmap tr\<rparr>"

lemma mapped_file:
  assumes "map_shared_memory os page fd head cap tr = (Inr (Some a), tr')" "vmap tr'' = vmap tr'"
    and "shared_object tr fd = Shm_file i" "unat a + unat head + 2 * unat cap < 2 ^ 64"
  shows "maps_file (process_at pid a tr'') i head cap"
  using double_mapping [OF assms(1,4)] assms(2,3) by (simp add: maps_file_def process_at_def)

lemma view_close:
  "vmap (tr @ [(Close fd, r)]) = vmap tr" "size_set (view_of (tr @ [(Close fd, r)])) = size_set (view_of tr)"
  by (simp_all add: vmap_def view_of_append)

lemma mapping_size_set:
  assumes "map_shared_memory os page fd head cap tr = (Inr (Some a), tr')"
  shows "size_set (view_of tr') = size_set (view_of tr)"
  by (rule map_shared_memory_Some [OF assms]) (simp add: view_of_append)

text \<open>What a successful create did: the file it opened is the one it mapped, with room for header and data.\<close>

lemma create_named:
  assumes "circular_buffer_create os page (Some nm) cap psize flg tr = (Inr (Some (a, cb)), tr')"
  defines "r \<equiv> os tr (Shm_open nm True)" and "head \<equiv> aligned_header_size psize (page - 1)"
  obtains t t' where "map_shared_memory os page (rv r) head (capacity cb) t = (Inr (Some a), t')"
    "shared_object t (rv r) = Shm_file (ino r)" "size_set (view_of tr') (ino r) = Some (capacity cb + head)"
    "vmap tr' = vmap t'" "length nm < 64"
    "cb = \<lparr>r_idx = 0, w_idx = 0, capacity = (cap + (page - 1)) AND NOT (page - 1), private_size = psize,
       page_mask = page - 1, flag = flg, cb_name = nm\<rparr>"
proof -
  let ?cap = "(cap + (page - 1)) AND NOT (page - 1)"
  let ?t1 = "tr @ [(Shm_open nm True, r)]"
  let ?t = "?t1 @ [(Ftruncate (rv r) (?cap + head), os ?t1 (Ftruncate (rv r) (?cap + head)))]"
  obtain t' where M: "0 \<le> rv r" "0 \<le> rv (os ?t1 (Ftruncate (rv r) (?cap + head)))"
      "map_shared_memory os page (rv r) head ?cap ?t = (Inr (Some a), t')" "length nm < 64"
      "tr' = t' @ [(Close (rv r), os t' (Close (rv r)))]"
    and cb: "cb = \<lparr>r_idx = 0, w_idx = 0, capacity = ?cap, private_size = psize,
       page_mask = page - 1, flag = flg, cb_name = nm\<rparr>"
    using assms(1) unfolding r_def head_def
    by (auto simp: circular_buffer_create_def circular_buffer_fcreate_def store_name_def syscall_eq Let_def
        split: prod.splits sum.splits option.splits if_splits)
  have v: "fd_file (view_of ?t) (rv r) = Shm_file (ino r)" "size_set (view_of ?t) (ino r) = Some (?cap + head)"
    using M(1,2) by (simp_all add: view_of_append)
  show ?thesis
  proof (rule that [of ?t t'])
    show "map_shared_memory os page (rv r) head (capacity cb) ?t = (Inr (Some a), t')"
      using M(3) by (simp add: cb)
    show "shared_object ?t (rv r) = Shm_file (ino r)"
      using M(1) v(1) by (simp add: shared_object_def)
    show "size_set (view_of tr') (ino r) = Some (capacity cb + head)"
      using v(2) mapping_size_set [OF M(3)] by (simp add: M(5) view_close cb)
    show "vmap tr' = vmap t'"
      by (simp add: M(5) view_close)
  qed (use M(4) cb in simp_all)
qed

lemma attach_named:
  assumes "circular_buffer_attach os page (Some nm) tr = (Inr (Some (b, h)), tr')"
  defines "r \<equiv> os tr (Shm_open nm False)"
  obtains t s t' where "h = decode_header (bytes (os t (Read_fd (rv r) 256)))" "rv (os t (Read_fd (rv r) 256)) = 256"
    "fd_file (view_of t) (rv r) = Shm_file (ino r)" "shared_object s (rv r) = Shm_file (ino r)"
    "map_shared_memory os page (rv r) (aligned_header_size (private_size h) (page_mask h)) (capacity h) s = (Inr (Some b), t')"
    "vmap tr' = vmap t'"
proof -
  let ?t = "tr @ [(Shm_open nm False, r)]"
  let ?t2 = "?t @ [(Read_fd (rv r) 256, os ?t (Read_fd (rv r) 256))]"
  let ?s = "?t2 @ [(Lseek_start (rv r), os ?t2 (Lseek_start (rv r)))]"
  obtain t' where A: "0 \<le> rv r" "h = decode_header (bytes (os ?t (Read_fd (rv r) 256)))" "rv (os ?t (Read_fd (rv r) 256)) = 256"
    "map_shared_memory os page (rv r) (aligned_header_size (private_size h) (page_mask h)) (capacity h) ?s = (Inr (Some b), t')"
    "tr' = t' @ [(Close (rv r), os t' (Close (rv r)))]"
    using assms(1) unfolding r_def
    by (auto simp: circular_buffer_attach_def circular_buffer_fattach_def syscall_eq Let_def
        split: prod.splits sum.splits option.splits if_splits)
  have "fd_file (view_of ?t) (rv r) = Shm_file (ino r)" "fd_file (view_of ?s) (rv r) = Shm_file (ino r)"
    using A(1) by (simp_all add: view_of_append)
  then show ?thesis
    using A by (intro that [of ?t ?s t']) (simp_all add: shared_object_def view_close)
qed

section \<open>Two processes\<close>

text \<open>What reading a shared-memory file from its start delivers.\<close>

definition reads_files :: "os \<Rightarrow> memory \<Rightarrow> bool" where
  "reads_files os M \<longleftrightarrow>
     (\<forall>tr fd i. fd_file (view_of tr) fd = Shm_file i \<longrightarrow> rv (os tr (Read_fd fd 256)) = 256 \<longrightarrow>
        bytes (os tr (Read_fd fd 256)) = region (cells M (In_file i)) 0 256)"

text \<open>The files have the sizes this process gave them.\<close>

definition sizes_hold :: "trace \<Rightarrow> memory \<Rightarrow> bool" where
  "sizes_hold tr M \<longleftrightarrow> (\<forall>i n. size_set (view_of tr) i = Some n \<longrightarrow> file_len M i = n)"

lemma aligned_header_ge:
  assumes "pow2 page" "unat psize + 256 + unat page \<le> 2 ^ 64"
  shows "256 \<le> unat (aligned_header_size psize (page - 1))"
proof -
  have "unat (256 + psize) = 256 + unat psize"
    using assms(2) pow2_pos [OF assms(1)] by (subst unat_add_lem [THEN iffD1]) simp_all
  then have "256 + psize \<le> aligned_header_size psize (page - 1)"
    using round_up_page(2) [OF assms(1), of "256 + psize"] assms(2)
    by (simp add: aligned_header_size_def sizeof_header_def)
  then show ?thesis
    using \<open>unat (256 + psize) = 256 + unat psize\<close> by (simp add: word_le_nat_alt)
qed

text \<open>The creator has the file mapped, and storing the header succeeds.\<close>

lemma created:
  assumes "circular_buffer_create os page (Some nm) cap psize flg tr = (Inr (Some (a, cb)), tr')" "sizes_hold tr' M"
    and "pow2 page" "unat psize + 256 + unat page \<le> 2 ^ 64" "0 \<notin> set nm" "pow2 (capacity cb)"
    and "unat a + unat (aligned_header_size psize (page - 1)) + 2 * unat (capacity cb) < 2 ^ 64"
  defines "i \<equiv> ino (os tr (Shm_open nm True))" and "head \<equiv> aligned_header_size psize (page - 1)"
  shows "maps_file (process_at pid a tr') i head (capacity cb)" "layout_ok M i head (capacity cb)"
    "\<exists>M'. shm_init_named (process_at pid a tr') cb M = Inr M'
      \<and> decode_header (region (cells M' (In_file i)) 0 256) = cb \<and> file_len M' = file_len M"
    "private_size cb = psize \<and> page_mask cb = page - 1 \<and> r_idx cb = 0 \<and> w_idx cb = 0"
proof -
  let ?fd = "rv (os tr (Shm_open nm True))"
  obtain t t' where A: "map_shared_memory os page ?fd head (capacity cb) t = (Inr (Some a), t')"
      "shared_object t ?fd = Shm_file i" "size_set (view_of tr') i = Some (capacity cb + head)"
      "vmap tr' = vmap t'" "length nm < 64"
    and cb: "cb = \<lparr>r_idx = 0, w_idx = 0, capacity = (cap + (page - 1)) AND NOT (page - 1), private_size = psize,
       page_mask = page - 1, flag = flg, cb_name = nm\<rparr>"
    by (rule create_named [OF assms(1), folded i_def head_def])
  show p: "maps_file (process_at pid a tr') i head (capacity cb)"
    by (rule mapped_file [OF A(1,4,2) assms(7) [folded head_def]])
  have len: "file_len M i = capacity cb + head"
    using assms(2) A(3) by (simp add: sizes_hold_def)
  have "unat (capacity cb + head) = unat (capacity cb) + unat head"
    using assms(7) [folded head_def] by (intro unat_add_lem [THEN iffD1]) simp
  then show lay: "layout_ok M i head (capacity cb)"
    using aligned_header_ge [OF assms(3,4)] assms(6) by (simp add: layout_ok_def len head_def)
  show "\<exists>M'. shm_init_named (process_at pid a tr') cb M = Inr M'
      \<and> decode_header (region (cells M' (In_file i)) 0 256) = cb \<and> file_len M' = file_len M"
    by (rule shm_init_header [OF p lay]) (use assms(5) A(5) in \<open>simp_all add: cb\<close>)
  show "private_size cb = psize \<and> page_mask cb = page - 1 \<and> r_idx cb = 0 \<and> w_idx cb = 0"
    by (simp add: cb)
qed

text \<open>After create and attach both have the same file mapped, with the header the creator returned.\<close>

lemma created_and_attached:
  assumes "circular_buffer_create osA page (Some nm) cap psize flg trA = (Inr (Some (a, cb)), trA')"
    and "circular_buffer_attach osB page (Some nm) trB = (Inr (Some (b, cb')), trB')"
    and "ino (osB trB (Shm_open nm False)) = ino (osA trA (Shm_open nm True))"
    and "sizes_hold trA' M0" "shm_init_named (process_at 0 a trA') cb M0 = Inr M" "reads_files osB M"
    and "pow2 page" "unat psize + 256 + unat page \<le> 2 ^ 64" "0 \<notin> set nm" "pow2 (capacity cb)"
    and "unat a + unat (aligned_header_size psize (page - 1)) + 2 * unat (capacity cb) < 2 ^ 64"
    and "unat b + unat (aligned_header_size psize (page - 1)) + 2 * unat (capacity cb) < 2 ^ 64"
  defines "head \<equiv> aligned_header_size psize (page - 1)" and "i \<equiv> ino (osA trA (Shm_open nm True))"
  shows "cb' = cb" "rb_stored (ring_in head (capacity cb) (cells M (In_file i))) = []"
    "shm_ok (process_at 0 a trA') (process_at 1 b trB') i head (capacity cb)
       \<lparr>ring_state = M, accepted = [], delivered = []\<rparr>"
proof -
  let ?p = "process_at 0 a trA'" and ?q = "process_at 1 b trB'" and ?r = "osB trB (Shm_open nm False)"
  note p = created [OF assms(1,4,7-11), folded head_def i_def]
  have hdr: "decode_header (region (cells M (In_file i)) 0 256) = cb" and len: "file_len M = file_len M0"
    and fields: "private_size cb = psize" "page_mask cb = page - 1" "r_idx cb = 0" "w_idx cb = 0"
    using p(3) [of 0] p(4) assms(5) by auto
  obtain t s t' where B: "cb' = decode_header (bytes (osB t (Read_fd (rv ?r) 256)))" "rv (osB t (Read_fd (rv ?r) 256)) = 256"
      "fd_file (view_of t) (rv ?r) = Shm_file (ino ?r)" "shared_object s (rv ?r) = Shm_file (ino ?r)"
      "map_shared_memory osB page (rv ?r) (aligned_header_size (private_size cb') (page_mask cb')) (capacity cb') s
        = (Inr (Some b), t')" "vmap trB' = vmap t'"
    by (rule attach_named [OF assms(2)])
  have ino: "ino ?r = i"
    by (simp add: assms(3) i_def)
  show cb': "cb' = cb"
    using B(1-3) assms(6) hdr by (simp add: reads_files_def ino)
  have q: "maps_file ?q i head (capacity cb)"
    by (rule mapped_file [OF _ B(6) B(4) [unfolded ino] assms(12) [folded head_def]])
      (use B(5) in \<open>simp add: cb' fields head_def\<close>)
  have "layout_ok M i head (capacity cb)"
    using p(2) layout_ok_cong [OF len] by simp
  moreover have "object_ok head (capacity cb) (cells M (In_file i))"
    using assms(10) by (simp add: object_ok_def ring_in_def hdr ring_ok_def cb_ok_def readable_size_def fields head_def)
  ultimately show "shm_ok ?p ?q i head (capacity cb) \<lparr>ring_state = M, accepted = [], delivered = []\<rparr>"
    using p(1) [of 0] q by (simp add: shm_ok_def)
  show "rb_stored (ring_in head (capacity cb) (cells M (In_file i))) = []"
    by (simp add: rb_stored_def ring_in_def hdr readable_size_def fields)
qed

text \<open>From there every run goes through, and refines the byte ring.\<close>

lemma shm_runs:
  assumes "shm_ok p q i head cap \<lparr>ring_state = M, accepted = [], delivered = []\<rparr>"
    and "rb_stored (ring_in head cap (cells M (In_file i))) = []"
  shows "\<exists>l. run_res (shm_step p q) \<lparr>ring_state = M, accepted = [], delivered = []\<rparr> es = Inr l
    \<and> accepted l = delivered l @ rb_stored (ring_in head cap (cells (ring_state l) (In_file i)))"
proof -
  let ?l0 = "\<lparr>ring_state = M, accepted = [], delivered = []\<rparr>"
  obtain l where l: "run_res (shm_step p q) ?l0 es = Inr l"
      "shm_abs i head cap l = run (cb_step (pr_base p)) (shm_abs i head cap ?l0) es"
    using shm.run_safe [OF assms(1), of es] by blast
  have "ring_ok (ring_state (shm_abs i head cap ?l0))
      \<and> accepted (shm_abs i head cap ?l0) = delivered (shm_abs i head cap ?l0) @ rb_stored (ring_state (shm_abs i head cap ?l0))"
    using assms by (simp add: shm_abs_def shm_ok_def object_ok_def)
  then have "accepted (shm_abs i head cap l) = delivered (shm_abs i head cap l) @ rb_stored (ring_state (shm_abs i head cap l))"
    unfolding l(2) cb_step_def by (rule cb.flight.run_ok [THEN conjunct2])
  then show ?thesis
    using l(1) by (simp add: shm_abs_def)
qed

text \<open>C2: a ring created by one process under a name and attached by another under that name carries bytes from
  the one to the other. Suppose that create and attach succeed, the capacity and the page size being
  powers of two and the private size not so large that the header's size wraps around; that the name attach
  opens is still that of the file create made; that files have the size create gave them, that the
  header is stored through the creator's mapping, and that attach reads files as they are after this;
  and that the two mappings do not wrap around the address space. Then
  both have the same file behind their addresses; attach finds the header create stored; and
  however the one writes into the pieces it is given and pushes, and the other reads the pieces it is
  given and pops, no load or store misses the file, and the bytes accepted are the bytes delivered
  followed by those in the file.\<close>

theorem two_processes_share_the_ring:
  assumes "circular_buffer_create osA page (Some nm) cap psize flg trA = (Inr (Some (a, cb)), trA')"
    and "circular_buffer_attach osB page (Some nm) trB = (Inr (Some (b, cb')), trB')"
    and "ino (osB trB (Shm_open nm False)) = ino (osA trA (Shm_open nm True))"
    and "sizes_hold trA' M0" "shm_init_named (process_at 0 a trA') cb M0 = Inr M" "reads_files osB M"
    and "pow2 page" "unat psize + 256 + unat page \<le> 2 ^ 64" "0 \<notin> set nm" "pow2 (capacity cb)"
    and "unat a + unat (aligned_header_size psize (page - 1)) + 2 * unat (capacity cb) < 2 ^ 64"
    and "unat b + unat (aligned_header_size psize (page - 1)) + 2 * unat (capacity cb) < 2 ^ 64"
  shows "cb' = cb
    \<and> (\<forall>j < capacity cb. vmap trA' (a + aligned_header_size psize (page - 1) + j)
         = vmap trB' (b + aligned_header_size psize (page - 1) + j))
    \<and> (\<exists>l. run_res (shm_step (process_at 0 a trA') (process_at 1 b trB'))
             \<lparr>ring_state = M, accepted = [], delivered = []\<rparr> es = Inr l
        \<and> accepted l = delivered l
            @ rb_stored (ring_in (aligned_header_size psize (page - 1)) (capacity cb)
                (cells (ring_state l) (In_file (ino (osA trA (Shm_open nm True)))))))"
  using created_and_attached [OF assms] shm_runs
  by (auto simp: shm_ok_def maps_file_def process_at_def)

text \<open>A creator that gets one address, an attaching process that gets another.\<close>

definition grant_at :: "u64 \<Rightarrow> (nat \<Rightarrow> u8 list) \<Rightarrow> os" where
  "grant_at base files tr c = (case c of
      Mmap addr len prot flags fd off \<Rightarrow>
        \<lparr>rv = 0, err = 0, ptr = (if flags AND map_fixed \<noteq> 0 then addr else base), bytes = [], evs = [], ino = 0\<rparr>
    | Read_fd fd n \<Rightarrow> \<lparr>rv = 256, err = 0, ptr = 0,
        bytes = (case fd_file (view_of tr) fd of Shm_file i \<Rightarrow> files i | _ \<Rightarrow> []), evs = [], ino = 0\<rparr>
    | Shm_open nm creat \<Rightarrow> \<lparr>rv = 3, err = 0, ptr = 0, bytes = [], evs = [], ino = 70 + length nm\<rparr>
    | _ \<Rightarrow> grant_all tr c)"

definition demo_header :: cb_header where
  "demo_header = \<lparr>r_idx = 0, w_idx = 0, capacity = 4096, private_size = 16, page_mask = 4095, flag = 0, cb_name = [47, 97]\<rparr>"

lemma demo_create:
  "\<exists>tr. circular_buffer_create (grant_at 65536 (\<lambda>_. [])) 4096 (Some [47, 97]) 4096 16 0 [] = (Inr (Some (65536, demo_header)), tr)
    \<and> size_set (view_of tr) = [72 \<mapsto> 8192]"
proof -
  have "aligned_header_size 16 4095 = 4096"
    by code_simp
  then show ?thesis
    by (simp add: circular_buffer_create_def circular_buffer_fcreate_def store_name_def map_shared_memory_def syscall_eq
        grant_at_def grant_all_def demo_header_def mmap_flags map_failed_def view_of_def no_view_def Let_def)
qed

lemma demo_attach:
  assumes "decode_header (files 72) = demo_header"
  shows "\<exists>tr. circular_buffer_attach (grant_at 1048576 files) 4096 (Some [47, 97]) [] = (Inr (Some (1048576, demo_header)), tr)"
proof -
  have "aligned_header_size (private_size demo_header) (page_mask demo_header) = 4096" "capacity demo_header = 4096"
    by code_simp+
  then show ?thesis
    using assms by (simp add: circular_buffer_attach_def circular_buffer_fattach_def map_shared_memory_def syscall_eq
        grant_at_def grant_all_def mmap_flags view_of_def Let_def)
qed

theorem two_processes_share_the_ring_witness:
  "\<exists>M trA trB l. circular_buffer_create (grant_at 65536 (\<lambda>_. [])) 4096 (Some [47, 97]) 4096 16 0 [] = (Inr (Some (65536, demo_header)), trA)
    \<and> circular_buffer_attach (grant_at 1048576 (\<lambda>i. region (cells M (In_file i)) 0 256)) 4096 (Some [47, 97]) []
        = (Inr (Some (1048576, demo_header)), trB)
    \<and> run_res (shm_step (process_at 0 65536 trA) (process_at 1 1048576 trB)) \<lparr>ring_state = M, accepted = [], delivered = []\<rparr>
        [Fill (replicate 4000 1), Drain 4000, Fill [1, 2, 3], Drain 2] = Inr l
    \<and> accepted l = delivered l @ rb_stored (ring_in 4096 4096 (cells (ring_state l) (In_file 72)))"
proof -
  have h: "aligned_header_size 16 (4096 - 1) = 4096" "pow2 4096" "capacity demo_header = 4096" "(0 :: u8) \<notin> set [47, 97]"
    using pow2I [of 12] by (code_simp, simp_all add: demo_header_def)
  let ?M0 = "\<lparr>cells = (\<lambda>_ _. 0), file_len = (\<lambda>_. 8192)\<rparr>" and ?osA = "grant_at 65536 (\<lambda>_. [])"
  obtain trA where A: "circular_buffer_create ?osA 4096 (Some [47, 97]) 4096 16 0 [] = (Inr (Some (65536, demo_header)), trA)"
      "size_set (view_of trA) = [72 \<mapsto> 8192]"
    using demo_create by blast
  have sz: "sizes_hold trA ?M0"
    using A(2) by (simp add: sizes_hold_def)
  have ino: "ino (?osA [] (Shm_open [47, 97] True)) = 72"
    by (simp add: grant_at_def)
  obtain M where M: "shm_init_named (process_at 0 65536 trA) demo_header ?M0 = Inr M"
      "decode_header (region (cells M (In_file 72)) 0 256) = demo_header"
    using created(3) [OF A(1) sz h(2) _ h(4), of 0] h unfolding ino by auto
  let ?osB = "grant_at 1048576 (\<lambda>i. region (cells M (In_file i)) 0 256)"
  obtain trB where B: "circular_buffer_attach ?osB 4096 (Some [47, 97]) [] = (Inr (Some (1048576, demo_header)), trB)"
    using demo_attach [of "\<lambda>i. region (cells M (In_file i)) 0 256"] M(2) by blast
  have "reads_files ?osB M"
    by (simp add: reads_files_def grant_at_def)
  moreover have "ino (?osB [] (Shm_open [47, 97] False)) = ino (?osA [] (Shm_open [47, 97] True))"
    by (simp add: grant_at_def)
  ultimately show ?thesis
    using two_processes_share_the_ring [OF A(1) B _ sz M(1) _ h(2) _ h(4), of "[Fill (replicate 4000 1), Drain 4000, Fill [1, 2, 3], Drain 2]"]
      A(1) B h ino by auto
qed

section \<open>Attaching too early\<close>

text \<open>Between \<^verbatim>\<open>ftruncate\<close> and the header stores of the creator the object is there and reads as zeros. A
  process that attaches by name in that window does not get a null pointer: the assertion on the
  capacity fails.\<close>

theorem attach_during_create_asserts:
  assumes "0 \<le> rv (os tr (Shm_open nm False))" "t = tr @ [(Shm_open nm False, os tr (Shm_open nm False))]"
    and "rv (os t (Read_fd (rv (os tr (Shm_open nm False))) 256)) = 256"
    and "bytes (os t (Read_fd (rv (os tr (Shm_open nm False))) 256)) = replicate 256 0"
  shows "fst (circular_buffer_attach os page (Some nm) tr) = Inl Assertion"
proof -
  have "le_word (replicate n 0) = 0" for n
    by (induction n) simp_all
  then have "capacity (decode_header (replicate 256 0)) = 0"
    by (simp add: decode_header_def bytes_at_def)
  then show ?thesis
    using assms by (simp add: circular_buffer_attach_def circular_buffer_fattach_def map_shared_memory_def syscall_eq Let_def)
qed

theorem attach_during_create_asserts_witness:
  "fst (circular_buffer_attach (grant_at 65536 (\<lambda>_. replicate 256 0)) 4096 (Some [47, 97]) []) = Inl Assertion"
  by (rule attach_during_create_asserts [OF _ refl]) (simp_all add: grant_at_def grant_all_def view_of_def)

end
