(* ===== verification/Circular_Queue.thy ===== *)
theory Circular_Queue
  imports Utility Ring
begin

text \<open>
  \<^verbatim>\<open>src/circular_queue.h\<close>: the bounded queue of objects in storage from a user-supplied allocator.

  The accessor \<open>at\<close> of the class casts the buffer to an array of \<^emph>\<open>pointers\<close> and returns the
  pointer stored in the slot, not the address of the slot. The model keeps this: the heap has the
  pointer-sized words of memory and, apart from them, the constructed objects by address;
  \<open>storage\<close> says which addresses are the start of raw memory an object may be constructed in.
  Constructing an object overwrites the words it covers.
\<close>

section \<open>Heap and queue\<close>

record 'a qheap =
  words :: "u64 \<Rightarrow> u64 option"
  objs :: "u64 \<Rightarrow> 'a option"
  storage :: "u64 \<Rightarrow> bool"

record cqueue =
  q_capacity :: size_t
  q_mask :: size_t
  q_buffer :: u64
  q_ridx :: size_t
  q_widx :: size_t

definition q_new ::
    "(size_t \<Rightarrow> 'a qheap \<Rightarrow> u64 \<times> 'a qheap) \<Rightarrow> size_t \<Rightarrow> size_t \<Rightarrow> 'a qheap \<Rightarrow> (cqueue \<times> 'a qheap) res" where
  "q_new allocf sizeof cap h =
     bind_res (next_pow2 cap) (\<lambda>c.
       let (p, h) = allocf (c * sizeof) h
       in Inr (\<lparr>q_capacity = c, q_mask = c - 1, q_buffer = p, q_ridx = 0, q_widx = 0\<rparr>, h))"

definition q_size :: "cqueue \<Rightarrow> size_t" where
  "q_size q = q_widx q - q_ridx q"

definition q_full :: "cqueue \<Rightarrow> bool" where
  "q_full q \<longleftrightarrow> q_size q = q_capacity q"

definition q_empty :: "cqueue \<Rightarrow> bool" where
  "q_empty q \<longleftrightarrow> q_size q = 0"

definition q_at :: "cqueue \<Rightarrow> 'a qheap \<Rightarrow> size_t \<Rightarrow> u64 res" where
  "q_at q h idx =
     (if q_buffer q = 0 then Inl Assertion
      else case words h (q_buffer q + 8 * (idx AND q_mask q)) of
        None \<Rightarrow> Inl Undefined
      | Some p \<Rightarrow> Inr p)"

text \<open>Placement \<^verbatim>\<open>new\<close> and the destructor call.\<close>

definition construct :: "size_t \<Rightarrow> u64 \<Rightarrow> 'a \<Rightarrow> 'a qheap \<Rightarrow> 'a qheap res" where
  "construct sizeof p x h =
     (if p = 0 \<or> \<not> storage h p then Inl Undefined
      else Inr (h\<lparr>objs := (objs h)(p := Some x),
                  words := \<lambda>a. if a - p < sizeof then None else words h a\<rparr>))"

definition destruct :: "u64 \<Rightarrow> 'a qheap \<Rightarrow> 'a qheap res" where
  "destruct p h =
     (case objs h p of
        None \<Rightarrow> Inl Undefined
      | Some x \<Rightarrow> Inr (h\<lparr>objs := (objs h)(p := None)\<rparr>))"

section \<open>Operations\<close>

definition q_push ::
    "size_t \<Rightarrow> 'a \<Rightarrow> cqueue \<Rightarrow> 'a qheap \<Rightarrow> (bool \<times> cqueue \<times> 'a qheap) res" where
  "q_push sizeof x q h =
     (if q_buffer q = 0 then Inl Assertion
      else if q_full q then Inr (False, q, h)
      else bind_res (q_at q h (q_widx q)) (\<lambda>p.
             bind_res (construct sizeof p x h) (\<lambda>h.
               Inr (True, q\<lparr>q_widx := q_widx q + 1\<rparr>, h))))"

definition q_pop :: "cqueue \<Rightarrow> 'a qheap \<Rightarrow> (cqueue \<times> 'a qheap) res" where
  "q_pop q h =
     (if q_buffer q = 0 then Inl Assertion
      else if q_empty q then Inr (q, h)
      else bind_res (q_at q h (q_ridx q)) (\<lambda>p.
             bind_res (destruct p h) (\<lambda>h. Inr (q\<lparr>q_ridx := q_ridx q + 1\<rparr>, h))))"

definition q_front :: "cqueue \<Rightarrow> 'a qheap \<Rightarrow> 'a res" where
  "q_front q h =
     (if q_empty q then Inl Assertion
      else bind_res (q_at q h (q_ridx q)) (\<lambda>p.
             case objs h p of None \<Rightarrow> Inl Undefined | Some x \<Rightarrow> Inr x))"

lemma q_pop_size:
  assumes "q_pop q h = Inr (q', h')" "\<not> q_empty q"
  shows "unat (q_size q') = unat (q_size q) - 1" "0 < unat (q_size q)"
proof -
  have "q' = q\<lparr>q_ridx := q_ridx q + 1\<rparr>"
    using assms by (auto simp: q_pop_def bind_res_Inr split: if_splits)
  then have "q_size q' = q_size q - 1"
    by (simp add: q_size_def)
  moreover have nz: "q_size q \<noteq> 0"
    using assms(2) by (simp add: q_empty_def)
  ultimately show "unat (q_size q') = unat (q_size q) - 1"
    by (simp add: unat_minus_one)
  show "0 < unat (q_size q)"
    using nz by (simp add: unat_gt_0)
qed

lemma q_pop_less: "q_pop q h = Inr (q', h') \<Longrightarrow> \<not> q_empty q \<Longrightarrow> unat (q_size q') < unat (q_size q)"
  using q_pop_size [of q h q' h'] by simp

function q_pop_all :: "cqueue \<Rightarrow> 'a qheap \<Rightarrow> (cqueue \<times> 'a qheap) res" where
  "q_pop_all q h =
     (if q_empty q then Inr (q, h)
      else case q_pop q h of Inl e \<Rightarrow> Inl e | Inr (q', h') \<Rightarrow> q_pop_all q' h')"
  by pat_completeness auto
termination
  by (relation "measure (\<lambda>(q, h). unat (q_size q))") (auto dest: q_pop_less)

declare q_pop_all.simps [simp del]

definition q_clear :: "(u64 \<Rightarrow> 'a qheap \<Rightarrow> 'a qheap) \<Rightarrow> cqueue \<Rightarrow> 'a qheap \<Rightarrow> (cqueue \<times> 'a qheap) res" where
  "q_clear deallocf q h =
     (if q_buffer q = 0 then Inr (q, h)
      else bind_res (q_pop_all q h) (\<lambda>(q, h).
             Inr (q\<lparr>q_capacity := 0, q_mask := 0, q_buffer := 0\<rparr>, deallocf (q_buffer q) h)))"

text \<open>Moving: the constructor leaves the source emptied; the assignment clears the target first.\<close>

definition q_moved_from :: "cqueue \<Rightarrow> cqueue" where
  "q_moved_from q = q\<lparr>q_capacity := 0, q_mask := 0, q_buffer := 0, q_ridx := 0, q_widx := 0\<rparr>"

definition q_move_construct :: "cqueue \<Rightarrow> cqueue \<times> cqueue" where
  "q_move_construct other = (other, q_moved_from other)"

text \<open>Of two queue objects known by their addresses; assigning one to itself does nothing.\<close>

definition q_move_assign ::
    "(u64 \<Rightarrow> 'a qheap \<Rightarrow> 'a qheap) \<Rightarrow> u64 \<Rightarrow> u64 \<Rightarrow> (u64 \<Rightarrow> cqueue) \<Rightarrow> 'a qheap \<Rightarrow>
     ((u64 \<Rightarrow> cqueue) \<times> 'a qheap) res" where
  "q_move_assign deallocf this other qs h =
     (if this \<noteq> other
      then bind_res (q_clear deallocf (qs this) h)
        (\<lambda>(_, h). Inr (qs(this := qs other, other := q_moved_from (qs other)), h))
      else Inr (qs, h))"

definition q_destroy :: "(u64 \<Rightarrow> 'a qheap \<Rightarrow> 'a qheap) \<Rightarrow> cqueue \<Rightarrow> 'a qheap \<Rightarrow> 'a qheap res" where
  "q_destroy deallocf q h = bind_res (q_clear deallocf q h) (\<lambda>(_, h). Inr h)"

section \<open>The pointer table\<close>

text \<open>C36: the queue never stores a pointer into its buffer, yet every access goes through one: on a
  buffer whose words are indeterminate (as \<^verbatim>\<open>malloc\<close> delivers them) or zero (as fresh pages are),
  the very first push is undefined behaviour, whatever the element.\<close>

theorem q_first_push_undefined:
  assumes "q_new allocf sizeof cap h = Inr (q, h')"
    and "q_buffer q \<noteq> 0" "words h' (q_buffer q) \<in> {None, Some 0}"
  shows "q_push sizeof x q h' = Inl Undefined"
proof -
  obtain c where c: "next_pow2 cap = Inr c" "q_capacity q = c" "q_mask q = c - 1" "q_ridx q = 0" "q_widx q = 0"
    using assms(1) by (auto simp: q_new_def bind_res_Inr Let_def split_beta)
  have "c \<noteq> 0"
    using next_pow2_nonzero [OF c(1)] .
  then show ?thesis
    using assms(2,3) c
    by (auto simp: q_push_def q_full_def q_size_def q_at_def construct_def)
qed

definition zero_heap :: "nat qheap" where
  "zero_heap = \<lparr>words = \<lambda>a. if a - 4096 < 64 then Some 0 else None, objs = \<lambda>_. None, storage = \<lambda>_. True\<rparr>"

theorem q_first_push_undefined_witness:
  "\<exists>q. q_new (\<lambda>n h. (4096, h)) 8 8 zero_heap = Inr (q, zero_heap)
    \<and> q_push 8 5 q zero_heap = Inl Undefined"
proof -
  have "next_pow2 8 = Inr 8"
    by code_simp
  then have new: "q_new (\<lambda>n h. (4096, h)) 8 8 zero_heap =
      Inr (\<lparr>q_capacity = 8, q_mask = 7, q_buffer = 4096, q_ridx = 0, q_widx = 0\<rparr>, zero_heap)"
    by (simp add: q_new_def)
  then show ?thesis
    using q_first_push_undefined [OF new, where x = 5] by (simp add: zero_heap_def)
qed

section \<open>The queue over a prepared table\<close>

text \<open>
  If the allocator does hand out a buffer whose words point to distinct raw objects outside the
  buffer, the index arithmetic of the class makes a correct bounded queue. \<open>tbl\<close> is that table.
\<close>

definition table_ok :: "size_t \<Rightarrow> u64 list \<Rightarrow> cqueue \<Rightarrow> 'a qheap \<Rightarrow> bool" where
  "table_ok sizeof tbl q h \<longleftrightarrow>
     length tbl = unat (q_capacity q) \<and> distinct tbl \<and> 0 \<notin> set tbl
     \<and> (\<forall>p \<in> set tbl. storage h p)
     \<and> (\<forall>i < length tbl. words h (q_buffer q + 8 * of_nat i) = Some (tbl ! i))
     \<and> (\<forall>i < length tbl. \<forall>p \<in> set tbl. \<not> q_buffer q + 8 * of_nat i - p < sizeof)"

definition cells :: "u64 list \<Rightarrow> 'a qheap \<Rightarrow> 'a option list" where
  "cells tbl h = map (objs h) tbl"

definition live_cells :: "u64 list \<Rightarrow> cqueue \<Rightarrow> 'a qheap \<Rightarrow> 'a option list" where
  "live_cells tbl q h = ring_read (cells tbl h) (unat (q_ridx q)) (unat (q_size q))"

definition free_cells :: "u64 list \<Rightarrow> cqueue \<Rightarrow> 'a qheap \<Rightarrow> 'a option list" where
  "free_cells tbl q h =
     ring_read (cells tbl h) (unat (q_ridx q) + unat (q_size q)) (unat (q_capacity q) - unat (q_size q))"

definition q_items :: "u64 list \<Rightarrow> cqueue \<times> 'a qheap \<Rightarrow> 'a list" where
  "q_items tbl s = map the (live_cells tbl (fst s) (snd s))"

definition queue_ok :: "size_t \<Rightarrow> u64 list \<Rightarrow> cqueue \<times> 'a qheap \<Rightarrow> bool" where
  "queue_ok sizeof tbl s =
     (case s of (q, h) \<Rightarrow>
        q_buffer q \<noteq> 0 \<and> pow2 (q_capacity q) \<and> q_mask q = q_capacity q - 1
        \<and> q_size q \<le> q_capacity q \<and> table_ok sizeof tbl q h
        \<and> None \<notin> set (live_cells tbl q h) \<and> set (free_cells tbl q h) \<subseteq> {None})"

definition slot :: "u64 list \<Rightarrow> nat \<Rightarrow> u64" where
  "slot tbl pos = tbl ! (pos mod length tbl)"

lemma length_cells [simp]: "length (cells tbl h) = length tbl"
  by (simp add: cells_def)

lemma table_pos: "queue_ok sizeof tbl (q, h) \<Longrightarrow> 0 < length tbl"
  using pow2_pos [of "q_capacity q"] by (simp add: queue_ok_def table_ok_def)

lemma q_at_table:
  assumes "q_buffer q \<noteq> 0" "pow2 (q_capacity q)" "q_mask q = q_capacity q - 1" "table_ok sizeof tbl q h"
  shows "q_at q h idx = Inr (slot tbl (unat idx))"
proof -
  have len: "length tbl = unat (q_capacity q)"
    and w: "\<And>i. i < length tbl \<Longrightarrow> words h (q_buffer q + 8 * of_nat i) = Some (tbl ! i)"
    using assms(4) by (auto simp: table_ok_def)
  have "unat (idx AND q_mask q) = unat idx mod length tbl"
    by (simp add: assms(3) and_mask_mod [OF assms(2)] len)
  then have "idx AND q_mask q = of_nat (unat idx mod length tbl)"
    by (metis of_nat_unat ucast_id)
  moreover have "0 < length tbl"
    using pow2_pos [OF assms(2)] len by simp
  ultimately show ?thesis
    using w [of "unat idx mod length tbl"] assms(1) by (simp add: q_at_def slot_def)
qed

lemma q_at_slot:
  assumes "queue_ok sizeof tbl (q, h)"
  shows "q_at q h idx = Inr (slot tbl (unat idx))"
  by (rule q_at_table) (use assms in \<open>auto simp: queue_ok_def\<close>)

lemma slot_mem: "0 < length tbl \<Longrightarrow> slot tbl pos \<in> set tbl"
  by (simp add: slot_def)

lemma slot_mod: "pos mod length tbl = pos' mod length tbl \<Longrightarrow> slot tbl pos = slot tbl pos'"
  by (simp add: slot_def)

lemma cells_update:
  assumes "distinct tbl" "0 < length tbl" "objs h' = (objs h)(slot tbl pos := v)"
  shows "cells tbl h' = ring_write (cells tbl h) pos [v]"
proof (rule nth_equalityI)
  fix i
  assume "i < length (cells tbl h')"
  then have i: "i < length tbl"
    by simp
  have "tbl ! i = slot tbl pos \<longleftrightarrow> i = pos mod length tbl"
    using assms(1,2) i by (simp add: slot_def nth_eq_iff_index_eq)
  then show "cells tbl h' ! i = ring_write (cells tbl h) pos [v] ! i"
    using i assms(3) by (simp add: cells_def nth_list_update)
qed (simp add: cells_def)

lemma size_mod:
  assumes "queue_ok sizeof tbl (q, h)"
  shows "(unat (q_ridx q) + unat (q_size q)) mod length tbl = unat (q_widx q) mod length tbl"
proof -
  have p: "pow2 (q_capacity q)" and l: "length tbl = unat (q_capacity q)"
    using assms by (auto simp: queue_ok_def table_ok_def)
  show ?thesis
    unfolding l index_mod_add [OF p] by (simp add: q_size_def)
qed

text \<open>Overwriting a cell of a ring: seen from the live part and from the free part.\<close>

lemma ring_append_cell:
  assumes "n < length xs"
  shows "ring_read (ring_write xs (s + n) [v]) s (Suc n) = ring_read xs s n @ [v]"
  using ring_read_write [of n "[v]" xs s] assms by simp

lemma ring_drop_cell:
  assumes "n < length xs"
  shows "ring_read (ring_write xs s [v]) (Suc s) n = drop 1 (ring_read xs s (Suc n))"
proof -
  have "ring_write xs s [v] = ring_write xs (s + length xs) [v]"
    by (rule ring_write_mod) simp
  moreover have "ring_read (ring_write xs (s + length xs) [v]) (Suc s) n = ring_read xs (Suc s) n"
    by (rule ring_read_write_other) (use assms in auto)
  ultimately show ?thesis
    by (simp only: drop_ring_read) simp
qed


section \<open>Push and pop refine a bounded list\<close>

lemma queue_okD:
  assumes "queue_ok sizeof tbl (q, h)"
  shows "q_buffer q \<noteq> 0" "pow2 (q_capacity q)" "q_mask q = q_capacity q - 1"
    "length tbl = unat (q_capacity q)" "distinct tbl" "0 \<notin> set tbl"
    "unat (q_size q) \<le> length tbl" "p \<in> set tbl \<Longrightarrow> storage h p"
    "None \<notin> set (live_cells tbl q h)" "set (free_cells tbl q h) \<subseteq> {None}"
  using assms by (auto simp: queue_ok_def table_ok_def word_le_nat_alt)

lemma queue_ok_table: "queue_ok sizeof tbl (q, h) \<Longrightarrow> table_ok sizeof tbl q h"
  by (simp add: queue_ok_def)

lemma table_ok_objs:
  "table_ok sizeof tbl q h \<Longrightarrow> table_ok sizeof tbl q (h\<lparr>objs := os\<rparr>)"
  by (simp add: table_ok_def)

lemma table_ok_construct:
  assumes "table_ok sizeof tbl q h" "p \<in> set tbl"
  shows "table_ok sizeof tbl q (h\<lparr>objs := os, words := \<lambda>a. if a - p < sizeof then None else words h a\<rparr>)"
  using assms by (simp add: table_ok_def)

lemma table_ok_index:
  "table_ok sizeof tbl (q\<lparr>q_widx := w, q_ridx := r\<rparr>) h = table_ok sizeof tbl q h"
  by (simp add: table_ok_def)

lemma q_size_push: "\<not> q_full q \<Longrightarrow> q_size q \<le> q_capacity q \<Longrightarrow>
    unat (q_size (q\<lparr>q_widx := q_widx q + 1\<rparr>)) = Suc (unat (q_size q)) \<and> q_size q < q_capacity q"
proof -
  assume a: "\<not> q_full q" "q_size q \<le> q_capacity q"
  then have lt: "q_size q < q_capacity q"
    by (simp add: q_full_def)
  then have "unat (q_size q) + 1 < 2 ^ 64"
    using unat_less_2p64 [of "q_capacity q"] by (simp add: word_less_nat_alt)
  then have "unat (q_size q + 1) = Suc (unat (q_size q))"
    by (simp add: unat_word_ariths)
  then show ?thesis
    using lt by (simp add: q_size_def algebra_simps)
qed

datatype 'a q_event = QPush 'a | QPop

fun q_step :: "size_t \<Rightarrow> cqueue \<times> 'a qheap \<Rightarrow> 'a q_event \<Rightarrow> (cqueue \<times> 'a qheap) res" where
  "q_step sizeof (q, h) (QPush x) = bind_res (q_push sizeof x q h) (\<lambda>(_, s). Inr s)"
| "q_step sizeof (q, h) QPop = q_pop q h"

fun bounded_step :: "nat \<Rightarrow> 'a list \<Rightarrow> 'a q_event \<Rightarrow> 'a list" where
  "bounded_step cap xs (QPush x) = (if length xs < cap then xs @ [x] else xs)"
| "bounded_step cap xs QPop = tl xs"

lemma live_mem: "i < unat (q_size q) \<Longrightarrow> None \<notin> set (live_cells tbl q h) \<Longrightarrow>
    \<exists>x. live_cells tbl q h ! i = Some x"
  by (metis length_ring_read live_cells_def not_None_eq nth_mem)

lemma length_q_items [simp]: "length (q_items tbl (q, h)) = unat (q_size q)"
  by (simp add: q_items_def live_cells_def)

lemma q_full_iff: "queue_ok sizeof tbl (q, h) \<Longrightarrow> q_full q \<longleftrightarrow> length (q_items tbl (q, h)) = length tbl"
  by (simp add: q_full_def queue_okD(4) word_unat_eq_iff)

lemma q_empty_iff: "q_empty q \<longleftrightarrow> q_items tbl (q, h) = []"
  by (simp add: q_empty_def flip: length_0_conv) (simp add: unat_eq_0)

lemma q_push_ok:
  assumes ok: "queue_ok sizeof tbl (q, h)" and nf: "\<not> q_full q"
  shows "\<exists>q' h'. q_push sizeof x q h = Inr (True, q', h') \<and> queue_ok sizeof tbl (q', h')
    \<and> q_items tbl (q', h') = q_items tbl (q, h) @ [x]"
proof -
  let ?p = "slot tbl (unat (q_widx q))" and ?q = "q\<lparr>q_widx := q_widx q + 1\<rparr>"
  let ?h = "h\<lparr>objs := (objs h)(?p := Some x), words := \<lambda>a. if a - ?p < sizeof then None else words h a\<rparr>"
  let ?n = "unat (q_size q)" and ?r = "unat (q_ridx q)" and ?w = "unat (q_widx q)"
  note D = queue_okD [OF ok]
  have mem: "?p \<in> set tbl"
    by (rule slot_mem [OF table_pos [OF ok]])
  have n: "unat (q_size ?q) = Suc ?n" "?n < length tbl"
    using q_size_push [OF nf] ok D(4) by (auto simp: queue_ok_def word_less_nat_alt)
  have push: "q_push sizeof x q h = Inr (True, ?q, ?h)"
    using mem D(1,6,8) nf by (auto simp: q_push_def q_at_slot [OF ok] construct_def)
  have c: "cells tbl ?h = ring_write (cells tbl h) (?r + ?n) [Some x]"
  proof -
    have "cells tbl ?h = ring_write (cells tbl h) ?w [Some x]"
      by (rule cells_update) (use D(5) table_pos [OF ok] in auto)
    also have "\<dots> = ring_write (cells tbl h) (?r + ?n) [Some x]"
      by (rule ring_write_mod) (simp add: size_mod [OF ok])
    finally show ?thesis .
  qed
  have live: "live_cells tbl ?q ?h = live_cells tbl q h @ [Some x]"
    unfolding live_cells_def n(1) c using n(2) by (simp add: ring_append_cell del: ring_write.simps)
  have "free_cells tbl ?q ?h = drop 1 (free_cells tbl q h)"
  proof -
    have "unat (q_capacity q) - ?n = Suc (unat (q_capacity q) - Suc ?n)"
      using n(2) D(4) by simp
    then show ?thesis
      unfolding free_cells_def n(1) c using n(2) D(4) by (simp add: ring_drop_cell del: ring_write.simps)
  qed
  then have "set (free_cells tbl ?q ?h) \<subseteq> {None}"
    using D(10) set_drop_subset [of 1 "free_cells tbl q h"] by auto
  moreover have "table_ok sizeof tbl ?q ?h"
    using table_ok_construct [OF queue_ok_table [OF ok] mem] by (simp add: table_ok_def)
  ultimately have "queue_ok sizeof tbl (?q, ?h)"
    using D n live by (simp add: queue_ok_def word_le_nat_alt)
  then show ?thesis
    using push live by (auto simp: q_items_def)
qed

lemma q_pop_ok:
  assumes ok: "queue_ok sizeof tbl (q, h)" and ne: "\<not> q_empty q"
  shows "\<exists>q' h'. q_pop q h = Inr (q', h') \<and> queue_ok sizeof tbl (q', h')
    \<and> q_items tbl (q', h') = tl (q_items tbl (q, h))
    \<and> (\<forall>p. p \<notin> set tbl \<longrightarrow> objs h' p = objs h p)"
proof -
  let ?p = "slot tbl (unat (q_ridx q))" and ?q = "q\<lparr>q_ridx := q_ridx q + 1\<rparr>"
  let ?h = "h\<lparr>objs := (objs h)(?p := None)\<rparr>"
  let ?r = "unat (q_ridx q)" and ?n = "unat (q_size q)"
  note D = queue_okD [OF ok]
  obtain m where m: "?n = Suc m"
    using ne by (metis not0_implies_Suc q_empty_def unat_eq_0)
  have sz: "unat (q_size ?q) = m"
  proof -
    have "q_size ?q = q_size q - 1" "q_size q \<noteq> 0"
      using ne by (simp_all add: q_size_def q_empty_def)
    then show ?thesis
      using m by (simp add: unat_minus_one)
  qed
  have full: "objs h ?p = live_cells tbl q h ! 0"
    using m table_pos [OF ok] by (simp add: live_cells_def nth_ring_read cells_def slot_def)
  then have pop: "q_pop q h = Inr (?q, ?h)"
    using live_mem [of 0 q tbl h] m D(1,9) ne
    by (auto simp: q_pop_def q_at_slot [OF ok] destruct_def)
  have r: "unat (q_ridx q + 1) mod length tbl = Suc ?r mod length tbl"
    using index_mod_add [OF D(2), of "q_ridx q" 1] by (simp add: D(4))
  have c: "cells tbl ?h = ring_write (cells tbl h) ?r [None]"
    by (rule cells_update) (use D(5) table_pos [OF ok] in auto)
  have live: "live_cells tbl ?q ?h = drop 1 (live_cells tbl q h)"
  proof -
    have "live_cells tbl ?q ?h = ring_read (cells tbl ?h) (Suc ?r) m"
      unfolding live_cells_def sz by (rule ring_read_mod) (simp add: r)
    then show ?thesis
      unfolding live_cells_def m c using D(7) m by (simp add: ring_drop_cell del: ring_write.simps)
  qed
  have free: "free_cells tbl ?q ?h = free_cells tbl q h @ [None]"
  proof -
    have k: "unat (q_capacity q) - m = Suc (length tbl - ?n)" "?r + length tbl = ?r + ?n + (length tbl - ?n)"
      using D(4,7) m by simp_all
    have c': "cells tbl ?h = ring_write (cells tbl h) (?r + ?n + (length tbl - ?n)) [None]"
      unfolding c k(2) [symmetric] by (rule ring_write_mod) simp
    have "free_cells tbl ?q ?h = ring_read (cells tbl ?h) (?r + ?n) (Suc (length tbl - ?n))"
    proof -
      have "ring_read (cells tbl ?h) (unat (q_ridx ?q) + m) k = ring_read (cells tbl ?h) (?r + ?n) k" for k
      proof (rule ring_read_mod)
        show "(unat (q_ridx ?q) + m) mod length (cells tbl ?h) = (?r + ?n) mod length (cells tbl ?h)"
          using mod_add_cong [OF r refl, of m] by (simp add: m)
      qed
      then show ?thesis
        unfolding free_cells_def sz using k(1) by simp
    qed
    moreover have "ring_read (cells tbl ?h) (?r + ?n) (Suc (length tbl - ?n))
        = ring_read (cells tbl h) (?r + ?n) (length tbl - ?n) @ [None]"
      unfolding c' by (rule ring_append_cell) (use m D(7) in simp)
    moreover have "length tbl - ?n = unat (q_capacity q) - ?n"
      using D(4) by simp
    ultimately show ?thesis
      unfolding free_cells_def by (simp only:)
  qed
  have "queue_ok sizeof tbl (?q, ?h)"
    using ok D m sz live free set_drop_subset [of 1 "live_cells tbl q h"] table_ok_objs [of sizeof tbl q h]
    by (auto simp: queue_ok_def word_le_nat_alt table_ok_def)
  then show ?thesis
    using pop live slot_mem [OF table_pos [OF ok]] by (auto simp: q_items_def drop_Suc map_tl)
qed

lemma q_front_ok:
  assumes ok: "queue_ok sizeof tbl (q, h)" and ne: "\<not> q_empty q"
  shows "q_front q h = Inr (hd (q_items tbl (q, h)))"
proof -
  have n: "0 < unat (q_size q)"
    using ne by (simp add: q_empty_def unat_gt_0)
  have full: "objs h (slot tbl (unat (q_ridx q))) = live_cells tbl q h ! 0"
    using n table_pos [OF ok] by (simp add: live_cells_def nth_ring_read cells_def slot_def)
  obtain x where x: "live_cells tbl q h ! 0 = Some x"
    using live_mem [OF n] queue_okD(9) [OF ok] by blast
  moreover have "hd (q_items tbl (q, h)) = the (live_cells tbl q h ! 0)"
    using n by (simp add: q_items_def hd_map live_cells_def hd_conv_nth flip: length_0_conv)
  ultimately show ?thesis
    using ne full by (simp add: q_front_def q_at_slot [OF ok])
qed

lemma q_step_safe:
  assumes "queue_ok sizeof tbl s"
  shows "\<exists>s'. q_step sizeof s e = Inr s' \<and> queue_ok sizeof tbl s'
    \<and> q_items tbl s' = bounded_step (length tbl) (q_items tbl s) e"
proof -
  obtain q h where s: "s = (q, h)"
    by (cases s)
  have ok: "queue_ok sizeof tbl (q, h)"
    using assms s by simp
  have le: "length (q_items tbl (q, h)) \<le> length tbl"
    using queue_okD(7) [OF ok] by simp
  show ?thesis
  proof (cases e)
    case (QPush x)
    show ?thesis
    proof (cases "q_full q")
      case True
      then have "q_push sizeof x q h = Inr (False, q, h)"
        using queue_okD(1) [OF ok] by (simp add: q_push_def)
      then show ?thesis
        using True ok q_full_iff [OF ok] by (simp add: s QPush)
    next
      case False
      then show ?thesis
        using q_push_ok [OF ok False, of x] q_full_iff [OF ok] le by (auto simp: s QPush)
    qed
  next
    case QPop
    show ?thesis
    proof (cases "q_empty q")
      case True
      then show ?thesis
        using ok queue_okD(1) [OF ok] q_empty_iff [of q tbl h] by (simp add: s QPop q_pop_def)
    next
      case False
      then show ?thesis
        using q_pop_ok [OF ok False] by (auto simp: s QPop)
    qed
  qed
qed

interpretation cq: safe_steps "q_step sizeof" "queue_ok sizeof tbl" "q_items tbl" "bounded_step (length tbl)"
  for sizeof tbl
  by unfold_locales (rule q_step_safe)

text \<open>C18: given a buffer that is a table of distinct raw objects, every sequence of pushes and pops
  runs without undefined behaviour and without a failed assertion, and what is queued is what the
  bounded first-in first-out list of the same pushes and pops holds, over index wrap-around too.\<close>

theorem circular_queue_refines_bounded_list:
  assumes "queue_ok sizeof tbl s"
  shows "\<exists>s'. run_res (q_step sizeof) s es = Inr s' \<and> queue_ok sizeof tbl s'
    \<and> q_items tbl s' = run (bounded_step (length tbl)) (q_items tbl s) es"
  by (rule cq.run_safe [OF assms])


definition small_queue :: "cqueue \<times> nat qheap" where
  "small_queue =
     (\<lparr>q_capacity = 2, q_mask = 1, q_buffer = 4096, q_ridx = - 1, q_widx = - 1\<rparr>,
      \<lparr>words = \<lambda>a. if a = 4096 then Some 1000 else if a = 4104 then Some 2000 else None,
       objs = \<lambda>_. None, storage = \<lambda>a. a = 1000 \<or> a = 2000\<rparr>)"

lemma small_queue_ok: "queue_ok 8 [1000, 2000] small_queue"
proof -
  have "pow2 2"
    using pow2I [of 1] by simp
  moreover have "(\<forall>i < Suc (Suc 0). P i) \<longleftrightarrow> P 0 \<and> P (Suc 0)" for P
    by (auto simp: less_Suc_eq)
  moreover have "[None, None] ! (k mod Suc (Suc 0)) = (None :: nat option)" for k
    by (cases "k mod Suc (Suc 0) = 0") (simp_all add: mod_Suc)
  ultimately show ?thesis
    by (auto simp: small_queue_def queue_ok_def table_ok_def live_cells_def free_cells_def cells_def
        q_size_def ring_read_def)
qed

lemma small_queue_items: "q_items [1000, 2000] small_queue = []"
  by (simp add: q_items_def small_queue_def live_cells_def q_size_def)

text \<open>The indices start at the last value of \<^verbatim>\<open>size_t\<close>: the second push wraps them.\<close>

theorem circular_queue_refines_bounded_list_witness:
  "\<exists>s. run_res (q_step 8) small_queue [QPush 7, QPush 8, QPush 9, QPop] = Inr s
    \<and> q_items [1000, 2000] s = [8]"
  using circular_queue_refines_bounded_list [OF small_queue_ok, of "[QPush 7, QPush 8, QPush 9, QPop]"]
  by (auto simp: small_queue_items)

text \<open>On a well-formed queue, push returns false exactly when \<open>capacity\<close> elements are queued and
  then changes nothing; after a successful push the element is in the queue; \<open>front\<close> never faults on
  a non-empty queue and returns the oldest element, and on an empty one its assertion fails.\<close>

theorem circular_queue_push_front:
  assumes "queue_ok sizeof tbl (q, h)"
  shows "(length (q_items tbl (q, h)) = unat (q_capacity q) \<longrightarrow> q_push sizeof x q h = Inr (False, q, h))
    \<and> (length (q_items tbl (q, h)) < unat (q_capacity q) \<longrightarrow>
        (\<exists>q' h'. q_push sizeof x q h = Inr (True, q', h')
          \<and> q_items tbl (q', h') = q_items tbl (q, h) @ [x]
          \<and> q_front q' h' = Inr (hd (q_items tbl (q, h) @ [x]))))
    \<and> q_front q h = (case q_items tbl (q, h) of [] \<Rightarrow> Inl Assertion | y # _ \<Rightarrow> Inr y)"
proof (intro conjI impI)
  assume "length (q_items tbl (q, h)) = unat (q_capacity q)"
  then show "q_push sizeof x q h = Inr (False, q, h)"
    using q_full_iff [OF assms] queue_okD(1,4) [OF assms] by (simp add: q_push_def)
next
  assume "length (q_items tbl (q, h)) < unat (q_capacity q)"
  then have "\<not> q_full q"
    using q_full_iff [OF assms] queue_okD(4) [OF assms] by simp
  then obtain q' h' where p: "q_push sizeof x q h = Inr (True, q', h')" "queue_ok sizeof tbl (q', h')"
      "q_items tbl (q', h') = q_items tbl (q, h) @ [x]"
    using q_push_ok [OF assms, of x] by blast
  then have "\<not> q_empty q'"
    using q_empty_iff [of q' tbl h'] by simp
  then show "\<exists>q' h'. q_push sizeof x q h = Inr (True, q', h')
      \<and> q_items tbl (q', h') = q_items tbl (q, h) @ [x]
      \<and> q_front q' h' = Inr (hd (q_items tbl (q, h) @ [x]))"
    using p q_front_ok [OF p(2)] by auto
next
  show "q_front q h = (case q_items tbl (q, h) of [] \<Rightarrow> Inl Assertion | y # _ \<Rightarrow> Inr y)"
  proof (cases "q_items tbl (q, h)")
    case Nil
    then show ?thesis
      using q_empty_iff [of q tbl h] by (simp add: q_front_def)
  next
    case (Cons y ys)
    then show ?thesis
      using q_front_ok [OF assms] q_empty_iff [of q tbl h] by simp
  qed
qed

theorem circular_queue_push_front_witness:
  "\<exists>q' h'. q_push 8 5 (fst small_queue) (snd small_queue) = Inr (True, q', h')
    \<and> q_items [1000, 2000] (q', h') = [5] \<and> q_front q' h' = Inr 5"
proof -
  have "queue_ok 8 [1000, 2000] (fst small_queue, snd small_queue)"
    using small_queue_ok by simp
  moreover have "q_items [1000, 2000] (fst small_queue, snd small_queue) = []"
    by (simp add: q_items_def small_queue_def live_cells_def q_size_def)
  moreover have "q_capacity (fst small_queue) = 2"
    by (simp add: small_queue_def)
  ultimately show ?thesis
    using circular_queue_push_front [of 8 "[1000, 2000]" "fst small_queue" "snd small_queue" 5] by auto
qed

lemma set_ring_read_all: "set (ring_read xs s (length xs)) = set xs"
proof (intro equalityI subsetI)
  fix x
  assume "x \<in> set xs"
  then obtain i where i: "i < length xs" "x = xs ! i"
    by (auto simp: in_set_conv_nth)
  define k where "k = (i + (length xs - s mod length xs)) mod length xs"
  have "(s + k) mod length xs = (s mod length xs + (i + (length xs - s mod length xs))) mod length xs"
    by (simp add: k_def mod_simps)
  also have "s mod length xs + (i + (length xs - s mod length xs)) = i + length xs"
    using i mod_less_divisor [of "length xs" s] by linarith
  finally have "xs ! ((s + k) mod length xs) = x"
    using i by simp
  moreover have "k < length xs"
    using i unfolding k_def by (intro mod_less_divisor) linarith
  ultimately show "x \<in> set (ring_read xs s (length xs))"
    by (auto simp: ring_read_def)
next
  fix x
  assume "x \<in> set (ring_read xs s (length xs))"
  then obtain i where i: "i < length xs" "x = xs ! ((s + i) mod length xs)"
    by (auto simp: ring_read_def)
  then have "(s + i) mod length xs < length xs"
    by (intro mod_less_divisor) linarith
  then show "x \<in> set xs"
    using i by simp
qed

lemma q_pop_all_ok:
  assumes "queue_ok sizeof tbl (q, h)"
  shows "\<exists>q' h'. q_pop_all q h = Inr (q', h') \<and> queue_ok sizeof tbl (q', h') \<and> q_empty q'
    \<and> q_buffer q' = q_buffer q \<and> (\<forall>p. p \<notin> set tbl \<longrightarrow> objs h' p = objs h p)"
  using assms
proof (induction q h rule: q_pop_all.induct)
  case (1 q h)
  show ?case
  proof (cases "q_empty q")
    case True
    then show ?thesis
      using 1 by (simp add: q_pop_all.simps [of q h])
  next
    case False
    obtain q' h' where p: "q_pop q h = Inr (q', h')" "queue_ok sizeof tbl (q', h')"
        "\<forall>p. p \<notin> set tbl \<longrightarrow> objs h' p = objs h p"
      using q_pop_ok [OF "1.prems" False] by blast
    moreover have "q_buffer q' = q_buffer q"
      using p(1) by (auto simp: q_pop_def bind_res_Inr split: if_splits)
    ultimately show ?thesis
      using "1.IH" [OF False p(1) refl] False by (simp add: q_pop_all.simps [of q h])
  qed
qed

text \<open>\<open>clear\<close> (and so the destructor) terminates without a fault on a well-formed queue, destroys
  every element the queue holds, touches no other object, returns exactly the buffer to the
  deallocator and leaves the queue without one, so that a second \<open>clear\<close> does nothing.\<close>

theorem circular_queue_clear:
  assumes "queue_ok sizeof tbl (q, h)"
  shows "\<exists>q' h'. q_clear deallocf q h = Inr (q', deallocf (q_buffer q) h')
    \<and> (\<forall>p. objs h' p = (if p \<in> set tbl then None else objs h p))
    \<and> q_buffer q' = 0 \<and> q_clear deallocf q' h2 = Inr (q', h2)"
proof -
  obtain q' h' where p: "q_pop_all q h = Inr (q', h')" "queue_ok sizeof tbl (q', h')" "q_empty q'"
      "q_buffer q' = q_buffer q" "\<forall>p. p \<notin> set tbl \<longrightarrow> objs h' p = objs h p"
    using q_pop_all_ok [OF assms] by blast
  have "free_cells tbl q' h' = ring_read (cells tbl h') (unat (q_ridx q')) (length (cells tbl h'))"
    using p(3) queue_okD(4) [OF p(2)] by (simp add: free_cells_def q_empty_def)
  then have "set (free_cells tbl q' h') = set (cells tbl h')"
    by (simp only: set_ring_read_all)
  then have "set (cells tbl h') \<subseteq> {None}"
    using queue_okD(10) [OF p(2)] by simp
  then have "\<forall>p \<in> set tbl. objs h' p = None"
    by (auto simp: cells_def)
  then have "\<forall>p. objs h' p = (if p \<in> set tbl then None else objs h p)"
    using p(5) by auto
  then show ?thesis
    using p(1,4) queue_okD(1) [OF assms] by (auto simp: q_clear_def)
qed

theorem circular_queue_clear_witness:
  "\<exists>q' h'. q_clear (\<lambda>p h. h) (fst small_queue) (snd small_queue) = Inr (q', h') \<and> q_buffer q' = 0"
  using circular_queue_clear [of 8 "[1000, 2000]" "fst small_queue" "snd small_queue" "\<lambda>p h. h" "snd small_queue"]
    small_queue_ok unfolding prod.collapse by blast

end
