(* ===== verification/Ring_Spsc.thy ===== *)
theory Ring_Spsc
  imports Circular_Buffer
begin

text \<open>
  The concurrent use of \<^verbatim>\<open>src/circular_buffer.c\<close>: one producer and one consumer, in two processes,
  work on one buffer without a lock, which is what \<^verbatim>\<open>circular_buffer.h\<close> promises.

  Each rule of \<open>spsc_step\<close> is one access to the shared object, so the two sides interleave between
  any two of them: a call that sizes a piece reads the other side's index once; bytes are stored
  and loaded one at a time, at any offset of the piece and in any order; \<^verbatim>\<open>push_data\<close> and
  \<^verbatim>\<open>pop_data\<close> first clamp (one read of the other side's index) and then publish (one write of the
  own index). Memory is sequentially consistent: the code has no fences, and the ordering it needs
  is the one the compiler and the processor happen to keep.
\<close>

section \<open>The step relation\<close>

datatype producer = P_Idle | P_Writing buffer_piece | P_Commit size_t
datatype consumer = C_Idle | C_Reading buffer_piece | C_Commit size_t

text \<open>The last three fields are history: the bytes published so far, how many of them were released,
  and every load of the consumer with the stream position it was meant for.\<close>

record spsc =
  sp_ring :: ring_buffer
  sp_prod :: producer
  sp_cons :: consumer
  sent :: "u8 list"
  released :: nat
  seen :: "(nat \<times> u8) list"

inductive spsc_step :: "u64 \<Rightarrow> spsc \<Rightarrow> spsc \<Rightarrow> bool" for base where
  p_get: "sp_prod s = P_Idle \<Longrightarrow>
    spsc_step base s (s\<lparr>sp_prod := P_Writing (circular_buffer_get_writable base (rb_hdr (sp_ring s)))\<rparr>)"
| p_store: "sp_prod s = P_Writing pc \<Longrightarrow> i < unat (piece_size pc) \<Longrightarrow>
    spsc_step base s (s\<lparr>sp_ring := store_bytes base (sp_ring s) (piece_data pc + of_nat i) [b]\<rparr>)"
| p_clamp: "sp_prod s = P_Writing pc \<Longrightarrow>
    spsc_step base s (s\<lparr>sp_prod := P_Commit (fst (circular_buffer_push_data (rb_hdr (sp_ring s)) n))\<rparr>)"
| p_publish: "sp_prod s = P_Commit n \<Longrightarrow> hdr = rb_hdr (sp_ring s) \<Longrightarrow>
    spsc_step base s (s\<lparr>sp_ring := (sp_ring s)\<lparr>rb_hdr := hdr\<lparr>w_idx := w_idx hdr + n\<rparr>\<rparr>,
      sp_prod := P_Idle,
      sent := sent s @ load_bytes base (sp_ring s) (buffer_pos base hdr (w_idx hdr)) (unat n)\<rparr>)"
| c_get: "sp_cons s = C_Idle \<Longrightarrow>
    spsc_step base s (s\<lparr>sp_cons := C_Reading (circular_buffer_get_readable base (rb_hdr (sp_ring s)))\<rparr>)"
| c_load: "sp_cons s = C_Reading pc \<Longrightarrow> i < unat (piece_size pc) \<Longrightarrow>
    load_bytes base (sp_ring s) (piece_data pc + of_nat i) 1 = [b] \<Longrightarrow>
    spsc_step base s (s\<lparr>seen := seen s @ [(released s + i, b)]\<rparr>)"
| c_clamp: "sp_cons s = C_Reading pc \<Longrightarrow>
    spsc_step base s (s\<lparr>sp_cons := C_Commit (fst (circular_buffer_pop_data (rb_hdr (sp_ring s)) n))\<rparr>)"
| c_publish: "sp_cons s = C_Commit n \<Longrightarrow> hdr = rb_hdr (sp_ring s) \<Longrightarrow>
    spsc_step base s (s\<lparr>sp_ring := (sp_ring s)\<lparr>rb_hdr := hdr\<lparr>r_idx := r_idx hdr + n\<rparr>\<rparr>,
      sp_cons := C_Idle, released := released s + unat n\<rparr>)"

inductive_cases spsc_stepE: "spsc_step base s s'"

text \<open>A freshly created buffer with both sides idle.\<close>

definition spsc_start :: "ring_buffer \<Rightarrow> spsc" where
  "spsc_start rb = \<lparr>sp_ring = rb, sp_prod = P_Idle, sp_cons = C_Idle, sent = [], released = 0, seen = []\<rparr>"

definition spsc_reachable :: "u64 \<Rightarrow> ring_buffer \<Rightarrow> spsc \<Rightarrow> bool" where
  "spsc_reachable base rb s \<longleftrightarrow> (spsc_step base)\<^sup>*\<^sup>* (spsc_start rb) s"

text \<open>The two phases of the publishing calls make the calls.\<close>

lemma push_data_phases:
  "circular_buffer_push_data hdr n = (let m = fst (circular_buffer_push_data hdr n)
    in (m, hdr\<lparr>w_idx := w_idx hdr + m\<rparr>))"
  by (simp add: circular_buffer_push_data_def Let_def)

lemma pop_data_phases:
  "circular_buffer_pop_data hdr n = (let m = fst (circular_buffer_pop_data hdr n)
    in (m, hdr\<lparr>r_idx := r_idx hdr + m\<rparr>))"
  by (simp add: circular_buffer_pop_data_def Let_def)

section \<open>The invariant\<close>

definition in_flight :: "spsc \<Rightarrow> nat" where
  "in_flight s = length (sent s) - released s"

definition cap_of :: "spsc \<Rightarrow> nat" where
  "cap_of s = unat (capacity (rb_hdr (sp_ring s)))"

definition prod_ok :: "u64 \<Rightarrow> spsc \<Rightarrow> bool" where
  "prod_ok base s =
     (case sp_prod s of
        P_Idle \<Rightarrow> True
      | P_Writing pc \<Rightarrow> piece_data pc = buffer_pos base (rb_hdr (sp_ring s)) (of_nat (length (sent s)))
          \<and> in_flight s + unat (piece_size pc) \<le> cap_of s
      | P_Commit n \<Rightarrow> in_flight s + unat n \<le> cap_of s)"

definition cons_ok :: "u64 \<Rightarrow> spsc \<Rightarrow> bool" where
  "cons_ok base s =
     (case sp_cons s of
        C_Idle \<Rightarrow> True
      | C_Reading pc \<Rightarrow> piece_data pc = buffer_pos base (rb_hdr (sp_ring s)) (of_nat (released s))
          \<and> unat (piece_size pc) \<le> in_flight s
      | C_Commit n \<Rightarrow> unat n \<le> in_flight s)"

definition shared_ok :: "spsc \<Rightarrow> bool" where
  "shared_ok s \<longleftrightarrow>
     pow2 (capacity (rb_hdr (sp_ring s))) \<and> length (rb_cells (sp_ring s)) = cap_of s
     \<and> w_idx (rb_hdr (sp_ring s)) = of_nat (length (sent s))
     \<and> r_idx (rb_hdr (sp_ring s)) = of_nat (released s)
     \<and> released s \<le> length (sent s) \<and> in_flight s \<le> cap_of s
     \<and> ring_read (rb_cells (sp_ring s)) (released s) (in_flight s) = drop (released s) (sent s)"

definition seen_ok :: "spsc \<Rightarrow> bool" where
  "seen_ok s \<longleftrightarrow> (\<forall>(j, b) \<in> set (seen s). j < length (sent s) \<and> b = sent s ! j)"

definition spsc_ok :: "u64 \<Rightarrow> spsc \<Rightarrow> bool" where
  "spsc_ok base s \<longleftrightarrow> shared_ok s \<and> prod_ok base s \<and> cons_ok base s \<and> seen_ok s"

lemma shared_readable: "shared_ok s \<Longrightarrow> unat (readable_size (rb_hdr (sp_ring s))) = in_flight s"
  using unat_less_2p64 [of "capacity (rb_hdr (sp_ring s))"]
  by (simp add: shared_ok_def readable_size_def in_flight_def unat_diff_of_nat cap_of_def)

lemma shared_cb_ok: "shared_ok s \<Longrightarrow> cb_ok (rb_hdr (sp_ring s))"
  using shared_readable [of s] by (simp add: cb_ok_def word_le_nat_alt shared_ok_def cap_of_def)

lemma shared_writable: "shared_ok s \<Longrightarrow> unat (writable_size (rb_hdr (sp_ring s))) = cap_of s - in_flight s"
  using unat_writable_size [OF shared_cb_ok] shared_readable [of s] by (simp add: cap_of_def)

text \<open>The offset of a byte of a piece, up to whole turns of the ring.\<close>

lemma piece_offset:
  assumes "pow2 (capacity hdr)" "i < unat (capacity hdr)"
  shows "offset_of base hdr (buffer_pos base hdr (of_nat k) + of_nat i) mod unat (capacity hdr)
    = (k + i) mod unat (capacity hdr)"
proof -
  let ?c = "unat (capacity hdr)"
  have "unat ((of_nat k AND (capacity hdr - 1)) + of_nat i) = (k mod ?c + i) mod 2 ^ 64"
    by (simp add: unat_word_ariths and_mask_of_nat [OF assms(1)] unat_of_nat64 mod_simps)
  also have "\<dots> = k mod ?c + i"
    using cap_bounds [OF assms(1)] assms(2) mod_less_divisor [of ?c k] by (intro mod_less) linarith
  finally show ?thesis
    by (simp add: offset_of_def buffer_pos_def algebra_simps mod_simps)
qed

lemma store_piece:
  assumes "shared_ok s" "i < cap_of s"
  shows "store_bytes base (sp_ring s) (buffer_pos base (rb_hdr (sp_ring s)) (of_nat k) + of_nat i) [b]
    = (sp_ring s)\<lparr>rb_cells := ring_write (rb_cells (sp_ring s)) (k + i) [b]\<rparr>"
proof -
  have "pow2 (capacity (rb_hdr (sp_ring s)))" "length (rb_cells (sp_ring s)) = unat (capacity (rb_hdr (sp_ring s)))"
    using assms(1) by (simp_all add: shared_ok_def cap_of_def)
  then show ?thesis
    using piece_offset [of "rb_hdr (sp_ring s)" i base k] assms(2)
    unfolding store_bytes_def cap_of_def by (metis ring_write_mod)
qed

lemma load_piece:
  assumes "shared_ok s" "i < cap_of s"
  shows "load_bytes base (sp_ring s) (buffer_pos base (rb_hdr (sp_ring s)) (of_nat k) + of_nat i) n
    = ring_read (rb_cells (sp_ring s)) (k + i) n"
proof -
  have "pow2 (capacity (rb_hdr (sp_ring s)))" "length (rb_cells (sp_ring s)) = unat (capacity (rb_hdr (sp_ring s)))"
    using assms(1) by (simp_all add: shared_ok_def cap_of_def)
  then show ?thesis
    using piece_offset [of "rb_hdr (sp_ring s)" i base k] assms(2)
    unfolding load_bytes_def cap_of_def by (metis ring_read_mod)
qed

text \<open>The parts of the invariant look only at their own fields.\<close>

lemma part_frame [simp]:
  "in_flight (s\<lparr>sp_prod := p\<rparr>) = in_flight s" "in_flight (s\<lparr>sp_cons := c\<rparr>) = in_flight s"
  "in_flight (s\<lparr>sp_ring := rb\<rparr>) = in_flight s" "in_flight (s\<lparr>seen := l\<rparr>) = in_flight s"
  "cap_of (s\<lparr>sp_prod := p\<rparr>) = cap_of s" "cap_of (s\<lparr>sp_cons := c\<rparr>) = cap_of s"
  "cap_of (s\<lparr>seen := l\<rparr>) = cap_of s" "cap_of (s\<lparr>sent := sn\<rparr>) = cap_of s"
  "cap_of (s\<lparr>released := k\<rparr>) = cap_of s"
  "cap_of (s\<lparr>sp_ring := rb\<rparr>) = unat (capacity (rb_hdr rb))"
  "shared_ok (s\<lparr>sp_prod := p\<rparr>) = shared_ok s" "shared_ok (s\<lparr>sp_cons := c\<rparr>) = shared_ok s"
  "shared_ok (s\<lparr>seen := l\<rparr>) = shared_ok s"
  by (simp_all add: in_flight_def cap_of_def shared_ok_def)

lemma unat_min_le: "unat (min (a :: size_t) b) \<le> unat b"
  by (simp add: unat_min_size)

lemma ok_p_get:
  assumes "spsc_ok base s"
  shows "spsc_ok base (s\<lparr>sp_prod := P_Writing (circular_buffer_get_writable base (rb_hdr (sp_ring s)))\<rparr>)"
  using assms shared_writable [of s]
  by (auto simp: spsc_ok_def prod_ok_def cons_ok_def seen_ok_def circular_buffer_get_writable_def
      shared_ok_def split: consumer.splits)

lemma ok_c_get:
  assumes "spsc_ok base s"
  shows "spsc_ok base (s\<lparr>sp_cons := C_Reading (circular_buffer_get_readable base (rb_hdr (sp_ring s)))\<rparr>)"
  using assms shared_readable [of s]
  by (auto simp: spsc_ok_def prod_ok_def cons_ok_def seen_ok_def circular_buffer_get_readable_def
      shared_ok_def split: producer.splits)

lemma ok_p_clamp:
  assumes "spsc_ok base s"
  shows "spsc_ok base (s\<lparr>sp_prod := P_Commit (fst (circular_buffer_push_data (rb_hdr (sp_ring s)) n))\<rparr>)"
  using assms shared_writable [of s] unat_min_le [of n "writable_size (rb_hdr (sp_ring s))"]
  by (auto simp: spsc_ok_def prod_ok_def cons_ok_def seen_ok_def shared_ok_def split: consumer.splits)

lemma ok_c_clamp:
  assumes "spsc_ok base s"
  shows "spsc_ok base (s\<lparr>sp_cons := C_Commit (fst (circular_buffer_pop_data (rb_hdr (sp_ring s)) n))\<rparr>)"
  using assms shared_readable [of s] unat_min_le [of n "readable_size (rb_hdr (sp_ring s))"]
  by (auto simp: spsc_ok_def prod_ok_def cons_ok_def seen_ok_def shared_ok_def split: producer.splits)

text \<open>A store of the producer changes no cell in flight.\<close>

lemma ok_p_store:
  assumes ok: "spsc_ok base s" and w: "sp_prod s = P_Writing pc" and i: "i < unat (piece_size pc)"
  shows "spsc_ok base (s\<lparr>sp_ring := store_bytes base (sp_ring s) (piece_data pc + of_nat i) [b]\<rparr>)"
proof -
  let ?rb = "(sp_ring s)\<lparr>rb_cells := ring_write (rb_cells (sp_ring s)) (length (sent s) + i) [b]\<rparr>"
  have sh: "shared_ok s" and pr: "in_flight s + unat (piece_size pc) \<le> cap_of s"
      "piece_data pc = buffer_pos base (rb_hdr (sp_ring s)) (of_nat (length (sent s)))"
    using ok w by (auto simp: spsc_ok_def prod_ok_def)
  have "i < cap_of s"
    using pr(1) i by linarith
  then have store: "store_bytes base (sp_ring s) (piece_data pc + of_nat i) [b] = ?rb"
    by (simp only: pr(2) store_piece [OF sh])
  have "ring_read (rb_cells ?rb) (released s) (in_flight s)
      = ring_read (rb_cells (sp_ring s)) (released s) (in_flight s)"
    using sh pr(1) i by (simp del: ring_write.simps, intro ring_read_write_other)
      (auto simp: shared_ok_def in_flight_def)
  then have "shared_ok (s\<lparr>sp_ring := ?rb\<rparr>)"
    using sh by (simp add: shared_ok_def cap_of_def del: ring_write.simps)
  moreover have "cap_of s = unat (capacity (rb_hdr (sp_ring s)))"
    by (simp add: cap_of_def)
  ultimately show ?thesis
    using ok unfolding store
    by (auto simp: spsc_ok_def prod_ok_def cons_ok_def seen_ok_def split: producer.splits consumer.splits)
qed

lemma ok_c_load:
  assumes ok: "spsc_ok base s" and r: "sp_cons s = C_Reading pc" and i: "i < unat (piece_size pc)"
    and b: "load_bytes base (sp_ring s) (piece_data pc + of_nat i) 1 = [b]"
  shows "spsc_ok base (s\<lparr>seen := seen s @ [(released s + i, b)]\<rparr>)"
    "released s + i < length (sent s)" "b = sent s ! (released s + i)"
proof -
  have sh: "shared_ok s" and co: "unat (piece_size pc) \<le> in_flight s"
      "piece_data pc = buffer_pos base (rb_hdr (sp_ring s)) (of_nat (released s))"
    using ok r by (auto simp: spsc_ok_def cons_ok_def)
  have "i < cap_of s" and lt: "i < in_flight s"
    using co(1) i sh by (auto simp: shared_ok_def)
  then have "ring_read (rb_cells (sp_ring s)) (released s + i) 1 = [b]"
    using b unfolding co(2) by (simp only: load_piece [OF sh])
  then have "b = ring_read (rb_cells (sp_ring s)) (released s) (in_flight s) ! i"
    using lt by (simp add: nth_ring_read ring_read_def)
  then have "b = drop (released s) (sent s) ! i"
    using sh by (simp add: shared_ok_def)
  then show eq: "b = sent s ! (released s + i)" and len: "released s + i < length (sent s)"
    using lt by (simp_all add: in_flight_def)
  show "spsc_ok base (s\<lparr>seen := seen s @ [(released s + i, b)]\<rparr>)"
    using ok eq len by (auto simp: spsc_ok_def prod_ok_def cons_ok_def seen_ok_def
        split: producer.splits consumer.splits)
qed

lemma ok_p_publish:
  assumes ok: "spsc_ok base s" and p: "sp_prod s = P_Commit n" and h: "hdr = rb_hdr (sp_ring s)"
  shows "spsc_ok base (s\<lparr>sp_ring := (sp_ring s)\<lparr>rb_hdr := hdr\<lparr>w_idx := w_idx hdr + n\<rparr>\<rparr>, sp_prod := P_Idle,
    sent := sent s @ load_bytes base (sp_ring s) (buffer_pos base hdr (w_idx hdr)) (unat n)\<rparr>)"
proof -
  have sh: "shared_ok s" and pr: "in_flight s + unat n \<le> cap_of s"
    using ok p by (auto simp: spsc_ok_def prod_ok_def)
  have w: "w_idx hdr = of_nat (length (sent s))"
    using sh h by (simp add: shared_ok_def)
  have "0 < cap_of s"
    using sh cap_bounds(1) by (auto simp: shared_ok_def cap_of_def)
  then have load: "load_bytes base (sp_ring s) (buffer_pos base hdr (w_idx hdr)) (unat n)
      = ring_read (rb_cells (sp_ring s)) (length (sent s)) (unat n)"
    using load_piece [OF sh, of 0 base "length (sent s)" "unat n"] by (simp add: w flip: h)
  define s' where "s' = s\<lparr>sp_ring := (sp_ring s)\<lparr>rb_hdr := hdr\<lparr>w_idx := w_idx hdr + n\<rparr>\<rparr>, sp_prod := P_Idle,
    sent := sent s @ ring_read (rb_cells (sp_ring s)) (length (sent s)) (unat n)\<rparr>"
  have fl: "in_flight s' = in_flight s + unat n" "cap_of s' = cap_of s"
    using sh h by (auto simp: s'_def in_flight_def cap_of_def shared_ok_def)
  have "released s + in_flight s = length (sent s)"
    using sh by (simp add: shared_ok_def in_flight_def)
  then have "ring_read (rb_cells (sp_ring s)) (released s) (in_flight s + unat n)
      = drop (released s) (sent s) @ ring_read (rb_cells (sp_ring s)) (length (sent s)) (unat n)"
    using sh by (simp add: ring_read_add shared_ok_def)
  then have "shared_ok s'"
    using sh pr fl by (simp add: shared_ok_def) (simp add: s'_def h w)
  moreover have "cons_ok base s'"
    using ok fl by (auto simp: spsc_ok_def cons_ok_def s'_def h buffer_pos_def buffer_start_def
        split: consumer.splits)
  moreover have "seen_ok s'" "prod_ok base s'"
    using ok by (auto simp: spsc_ok_def seen_ok_def prod_ok_def s'_def nth_append)
  ultimately show ?thesis
    unfolding load s'_def [symmetric] by (simp add: spsc_ok_def)
qed

lemma ok_c_publish:
  assumes ok: "spsc_ok base s" and c: "sp_cons s = C_Commit n" and h: "hdr = rb_hdr (sp_ring s)"
  shows "spsc_ok base (s\<lparr>sp_ring := (sp_ring s)\<lparr>rb_hdr := hdr\<lparr>r_idx := r_idx hdr + n\<rparr>\<rparr>, sp_cons := C_Idle,
    released := released s + unat n\<rparr>)"
proof -
  have sh: "shared_ok s" and co: "unat n \<le> in_flight s"
    using ok c by (auto simp: spsc_ok_def cons_ok_def)
  define s' where "s' = s\<lparr>sp_ring := (sp_ring s)\<lparr>rb_hdr := hdr\<lparr>r_idx := r_idx hdr + n\<rparr>\<rparr>, sp_cons := C_Idle,
    released := released s + unat n\<rparr>"
  have fl: "in_flight s' = in_flight s - unat n" "cap_of s' = cap_of s"
    using h by (auto simp: s'_def in_flight_def cap_of_def)
  have "ring_read (rb_cells (sp_ring s)) (released s + unat n) (in_flight s - unat n)
      = drop (released s + unat n) (sent s)"
  proof -
    have "drop (unat n) (ring_read (rb_cells (sp_ring s)) (released s) (in_flight s))
        = drop (unat n) (drop (released s) (sent s))"
      using sh by (simp only: shared_ok_def)
    then show ?thesis
      unfolding drop_ring_read drop_drop add.commute [of "unat n"] .
  qed
  then have "shared_ok s'"
    using sh co fl by (simp add: shared_ok_def) (auto simp: s'_def h in_flight_def)
  moreover have "prod_ok base s'"
    using ok fl co by (auto simp: spsc_ok_def prod_ok_def s'_def h buffer_pos_def buffer_start_def
        split: producer.splits)
  moreover have "seen_ok s'" "cons_ok base s'"
    using ok by (auto simp: spsc_ok_def seen_ok_def cons_ok_def s'_def)
  ultimately show ?thesis
    unfolding s'_def [symmetric] by (simp add: spsc_ok_def)
qed

lemma spsc_step_ok: "spsc_step base s s' \<Longrightarrow> spsc_ok base s \<Longrightarrow> spsc_ok base s'"
  by (induction rule: spsc_step.induct)
    (simp_all only: ok_p_get ok_c_get ok_p_clamp ok_c_clamp ok_p_store ok_c_load ok_p_publish ok_c_publish)

definition fresh_ring :: "ring_buffer \<Rightarrow> bool" where
  "fresh_ring rb \<longleftrightarrow> r_idx (rb_hdr rb) = 0 \<and> w_idx (rb_hdr rb) = 0
     \<and> pow2 (capacity (rb_hdr rb)) \<and> length (rb_cells rb) = unat (capacity (rb_hdr rb))"

lemma spsc_start_ok: "fresh_ring rb \<Longrightarrow> spsc_ok base (spsc_start rb)"
  by (simp add: fresh_ring_def spsc_start_def spsc_ok_def shared_ok_def prod_ok_def cons_ok_def
      seen_ok_def in_flight_def cap_of_def)

lemma spsc_reachable_ok:
  assumes "spsc_reachable base rb s" "fresh_ring rb"
  shows "spsc_ok base s"
  using assms(1) unfolding spsc_reachable_def
  by (induction rule: rtranclp_induct) (auto intro: spsc_start_ok [OF assms(2)] spsc_step_ok)

section \<open>What the consumer sees\<close>

text \<open>C3: with one producer and one consumer on a fresh buffer whose capacity is a power of two, in
  every interleaving of their memory accesses, every byte the consumer loads from a readable piece
  is the byte the producer published at that position of the stream: nothing is lost, repeated,
  reordered or read before it is written, however often the indices wrap.\<close>

theorem spsc_reads_what_was_sent:
  assumes "spsc_reachable base rb s" "fresh_ring rb"
  shows "\<forall>(j, b) \<in> set (seen s). j < length (sent s) \<and> b = sent s ! j"
  using spsc_reachable_ok [OF assms] by (simp add: spsc_ok_def seen_ok_def)

lemma cells_apart:
  assumes "spsc_reachable base rb s" "fresh_ring rb"
    and "sp_prod s = P_Writing pw" "i < unat (piece_size pw)"
    and "sp_cons s = C_Reading pr" "j < unat (piece_size pr)"
  shows "offset_of base (rb_hdr (sp_ring s)) (piece_data pw + of_nat i) mod cap_of s
      \<noteq> offset_of base (rb_hdr (sp_ring s)) (piece_data pr + of_nat j) mod cap_of s"
proof -
  have ok: "shared_ok s" "prod_ok base s" "cons_ok base s"
    using spsc_reachable_ok [OF assms(1,2)] by (simp_all add: spsc_ok_def)
  have w: "piece_data pw = buffer_pos base (rb_hdr (sp_ring s)) (of_nat (length (sent s)))"
      "in_flight s + unat (piece_size pw) \<le> cap_of s"
    and r: "piece_data pr = buffer_pos base (rb_hdr (sp_ring s)) (of_nat (released s))"
      "unat (piece_size pr) \<le> in_flight s"
    using ok assms(3,5) by (simp_all add: prod_ok_def cons_ok_def)
  have len: "released s + in_flight s = length (sent s)" "in_flight s \<le> cap_of s"
    and p2: "pow2 (capacity (rb_hdr (sp_ring s)))"
    using ok(1) by (simp_all add: shared_ok_def in_flight_def)
  have ow: "offset_of base (rb_hdr (sp_ring s)) (piece_data pw + of_nat i) mod cap_of s
      = (length (sent s) + i) mod cap_of s"
    using piece_offset [OF p2] w assms(4) by (simp add: cap_of_def)
  have or: "offset_of base (rb_hdr (sp_ring s)) (piece_data pr + of_nat j) mod cap_of s
      = (released s + j) mod cap_of s"
    using piece_offset [OF p2] r assms(6) len by (simp add: cap_of_def)
  have lt: "released s + j < length (sent s) + i" "length (sent s) + i < released s + j + cap_of s"
    using w(2) r(2) assms(4,6) len(1) by linarith+
  then have "(released s + j) mod cap_of s \<noteq> (length (sent s) + i) mod cap_of s"
    using ring_pos_inj [of "released s + j" "cap_of s" "length (sent s) + i"] by auto
  then show ?thesis
    using len(2) unfolding ow or by (simp add: in_flight_def)
qed

text \<open>C17: take one producer and one consumer on a fresh buffer whose capacity is a power of two. In every
  reachable state the indices in the header are the counts of the bytes published and of the bytes
  released, the bytes in flight fit in the capacity, and the readable and the writable size that the
  header then gives are exactly the bytes in flight and the room beside them; and a cell the producer may store to
  is never a cell the consumer may load: the two sides never race on a data byte.\<close>

theorem spsc_no_data_race:
  assumes "spsc_reachable base rb s" "fresh_ring rb"
  shows "released s \<le> length (sent s) \<and> length (sent s) - released s \<le> cap_of s
    \<and> w_idx (rb_hdr (sp_ring s)) = of_nat (length (sent s)) \<and> r_idx (rb_hdr (sp_ring s)) = of_nat (released s)
    \<and> unat (readable_size (rb_hdr (sp_ring s))) = length (sent s) - released s
    \<and> unat (writable_size (rb_hdr (sp_ring s))) = cap_of s - (length (sent s) - released s)
    \<and> (\<forall>pw i pr j. sp_prod s = P_Writing pw \<longrightarrow> i < unat (piece_size pw) \<longrightarrow>
         sp_cons s = C_Reading pr \<longrightarrow> j < unat (piece_size pr) \<longrightarrow>
         offset_of base (rb_hdr (sp_ring s)) (piece_data pw + of_nat i) mod cap_of s
           \<noteq> offset_of base (rb_hdr (sp_ring s)) (piece_data pr + of_nat j) mod cap_of s)"
proof -
  have sh: "shared_ok s"
    using spsc_reachable_ok [OF assms] by (simp add: spsc_ok_def)
  then show ?thesis
    using shared_readable [OF sh] shared_writable [OF sh] cells_apart [OF assms]
    by (auto simp: shared_ok_def in_flight_def)
qed

section \<open>A run of both sides\<close>

definition demo_hdr :: cb_header where
  "demo_hdr = \<lparr>r_idx = 0, w_idx = 0, capacity = 4, private_size = 0, page_mask = 4095, flag = 0, cb_name = []\<rparr>"

definition demo_ring :: ring_buffer where
  "demo_ring = \<lparr>rb_hdr = demo_hdr, rb_cells = [0, 0, 0, 0]\<rparr>"

text \<open>The producer publishes one byte, the consumer loads it, and both are at work again.\<close>

definition demo_state :: "u8 list \<Rightarrow> size_t \<Rightarrow> producer \<Rightarrow> consumer \<Rightarrow> u8 list \<Rightarrow> (nat \<times> u8) list \<Rightarrow> spsc" where
  "demo_state cs w p c sn l = \<lparr>sp_ring = \<lparr>rb_hdr = demo_hdr\<lparr>w_idx := w\<rparr>, rb_cells = cs\<rparr>,
     sp_prod = p, sp_cons = c, sent = sn, released = 0, seen = l\<rparr>"

lemma fresh_demo: "fresh_ring demo_ring"
  using pow2I [of 2] by (simp add: fresh_ring_def demo_ring_def demo_hdr_def)

lemma demo_pieces:
  "circular_buffer_get_writable 0 demo_hdr = \<lparr>piece_data = 4096, piece_size = 4\<rparr>"
  "circular_buffer_get_writable 0 (demo_hdr\<lparr>w_idx := 1\<rparr>) = \<lparr>piece_data = 4097, piece_size = 3\<rparr>"
  "circular_buffer_get_readable 0 (demo_hdr\<lparr>w_idx := 1\<rparr>) = \<lparr>piece_data = 4096, piece_size = 1\<rparr>"
  by (simp_all add: circular_buffer_get_writable_def circular_buffer_get_readable_def demo_hdr_def
      buffer_pos_def buffer_start_def aligned_header_size_def sizeof_header_def writable_size_def
      readable_size_def)

lemma demo_run:
  "spsc_reachable 0 demo_ring
    (demo_state [42, 0, 0, 0] 1 (P_Writing \<lparr>piece_data = 4097, piece_size = 3\<rparr>)
      (C_Reading \<lparr>piece_data = 4096, piece_size = 1\<rparr>) [42] [(0, 42)])"
proof -
  let ?W = "P_Writing \<lparr>piece_data = 4096, piece_size = 4\<rparr>" and ?Z = "[0, 0, 0, 0]" and ?B = "[42, 0, 0, 0]"
  let ?R = "C_Reading \<lparr>piece_data = 4096, piece_size = 1\<rparr>"
  note d = demo_state_def demo_pieces
  note o = offset_of_def buffer_pos_def buffer_start_def aligned_header_size_def sizeof_header_def demo_hdr_def
  have 0: "spsc_start demo_ring = demo_state ?Z 0 P_Idle C_Idle [] []"
    by (simp add: spsc_start_def demo_ring_def demo_state_def demo_hdr_def)
  have 1: "spsc_step 0 (demo_state ?Z 0 P_Idle C_Idle [] []) (demo_state ?Z 0 ?W C_Idle [] [])"
    using spsc_step.p_get [of "demo_state ?Z 0 P_Idle C_Idle [] []" 0]
    by (simp add: d demo_pieces(1) [unfolded demo_hdr_def] demo_hdr_def)
  have 2: "spsc_step 0 (demo_state ?Z 0 ?W C_Idle [] []) (demo_state ?B 0 ?W C_Idle [] [])"
    using spsc_step.p_store [of "demo_state ?Z 0 ?W C_Idle [] []" _ 0 0 42]
    by (simp add: d store_bytes_def o)
  have 3: "spsc_step 0 (demo_state ?B 0 ?W C_Idle [] []) (demo_state ?B 0 (P_Commit 1) C_Idle [] [])"
    using spsc_step.p_clamp [of "demo_state ?B 0 ?W C_Idle [] []" _ 0 1]
    by (simp add: d writable_size_def readable_size_def demo_hdr_def)
  have 4: "spsc_step 0 (demo_state ?B 0 (P_Commit 1) C_Idle [] []) (demo_state ?B 1 P_Idle C_Idle [42] [])"
    using spsc_step.p_publish [of "demo_state ?B 0 (P_Commit 1) C_Idle [] []" 1 _ 0, OF _ refl]
    by (simp add: d load_bytes_def ring_read_def o)
  have 5: "spsc_step 0 (demo_state ?B 1 P_Idle C_Idle [42] []) (demo_state ?B 1 P_Idle ?R [42] [])"
    using spsc_step.c_get [of "demo_state ?B 1 P_Idle C_Idle [42] []" 0] by (simp add: d)
  have 6: "spsc_step 0 (demo_state ?B 1 P_Idle ?R [42] []) (demo_state ?B 1 P_Idle ?R [42] [(0, 42)])"
    using spsc_step.c_load [of "demo_state ?B 1 P_Idle ?R [42] []" _ 0 0 42]
    by (simp add: d load_bytes_def ring_read_def o)
  have 7: "spsc_step 0 (demo_state ?B 1 P_Idle ?R [42] [(0, 42)])
      (demo_state ?B 1 (P_Writing \<lparr>piece_data = 4097, piece_size = 3\<rparr>) ?R [42] [(0, 42)])"
    using spsc_step.p_get [of "demo_state ?B 1 P_Idle ?R [42] [(0, 42)]" 0] by (simp add: d)
  show ?thesis
    unfolding spsc_reachable_def 0
    by (meson 1 2 3 4 5 6 7 r_into_rtranclp rtranclp.rtrancl_into_rtrancl)
qed

theorem spsc_reads_what_was_sent_witness:
  "\<exists>s. spsc_reachable 0 demo_ring s \<and> seen s = [(0, 42)] \<and> sent s ! 0 = 42"
  using demo_run spsc_reads_what_was_sent [OF demo_run fresh_demo]
  by (intro exI [of _ "demo_state _ _ _ _ _ _"]) (auto simp: demo_state_def)

theorem spsc_no_data_race_witness:
  "\<exists>s. spsc_reachable 0 demo_ring s
    \<and> offset_of 0 (rb_hdr (sp_ring s)) (4097 + of_nat 2) mod cap_of s
      \<noteq> offset_of 0 (rb_hdr (sp_ring s)) (4096 + of_nat 0) mod cap_of s"
proof (intro exI conjI)
  show "spsc_reachable 0 demo_ring (demo_state [42, 0, 0, 0] 1 (P_Writing \<lparr>piece_data = 4097, piece_size = 3\<rparr>)
      (C_Reading \<lparr>piece_data = 4096, piece_size = 1\<rparr>) [42] [(0, 42)])" (is "spsc_reachable _ _ ?s")
    by (rule demo_run)
  show "offset_of 0 (rb_hdr (sp_ring ?s)) (4097 + of_nat 2) mod cap_of ?s
      \<noteq> offset_of 0 (rb_hdr (sp_ring ?s)) (4096 + of_nat 0) mod cap_of ?s"
    using spsc_no_data_race [OF demo_run fresh_demo] unfolding conj_assoc [symmetric]
    by (elim conjE allE [of _ "\<lparr>piece_data = 4097, piece_size = 3\<rparr>"] allE [of _ 2]
        allE [of _ "\<lparr>piece_data = 4096, piece_size = 1\<rparr>"] allE [of _ 0])
      (simp add: demo_state_def)
qed

end
