(* ===== verification/Ring_Tso.thy ===== *)
theory Ring_Tso
  imports Ring_Spsc
begin

text \<open>
  The same producer and consumer of \<^verbatim>\<open>src/circular_buffer.c\<close> under the memory model of the processors
  the library is built for (x86-TSO): a store goes to the store buffer of its processor and reaches
  memory later, in order; a load sees the newest store of its own processor, and otherwise memory.
  Either side therefore works with an old index of the other, and its bytes and its own index arrive
  late. The calls are functions of a separate C file, so the compiler keeps the order of their
  accesses with respect to those of the caller.
\<close>

section \<open>The step relation\<close>

datatype tso_store = Byte_st u64 u8 | Widx_st size_t

text \<open>\<open>tso_ring\<close> is memory. The producer stores bytes and the write index, the consumer only the read
  index. The last three fields are history, as in \<open>spsc\<close>, on the side of the thread that acts.\<close>

record tso =
  tso_ring :: ring_buffer
  tso_pbuf :: "tso_store list"
  tso_cbuf :: "size_t list"
  tso_prod :: producer
  tso_cons :: consumer
  tso_sent :: "u8 list"
  tso_released :: nat
  tso_seen :: "(nat \<times> u8) list"

fun apply_store :: "u64 \<Rightarrow> tso_store \<Rightarrow> ring_buffer \<Rightarrow> ring_buffer" where
  "apply_store base (Byte_st a b) rb = store_bytes base rb a [b]"
| "apply_store base (Widx_st v) rb = rb\<lparr>rb_hdr := (rb_hdr rb)\<lparr>w_idx := v\<rparr>\<rparr>"

definition set_ridx :: "size_t \<Rightarrow> ring_buffer \<Rightarrow> ring_buffer" where
  "set_ridx v rb = rb\<lparr>rb_hdr := (rb_hdr rb)\<lparr>r_idx := v\<rparr>\<rparr>"

definition prod_view :: "u64 \<Rightarrow> tso \<Rightarrow> ring_buffer" where
  "prod_view base s = fold (apply_store base) (tso_pbuf s) (tso_ring s)"

definition cons_view :: "tso \<Rightarrow> ring_buffer" where
  "cons_view s = fold set_ridx (tso_cbuf s) (tso_ring s)"

inductive tso_step :: "u64 \<Rightarrow> tso \<Rightarrow> tso \<Rightarrow> bool" for base where
  tp_get: "tso_prod s = P_Idle \<Longrightarrow>
    tso_step base s (s\<lparr>tso_prod := P_Writing (circular_buffer_get_writable base (rb_hdr (prod_view base s)))\<rparr>)"
| tp_store: "tso_prod s = P_Writing pc \<Longrightarrow> i < unat (piece_size pc) \<Longrightarrow>
    tso_step base s (s\<lparr>tso_pbuf := tso_pbuf s @ [Byte_st (piece_data pc + of_nat i) b]\<rparr>)"
| tp_clamp: "tso_prod s = P_Writing pc \<Longrightarrow>
    tso_step base s (s\<lparr>tso_prod := P_Commit (fst (circular_buffer_push_data (rb_hdr (prod_view base s)) n))\<rparr>)"
| tp_publish: "tso_prod s = P_Commit n \<Longrightarrow> rb = prod_view base s \<Longrightarrow>
    tso_step base s (s\<lparr>tso_pbuf := tso_pbuf s @ [Widx_st (w_idx (rb_hdr rb) + n)], tso_prod := P_Idle,
      tso_sent := tso_sent s @ load_bytes base rb (buffer_pos base (rb_hdr rb) (w_idx (rb_hdr rb))) (unat n)\<rparr>)"
| tp_commit: "tso_pbuf s = x # xs \<Longrightarrow>
    tso_step base s (s\<lparr>tso_ring := apply_store base x (tso_ring s), tso_pbuf := xs\<rparr>)"
| tc_get: "tso_cons s = C_Idle \<Longrightarrow>
    tso_step base s (s\<lparr>tso_cons := C_Reading (circular_buffer_get_readable base (rb_hdr (cons_view s)))\<rparr>)"
| tc_load: "tso_cons s = C_Reading pc \<Longrightarrow> i < unat (piece_size pc) \<Longrightarrow>
    load_bytes base (cons_view s) (piece_data pc + of_nat i) 1 = [b] \<Longrightarrow>
    tso_step base s (s\<lparr>tso_seen := tso_seen s @ [(tso_released s + i, b)]\<rparr>)"
| tc_clamp: "tso_cons s = C_Reading pc \<Longrightarrow>
    tso_step base s (s\<lparr>tso_cons := C_Commit (fst (circular_buffer_pop_data (rb_hdr (cons_view s)) n))\<rparr>)"
| tc_publish: "tso_cons s = C_Commit n \<Longrightarrow>
    tso_step base s (s\<lparr>tso_cbuf := tso_cbuf s @ [r_idx (rb_hdr (cons_view s)) + n], tso_cons := C_Idle,
      tso_released := tso_released s + unat n\<rparr>)"
| tc_commit: "tso_cbuf s = v # vs \<Longrightarrow>
    tso_step base s (s\<lparr>tso_ring := set_ridx v (tso_ring s), tso_cbuf := vs\<rparr>)"

definition tso_start :: "ring_buffer \<Rightarrow> tso" where
  "tso_start rb = \<lparr>tso_ring = rb, tso_pbuf = [], tso_cbuf = [], tso_prod = P_Idle, tso_cons = C_Idle,
    tso_sent = [], tso_released = 0, tso_seen = []\<rparr>"

definition tso_reachable :: "u64 \<Rightarrow> ring_buffer \<Rightarrow> tso \<Rightarrow> bool" where
  "tso_reachable base rb s \<longleftrightarrow> (tso_step base)\<^sup>*\<^sup>* (tso_start rb) s"

section \<open>What is in the producer's store buffer\<close>

text \<open>\<open>good lo st k rb\<close>: with write index \<open>k\<close>, the cells from position \<open>lo\<close> on are those of the stream
  \<open>st\<close>. \<open>wok\<close>: this holds now and after each further store of the buffer, because bytes are only stored
  at positions the index has not reached, up to \<open>hi\<close>.\<close>

definition ring_shape :: "ring_buffer \<Rightarrow> bool" where
  "ring_shape rb \<longleftrightarrow> pow2 (capacity (rb_hdr rb)) \<and> length (rb_cells rb) = unat (capacity (rb_hdr rb))"

definition good :: "nat \<Rightarrow> u8 list \<Rightarrow> nat \<Rightarrow> ring_buffer \<Rightarrow> bool" where
  "good lo st k rb \<longleftrightarrow> ring_shape rb \<and> w_idx (rb_hdr rb) = of_nat k \<and> k \<le> length st
     \<and> (\<forall>i. lo \<le> i \<longrightarrow> i < k \<longrightarrow> rb_cells rb ! (i mod length (rb_cells rb)) = st ! i)"

fun wok :: "u64 \<Rightarrow> nat \<Rightarrow> nat \<Rightarrow> u8 list \<Rightarrow> nat \<Rightarrow> ring_buffer \<Rightarrow> tso_store list \<Rightarrow> bool" where
  "wok base lo hi st k rb [] = (good lo st k rb \<and> k = length st)"
| "wok base lo hi st k rb (Byte_st a b # xs) =
     (good lo st k rb
      \<and> (\<exists>p. k \<le> p \<and> p < hi \<and> offset_of base (rb_hdr rb) a mod length (rb_cells rb) = p mod length (rb_cells rb))
      \<and> wok base lo hi st k (apply_store base (Byte_st a b) rb) xs)"
| "wok base lo hi st k rb (Widx_st v # xs) =
     (good lo st k rb \<and> (\<exists>k'. k \<le> k' \<and> k' \<le> hi \<and> v = of_nat k' \<and> wok base lo hi st k' (apply_store base (Widx_st v) rb) xs))"

text \<open>The header fields no store touches.\<close>

definition frame :: "ring_buffer \<Rightarrow> size_t \<times> size_t \<times> size_t \<times> u64 \<times> nat" where
  "frame rb = (r_idx (rb_hdr rb), capacity (rb_hdr rb), private_size (rb_hdr rb), page_mask (rb_hdr rb),
     length (rb_cells rb))"

lemma frame_apply: "frame (apply_store base x rb) = frame rb"
  by (cases x) (simp_all add: frame_def store_bytes_def)

lemma apply_store_simps [simp]:
  "length (rb_cells (apply_store base x rb)) = length (rb_cells rb)"
  "offset_of base' (rb_hdr (apply_store base x rb)) a = offset_of base' (rb_hdr rb) a"
  by (cases x; simp add: store_bytes_def offset_of_def buffer_start_def)+

lemma frame_fold: "frame (fold (apply_store base) xs rb) = frame rb"
  by (induction xs arbitrary: rb) (simp_all add: frame_apply)

lemma frame_shape: "frame rb = frame rb' \<Longrightarrow> ring_shape rb = ring_shape rb'"
  by (simp add: frame_def ring_shape_def)

lemma frame_offset: "frame rb = frame rb' \<Longrightarrow> offset_of base (rb_hdr rb) a = offset_of base (rb_hdr rb') a"
  by (simp add: frame_def offset_of_def buffer_start_def)

lemma frame_pos: "frame rb = frame rb' \<Longrightarrow> buffer_pos base (rb_hdr rb) k = buffer_pos base (rb_hdr rb') k"
  by (simp add: frame_def buffer_pos_def buffer_start_def)

lemma wok_good: "wok base lo hi st k rb xs \<Longrightarrow> good lo st k rb"
  by (induction base lo hi st k rb xs rule: wok.induct) auto

lemma wok_end:
  "wok base lo hi st k rb xs \<Longrightarrow> good lo st (length st) (fold (apply_store base) xs rb)"
  by (induction base lo hi st k rb xs rule: wok.induct) auto

lemma wok_mono:
  "wok base lo hi st k rb xs \<Longrightarrow> lo \<le> lo' \<Longrightarrow> hi \<le> hi' \<Longrightarrow> wok base lo' hi' st k rb xs"
  by (induction base lo hi st k rb xs rule: wok.induct)
    (auto simp: good_def intro: order_trans less_le_trans)

text \<open>A byte stored in front of the index.\<close>

lemma good_store:
  assumes g: "good lo st k rb" and p: "k \<le> p" "p < lo + length (rb_cells rb)"
    and a: "offset_of base (rb_hdr rb) a mod length (rb_cells rb) = p mod length (rb_cells rb)"
  shows "good lo st k (apply_store base (Byte_st a b) rb)"
proof -
  let ?n = "length (rb_cells rb)"
  have "rb_cells (apply_store base (Byte_st a b) rb) = (rb_cells rb)[p mod ?n := b]"
    by (simp add: store_bytes_def a)
  moreover have "p mod ?n \<noteq> i mod ?n" if "lo \<le> i" "i < k" for i
    using ring_pos_inj [of i ?n p] that p by auto
  ultimately show ?thesis
    using g frame_shape [OF frame_apply, of base "Byte_st a b" rb]
    by (simp add: good_def) (simp add: store_bytes_def)
qed

lemma wok_store:
  assumes "wok base lo hi st k rb xs" "length st \<le> p" "p < hi" "hi \<le> lo + length (rb_cells rb)"
    and "offset_of base (rb_hdr rb) a mod length (rb_cells rb) = p mod length (rb_cells rb)"
  shows "wok base lo hi st k rb (xs @ [Byte_st a b])"
  using assms
proof (induction base lo hi st k rb xs rule: wok.induct)
  case (1 base lo hi st k rb)
  then show ?case
    using good_store [of lo st k rb p base a b] by (auto simp del: apply_store.simps)
qed (auto simp del: apply_store.simps)

text \<open>An index published at the end: the stream grows by what the producer sees there.\<close>

lemma good_grow: "good lo st k rb \<Longrightarrow> good lo (st @ bs) k rb"
  by (auto simp: good_def nth_append)

lemma good_publish:
  assumes "good lo st (length st) rb"
  shows "good lo (st @ ring_read (rb_cells rb) (length st) n) (length st + n)
    (apply_store base (Widx_st (of_nat (length st + n))) rb)"
proof -
  have "rb_cells rb ! (i mod length (rb_cells rb)) = (st @ ring_read (rb_cells rb) (length st) n) ! i"
    if "lo \<le> i" "i < length st + n" for i
    using assms that by (cases "i < length st") (auto simp: good_def nth_append nth_ring_read)
  then show ?thesis
    using assms by (simp add: good_def ring_shape_def)
qed

lemma wok_publish:
  assumes "wok base lo hi st k rb xs" "length st + n \<le> hi"
    and "bs = ring_read (rb_cells (fold (apply_store base) xs rb)) (length st) n"
  shows "wok base lo hi (st @ bs) k rb (xs @ [Widx_st (of_nat (length st + n))])"
  using assms
proof (induction base lo hi st k rb xs rule: wok.induct)
  case (1 base lo hi st k rb)
  then show ?case
    using good_publish [of lo st rb n base] good_grow [of lo st k rb bs]
    by (auto simp del: apply_store.simps of_nat_add)
qed (auto simp: good_grow simp del: apply_store.simps of_nat_add)

text \<open>The read index does not matter to the buffer.\<close>

lemma set_ridx_apply: "apply_store base x (set_ridx v rb) = set_ridx v (apply_store base x rb)"
  by (cases x) (simp_all add: set_ridx_def store_bytes_def offset_of_def buffer_start_def)

lemma wok_set_ridx: "wok base lo hi st k (set_ridx v rb) xs = wok base lo hi st k rb xs"
proof (induction base lo hi st k rb xs rule: wok.induct)
  case (1 base lo hi st k rb)
  show ?case
    by (simp add: good_def ring_shape_def set_ridx_def)
next
  case (2 base lo hi st k rb a b xs)
  have "good lo st k (set_ridx v rb) = good lo st k rb" "rb_cells (set_ridx v rb) = rb_cells rb"
    "offset_of base (rb_hdr (set_ridx v rb)) a = offset_of base (rb_hdr rb) a"
    by (simp_all add: good_def ring_shape_def set_ridx_def offset_of_def buffer_start_def)
  then show ?case
    using 2 by (simp add: set_ridx_apply del: apply_store.simps)
next
  case (3 base lo hi st k rb u xs)
  have "good lo st k (set_ridx v rb) = good lo st k rb"
    by (simp add: good_def ring_shape_def set_ridx_def)
  then show ?case
    using 3 by (simp add: set_ridx_apply del: apply_store.simps)
qed

section \<open>The invariant\<close>

text \<open>The read indices on their way to memory, from position \<open>m\<close> there to the consumer's own.\<close>

fun rok :: "nat \<Rightarrow> nat \<Rightarrow> size_t list \<Rightarrow> bool" where
  "rok m r [] = (m = r)"
| "rok m r (v # vs) = (\<exists>m'. m \<le> m' \<and> m' \<le> r \<and> v = of_nat m' \<and> rok m' r vs)"

lemma rok_le: "rok m r vs \<Longrightarrow> m \<le> r"
  by (cases vs) auto

lemma rok_append: "rok m r vs \<Longrightarrow> rok m (r + n) (vs @ [of_nat (r + n)])"
  by (induction m r vs rule: rok.induct) (auto simp del: of_nat_add intro: le_add1 trans_le_add1)

lemma rok_end: "rok m r vs \<Longrightarrow> r_idx (rb_hdr rb) = of_nat m \<Longrightarrow> r_idx (rb_hdr (fold set_ridx vs rb)) = of_nat r"
  by (induction m r vs arbitrary: rb rule: rok.induct) (auto simp: set_ridx_def)

lemma cons_view_simps [simp]:
  "rb_cells (fold set_ridx vs rb) = rb_cells rb"
  "w_idx (rb_hdr (fold set_ridx vs rb)) = w_idx (rb_hdr rb)"
  "capacity (rb_hdr (fold set_ridx vs rb)) = capacity (rb_hdr rb)"
  "buffer_start base (rb_hdr (fold set_ridx vs rb)) = buffer_start base (rb_hdr rb)"
  by (induction vs arbitrary: rb) (simp_all add: set_ridx_def buffer_start_def)

text \<open>\<open>mw\<close> and \<open>mr\<close> are the positions of the two indices in memory.\<close>

definition tso_inv :: "u64 \<Rightarrow> nat \<Rightarrow> nat \<Rightarrow> tso \<Rightarrow> bool" where
  "tso_inv base mw mr s \<longleftrightarrow>
     (let n = length (rb_cells (tso_ring s)); hi = mr + n; hdr = rb_hdr (tso_ring s);
          pw = length (tso_sent s); cr = tso_released s in
      wok base cr hi (tso_sent s) mw (tso_ring s) (tso_pbuf s)
      \<and> rok mr cr (tso_cbuf s) \<and> r_idx hdr = of_nat mr
      \<and> cr \<le> mw \<and> mw \<le> pw \<and> pw \<le> hi
      \<and> (case tso_prod s of
           P_Idle \<Rightarrow> True
         | P_Writing pc \<Rightarrow> piece_data pc = buffer_pos base hdr (of_nat pw) \<and> pw + unat (piece_size pc) \<le> hi
         | P_Commit k \<Rightarrow> pw + unat k \<le> hi)
      \<and> (case tso_cons s of
           C_Idle \<Rightarrow> True
         | C_Reading pc \<Rightarrow> piece_data pc = buffer_pos base hdr (of_nat cr) \<and> cr + unat (piece_size pc) \<le> mw
         | C_Commit k \<Rightarrow> cr + unat k \<le> mw)
      \<and> (\<forall>(j, b) \<in> set (tso_seen s). j < pw \<and> b = tso_sent s ! j))"

lemma tso_invD:
  assumes "tso_inv base mw mr s"
  shows "wok base (tso_released s) (mr + length (rb_cells (tso_ring s))) (tso_sent s) mw (tso_ring s) (tso_pbuf s)"
    "rok mr (tso_released s) (tso_cbuf s)" "r_idx (rb_hdr (tso_ring s)) = of_nat mr"
    "tso_released s \<le> mw" "mw \<le> length (tso_sent s)"
    "length (tso_sent s) \<le> mr + length (rb_cells (tso_ring s))" "mr \<le> tso_released s"
    "ring_shape (tso_ring s)" "w_idx (rb_hdr (tso_ring s)) = of_nat mw"
  using assms wok_good [of base _ _ _ mw] rok_le
  by (auto simp: tso_inv_def Let_def) (auto simp: good_def dest: wok_good)

text \<open>What the two threads see of the header.\<close>

lemma producer_sees:
  assumes "tso_inv base mw mr s"
  shows "frame (prod_view base s) = frame (tso_ring s)"
    "good (tso_released s) (tso_sent s) (length (tso_sent s)) (prod_view base s)"
    "unat (writable_size (rb_hdr (prod_view base s))) = mr + length (rb_cells (tso_ring s)) - length (tso_sent s)"
proof -
  note I = tso_invD [OF assms]
  show f: "frame (prod_view base s) = frame (tso_ring s)"
    by (simp add: prod_view_def frame_fold)
  show g: "good (tso_released s) (tso_sent s) (length (tso_sent s)) (prod_view base s)"
    unfolding prod_view_def by (rule wok_end [OF I(1)])
  let ?hdr = "rb_hdr (prod_view base s)" and ?pw = "length (tso_sent s)" and ?n = "length (rb_cells (tso_ring s))"
  have cap: "unat (capacity ?hdr) = ?n" and r: "r_idx ?hdr = of_nat mr" and w: "w_idx ?hdr = of_nat ?pw"
    using f g I(3,8) by (auto simp: frame_def good_def ring_shape_def)
  have le: "mr \<le> ?pw" "?pw - mr \<le> ?n"
    using I(4-7) by linarith+
  then have rd: "unat (readable_size ?hdr) = ?pw - mr"
    using unat_less_2p64 [of "capacity ?hdr"] cap
    unfolding readable_size_def r w by (intro unat_diff_of_nat) linarith+
  then have "cb_ok ?hdr"
    using le(2) cap by (simp add: cb_ok_def word_le_nat_alt)
  then show "unat (writable_size ?hdr) = mr + ?n - ?pw"
    using unat_writable_size rd cap le by simp
qed

lemma consumer_sees:
  assumes "tso_inv base mw mr s"
  shows "unat (readable_size (rb_hdr (cons_view s))) = mw - tso_released s"
    "r_idx (rb_hdr (cons_view s)) = of_nat (tso_released s)"
proof -
  note I = tso_invD [OF assms]
  show r: "r_idx (rb_hdr (cons_view s)) = of_nat (tso_released s)"
    unfolding cons_view_def by (rule rok_end [OF I(2,3)])
  have "unat (capacity (rb_hdr (tso_ring s))) = length (rb_cells (tso_ring s))"
    using I(8) by (simp add: ring_shape_def)
  then have "mw - tso_released s < 2 ^ 64"
    using I(4-7) unat_less_2p64 [of "capacity (rb_hdr (tso_ring s))"] by linarith
  then show "unat (readable_size (rb_hdr (cons_view s))) = mw - tso_released s"
    using unat_diff_of_nat [OF I(4)] by (simp add: readable_size_def r) (simp add: cons_view_def I(9))
qed

text \<open>The steps of the producer.\<close>

lemma inv_tp_get:
  assumes "tso_inv base mw mr s"
  shows "tso_inv base mw mr (s\<lparr>tso_prod := P_Writing (circular_buffer_get_writable base (rb_hdr (prod_view base s)))\<rparr>)"
proof -
  note S = producer_sees [OF assms]
  have "w_idx (rb_hdr (prod_view base s)) = of_nat (length (tso_sent s))"
    using S(2) by (simp add: good_def)
  then show ?thesis
    using assms tso_invD(6) [OF assms] S(3) frame_pos [OF S(1)]
    by (simp add: tso_inv_def Let_def circular_buffer_get_writable_def)
qed

lemma inv_tp_clamp:
  assumes "tso_inv base mw mr s"
  shows "tso_inv base mw mr (s\<lparr>tso_prod := P_Commit (fst (circular_buffer_push_data (rb_hdr (prod_view base s)) n))\<rparr>)"
  using assms tso_invD(6) [OF assms] producer_sees(3) [OF assms]
    unat_min_le [of n "writable_size (rb_hdr (prod_view base s))"]
  by (simp add: tso_inv_def Let_def)

lemma inv_tp_store:
  assumes inv: "tso_inv base mw mr s" and w: "tso_prod s = P_Writing pc" and i: "i < unat (piece_size pc)"
  shows "tso_inv base mw mr (s\<lparr>tso_pbuf := tso_pbuf s @ [Byte_st (piece_data pc + of_nat i) b]\<rparr>)"
proof -
  note I = tso_invD [OF inv]
  let ?n = "length (rb_cells (tso_ring s))" and ?pw = "length (tso_sent s)" and ?hdr = "rb_hdr (tso_ring s)"
  have pc: "piece_data pc = buffer_pos base ?hdr (of_nat ?pw)" "?pw + unat (piece_size pc) \<le> mr + ?n"
    using inv w by (simp_all add: tso_inv_def Let_def)
  have shape: "pow2 (capacity ?hdr)" "?n = unat (capacity ?hdr)"
    using I(8) by (simp_all add: ring_shape_def)
  have "i < ?n"
    using pc(2) i I(4,5,7) by linarith
  then have off: "offset_of base ?hdr (piece_data pc + of_nat i) mod ?n = (?pw + i) mod ?n"
    using piece_offset [OF shape(1), of i base ?pw] by (simp add: pc(1) shape(2))
  have "wok base (tso_released s) (mr + ?n) (tso_sent s) mw (tso_ring s) (tso_pbuf s @ [Byte_st (piece_data pc + of_nat i) b])"
    by (rule wok_store [OF I(1) _ _ _ off]) (use pc(2) i I(7) in auto)
  then show ?thesis
    using inv by (simp add: tso_inv_def Let_def)
qed

lemma inv_tp_publish:
  assumes inv: "tso_inv base mw mr s" and p: "tso_prod s = P_Commit n"
  shows "tso_inv base mw mr (s\<lparr>tso_pbuf := tso_pbuf s @ [Widx_st (w_idx (rb_hdr (prod_view base s)) + n)], tso_prod := P_Idle,
      tso_sent := tso_sent s @ load_bytes base (prod_view base s)
        (buffer_pos base (rb_hdr (prod_view base s)) (w_idx (rb_hdr (prod_view base s)))) (unat n)\<rparr>)"
proof -
  note I = tso_invD [OF inv] and S = producer_sees [OF inv]
  let ?v = "prod_view base s" and ?pw = "length (tso_sent s)" and ?n = "length (rb_cells (tso_ring s))"
  have k: "?pw + unat n \<le> mr + ?n"
    using inv p by (simp add: tso_inv_def Let_def)
  have w: "w_idx (rb_hdr ?v) = of_nat ?pw" and shape: "ring_shape ?v"
    using S(2) by (simp_all add: good_def)
  have idx: "w_idx (rb_hdr ?v) + n = of_nat (?pw + unat n)"
    by (simp add: w)
  let ?bs = "ring_read (rb_cells ?v) ?pw (unat n)"
  have "0 < unat (capacity (rb_hdr ?v))"
    using shape cap_bounds(1) by (simp add: ring_shape_def)
  then have "offset_of base (rb_hdr ?v) (buffer_pos base (rb_hdr ?v) (of_nat ?pw)) mod length (rb_cells ?v) = ?pw mod length (rb_cells ?v)"
    using shape piece_offset [of "rb_hdr ?v" 0 base ?pw] by (simp add: ring_shape_def)
  then have bs: "load_bytes base ?v (buffer_pos base (rb_hdr ?v) (w_idx (rb_hdr ?v))) (unat n) = ?bs"
    unfolding w load_bytes_def by (rule ring_read_mod)
  have "wok base (tso_released s) (mr + ?n) (tso_sent s @ ?bs) mw (tso_ring s)
      (tso_pbuf s @ [Widx_st (of_nat (?pw + unat n))])"
    by (rule wok_publish [OF I(1) k]) (simp add: prod_view_def)
  then show ?thesis
    using inv k I(5) unfolding bs idx by (auto simp: tso_inv_def Let_def nth_append simp del: of_nat_add)
qed

text \<open>A store that leaves the buffer moves at most the write index in memory, and only forward.\<close>

lemma inv_apply_store:
  assumes inv: "tso_inv base mw mr s" and le: "mw \<le> mw'"
    and w: "wok base (tso_released s) (mr + length (rb_cells (tso_ring s))) (tso_sent s) mw'
      (apply_store base x (tso_ring s)) xs"
  shows "tso_inv base mw' mr (s\<lparr>tso_ring := apply_store base x (tso_ring s), tso_pbuf := xs\<rparr>)"
proof -
  have "mw' \<le> length (tso_sent s)"
    using wok_good [OF w] by (simp add: good_def)
  moreover have "r_idx (rb_hdr (apply_store base x (tso_ring s))) = r_idx (rb_hdr (tso_ring s))"
    using frame_apply [of base x "tso_ring s"] by (simp add: frame_def)
  ultimately show ?thesis
    using inv le w frame_pos [OF frame_apply, of base base x "tso_ring s"]
    by (auto simp: tso_inv_def Let_def split: producer.splits consumer.splits)
qed

lemma inv_tp_commit:
  assumes inv: "tso_inv base mw mr s" and x: "tso_pbuf s = x # xs"
  shows "\<exists>mw'. tso_inv base mw' mr (s\<lparr>tso_ring := apply_store base x (tso_ring s), tso_pbuf := xs\<rparr>)"
proof (cases x)
  case (Byte_st a b)
  then show ?thesis
    using inv_apply_store [OF inv le_refl, of x xs] tso_invD(1) [OF inv] x by auto
next
  case (Widx_st v)
  then obtain k' where "mw \<le> k'" "wok base (tso_released s) (mr + length (rb_cells (tso_ring s))) (tso_sent s) k'
      (apply_store base x (tso_ring s)) xs"
    using tso_invD(1) [OF inv] x by auto
  then show ?thesis
    using inv_apply_store [OF inv] by blast
qed

text \<open>The steps of the consumer.\<close>

lemma inv_tc_get:
  assumes "tso_inv base mw mr s"
  shows "tso_inv base mw mr (s\<lparr>tso_cons := C_Reading (circular_buffer_get_readable base (rb_hdr (cons_view s)))\<rparr>)"
  using assms consumer_sees [OF assms] tso_invD(4) [OF assms]
  by (simp add: tso_inv_def Let_def circular_buffer_get_readable_def)
    (simp add: cons_view_def buffer_pos_def)

lemma inv_tc_clamp:
  assumes "tso_inv base mw mr s"
  shows "tso_inv base mw mr (s\<lparr>tso_cons := C_Commit (fst (circular_buffer_pop_data (rb_hdr (cons_view s)) n))\<rparr>)"
  using assms consumer_sees(1) [OF assms] tso_invD(4) [OF assms]
    unat_min_le [of n "readable_size (rb_hdr (cons_view s))"]
  by (simp add: tso_inv_def Let_def)

lemma inv_tc_load:
  assumes inv: "tso_inv base mw mr s" and r: "tso_cons s = C_Reading pc" and i: "i < unat (piece_size pc)"
    and b: "load_bytes base (cons_view s) (piece_data pc + of_nat i) 1 = [b]"
  shows "tso_inv base mw mr (s\<lparr>tso_seen := tso_seen s @ [(tso_released s + i, b)]\<rparr>)"
proof -
  note I = tso_invD [OF inv]
  let ?rb = "tso_ring s" and ?cr = "tso_released s"
  let ?n = "length (rb_cells ?rb)" and ?hdr = "rb_hdr ?rb"
  have pc: "piece_data pc = buffer_pos base ?hdr (of_nat ?cr)" "?cr + unat (piece_size pc) \<le> mw"
    using inv r by (simp_all add: tso_inv_def Let_def)
  have shape: "pow2 (capacity ?hdr)" "?n = unat (capacity ?hdr)"
    using I(8) by (simp_all add: ring_shape_def)
  have lt: "?cr + i < mw"
    using pc(2) i by linarith
  then have "i < ?n"
    using I(5-7) by linarith
  then have "offset_of base ?hdr (piece_data pc + of_nat i) mod ?n = (?cr + i) mod ?n"
    using piece_offset [OF shape(1), of i base ?cr] by (simp add: pc(1) shape(2))
  then have "load_bytes base (cons_view s) (piece_data pc + of_nat i) 1 = ring_read (rb_cells ?rb) (?cr + i) 1"
    unfolding load_bytes_def cons_view_def offset_of_def cons_view_simps by (rule ring_read_mod)
  then have "b = rb_cells ?rb ! ((?cr + i) mod ?n)"
    using b by (simp add: ring_read_def)
  also have "\<dots> = tso_sent s ! (?cr + i)"
    using wok_good [OF I(1)] lt by (simp add: good_def)
  finally show ?thesis
    using inv lt I(5) by (auto simp: tso_inv_def Let_def)
qed

lemma inv_tc_publish:
  assumes inv: "tso_inv base mw mr s" and c: "tso_cons s = C_Commit n"
  shows "tso_inv base mw mr (s\<lparr>tso_cbuf := tso_cbuf s @ [r_idx (rb_hdr (cons_view s)) + n], tso_cons := C_Idle,
      tso_released := tso_released s + unat n\<rparr>)"
proof -
  note I = tso_invD [OF inv]
  have "r_idx (rb_hdr (cons_view s)) + n = of_nat (tso_released s + unat n)"
    by (simp add: consumer_sees(2) [OF inv])
  moreover have "wok base (tso_released s + unat n) (mr + length (rb_cells (tso_ring s))) (tso_sent s) mw (tso_ring s) (tso_pbuf s)"
    by (rule wok_mono [OF I(1)]) auto
  ultimately show ?thesis
    using inv c rok_append [OF I(2)] by (simp add: tso_inv_def Let_def del: of_nat_add)
qed

lemma inv_tc_commit:
  assumes inv: "tso_inv base mw mr s" and v: "tso_cbuf s = v # vs"
  shows "\<exists>mr'. tso_inv base mw mr' (s\<lparr>tso_ring := set_ridx v (tso_ring s), tso_cbuf := vs\<rparr>)"
proof -
  note I = tso_invD [OF inv]
  obtain m' where m': "mr \<le> m'" "v = of_nat m'" "rok m' (tso_released s) vs"
    using I(2) v by auto
  have "wok base (tso_released s) (m' + length (rb_cells (tso_ring s))) (tso_sent s) mw (set_ridx v (tso_ring s)) (tso_pbuf s)"
    unfolding wok_set_ridx by (rule wok_mono [OF I(1)]) (use m'(1) in auto)
  moreover have "rb_cells (set_ridx v (tso_ring s)) = rb_cells (tso_ring s)"
    "buffer_pos base (rb_hdr (set_ridx v (tso_ring s))) k = buffer_pos base (rb_hdr (tso_ring s)) k"
    "r_idx (rb_hdr (set_ridx v (tso_ring s))) = of_nat m'" for k
    by (simp_all add: set_ridx_def buffer_pos_def buffer_start_def m'(2))
  ultimately show ?thesis
    using inv m'(1,3) by (intro exI [of _ m'])
      (auto simp: tso_inv_def Let_def split: producer.splits consumer.splits)
qed

lemma tso_step_ok: "tso_step base s s' \<Longrightarrow> tso_inv base mw mr s \<Longrightarrow> \<exists>mw' mr'. tso_inv base mw' mr' s'"
proof (induction rule: tso_step.induct)
  case (tp_publish s n rb)
  then show ?case
    using inv_tp_publish [OF tp_publish(3,1)] by (intro exI) (simp only:)
next
  case (tp_commit s x xs)
  show ?case
    using inv_tp_commit [OF tp_commit(2,1)] by (elim exE) (intro exI)
next
  case (tc_commit s v vs)
  show ?case
    using inv_tc_commit [OF tc_commit(2,1)] by (elim exE) (intro exI)
qed ((rule exI)+, (rule inv_tp_get inv_tp_store inv_tp_clamp inv_tc_get inv_tc_load inv_tc_clamp inv_tc_publish; assumption))+

lemma tso_start_ok: "fresh_ring rb \<Longrightarrow> tso_inv base 0 0 (tso_start rb)"
  by (simp add: fresh_ring_def tso_start_def tso_inv_def good_def ring_shape_def Let_def)

lemma tso_reachable_ok:
  assumes "tso_reachable base rb s" "fresh_ring rb"
  shows "\<exists>mw mr. tso_inv base mw mr s"
  using assms(1) unfolding tso_reachable_def
proof (induction rule: rtranclp_induct)
  case base
  show ?case
    using tso_start_ok [OF assms(2)] by blast
next
  case (step s s')
  then show ?case
    using tso_step_ok by blast
qed

section \<open>What the consumer sees\<close>

text \<open>Two indices on their way never show more than was published and never more than fits.\<close>

lemma tso_in_flight:
  assumes "tso_inv base mw mr s"
  shows "length (tso_sent s) - tso_released s \<le> length (rb_cells (tso_ring s))"
  using tso_invD(6,7) [OF assms] by linarith

lemma tso_cells: "tso_step base s s' \<Longrightarrow> length (rb_cells (tso_ring s')) = length (rb_cells (tso_ring s))"
  by (induction rule: tso_step.induct) (simp_all add: set_ridx_def)

lemma tso_reachable_cells: "tso_reachable base rb s \<Longrightarrow> length (rb_cells (tso_ring s)) = length (rb_cells rb)"
  unfolding tso_reachable_def
  by (induction rule: rtranclp_induct) (simp_all add: tso_start_def tso_cells)

text \<open>C4: on a fresh buffer whose capacity is a power of two, the ring needs no fence under x86-TSO. With one
  producer and one consumer, every store delayed in its processor's store buffer for as long as the
  hardware likes, and the two sides interleaved at every access and every delivery, each byte the
  consumer loads from a readable piece is the byte the producer published at that position of the
  stream, and the published bytes not yet released never exceed the capacity.\<close>

theorem tso_reads_what_was_sent:
  assumes "tso_reachable base rb s" "fresh_ring rb"
  shows "(\<forall>(j, b) \<in> set (tso_seen s). j < length (tso_sent s) \<and> b = tso_sent s ! j)
    \<and> length (tso_sent s) - tso_released s \<le> unat (capacity (rb_hdr rb))"
proof -
  obtain mw mr where I: "tso_inv base mw mr s"
    using tso_reachable_ok [OF assms] by blast
  then show ?thesis
    using tso_in_flight [OF I] tso_reachable_cells [OF assms(1)] assms(2)
    by (auto simp: tso_inv_def Let_def fresh_ring_def)
qed

text \<open>Nothing is lost on the way. When both store buffers have drained, the two indices in shared
  memory are the positions published and released, and the cells between them are exactly the
  published bytes that were not released.\<close>

theorem tso_drained_ring:
  assumes "tso_reachable base rb s" "fresh_ring rb" "tso_pbuf s = []" "tso_cbuf s = []"
  shows "w_idx (rb_hdr (tso_ring s)) = of_nat (length (tso_sent s))
    \<and> r_idx (rb_hdr (tso_ring s)) = of_nat (tso_released s)
    \<and> ring_read (rb_cells (tso_ring s)) (tso_released s) (length (tso_sent s) - tso_released s)
      = drop (tso_released s) (tso_sent s)"
proof -
  obtain mw mr where I: "tso_inv base mw mr s"
    using tso_reachable_ok [OF assms(1,2)] by blast
  note D = tso_invD [OF I]
  have g: "good (tso_released s) (tso_sent s) mw (tso_ring s)" "mw = length (tso_sent s)" "mr = tso_released s"
    using D(1,2) assms(3,4) by auto
  then have "ring_read (rb_cells (tso_ring s)) (tso_released s) (length (tso_sent s) - tso_released s)
      = drop (tso_released s) (tso_sent s)"
    by (intro nth_equalityI) (auto simp: good_def nth_ring_read)
  then show ?thesis
    using D(3,9) g(2,3) by simp
qed

section \<open>A run of both sides\<close>

definition tso_demo :: "u8 list \<Rightarrow> size_t \<Rightarrow> tso_store list \<Rightarrow> producer \<Rightarrow> consumer \<Rightarrow> u8 list \<Rightarrow> (nat \<times> u8) list \<Rightarrow> tso" where
  "tso_demo cs w pb p c sn l = \<lparr>tso_ring = \<lparr>rb_hdr = demo_hdr\<lparr>w_idx := w\<rparr>, rb_cells = cs\<rparr>, tso_pbuf = pb,
     tso_cbuf = [], tso_prod = p, tso_cons = c, tso_sent = sn, tso_released = 0, tso_seen = l\<rparr>"

text \<open>One byte and its index go through the store buffer before the consumer loads the byte.\<close>

lemma tso_demo_run:
  "tso_reachable 0 demo_ring
    (tso_demo [42, 0, 0, 0] 1 [] P_Idle (C_Reading \<lparr>piece_data = 4096, piece_size = 1\<rparr>) [42] [(0, 42)])"
proof -
  let ?W = "P_Writing \<lparr>piece_data = 4096, piece_size = 4\<rparr>" and ?Z = "[0, 0, 0, 0]" and ?B = "[42, 0, 0, 0]"
  let ?R = "C_Reading \<lparr>piece_data = 4096, piece_size = 1\<rparr>" and ?b = "Byte_st 4096 42"
  note d = tso_demo_def demo_pieces prod_view_def cons_view_def
  note o = offset_of_def buffer_pos_def buffer_start_def aligned_header_size_def sizeof_header_def demo_hdr_def
  note st = store_bytes_def load_bytes_def ring_read_def
  have 0: "tso_start demo_ring = tso_demo ?Z 0 [] P_Idle C_Idle [] []"
    by (simp add: tso_start_def demo_ring_def tso_demo_def demo_hdr_def)
  have 1: "tso_step 0 (tso_demo ?Z 0 [] P_Idle C_Idle [] []) (tso_demo ?Z 0 [] ?W C_Idle [] [])"
    using tso_step.tp_get [of "tso_demo ?Z 0 [] P_Idle C_Idle [] []" 0]
    by (simp add: d demo_pieces(1) [unfolded demo_hdr_def] demo_hdr_def)
  have 2: "tso_step 0 (tso_demo ?Z 0 [] ?W C_Idle [] []) (tso_demo ?Z 0 [?b] ?W C_Idle [] [])"
    using tso_step.tp_store [of "tso_demo ?Z 0 [] ?W C_Idle [] []" _ 0 0 42] by (simp add: d)
  have 3: "tso_step 0 (tso_demo ?Z 0 [?b] ?W C_Idle [] []) (tso_demo ?Z 0 [?b] (P_Commit 1) C_Idle [] [])"
    using tso_step.tp_clamp [of "tso_demo ?Z 0 [?b] ?W C_Idle [] []" _ 0 1]
    by (simp add: d st writable_size_def readable_size_def demo_hdr_def)
  have 4: "tso_step 0 (tso_demo ?Z 0 [?b] (P_Commit 1) C_Idle [] []) (tso_demo ?Z 0 [?b, Widx_st 1] P_Idle C_Idle [42] [])"
    using tso_step.tp_publish [of "tso_demo ?Z 0 [?b] (P_Commit 1) C_Idle [] []" 1 _ 0, OF _ refl]
    by (simp add: d st o)
  have 5: "tso_step 0 (tso_demo ?Z 0 [?b, Widx_st 1] P_Idle C_Idle [42] []) (tso_demo ?B 0 [Widx_st 1] P_Idle C_Idle [42] [])"
    using tso_step.tp_commit [of "tso_demo ?Z 0 [?b, Widx_st 1] P_Idle C_Idle [42] []" ?b _ 0]
    by (simp add: d st o)
  have 6: "tso_step 0 (tso_demo ?B 0 [Widx_st 1] P_Idle C_Idle [42] []) (tso_demo ?B 1 [] P_Idle C_Idle [42] [])"
    using tso_step.tp_commit [of "tso_demo ?B 0 [Widx_st 1] P_Idle C_Idle [42] []" "Widx_st 1" _ 0] by (simp add: d)
  have 7: "tso_step 0 (tso_demo ?B 1 [] P_Idle C_Idle [42] []) (tso_demo ?B 1 [] P_Idle ?R [42] [])"
    using tso_step.tc_get [of "tso_demo ?B 1 [] P_Idle C_Idle [42] []" 0] by (simp add: d)
  have 8: "tso_step 0 (tso_demo ?B 1 [] P_Idle ?R [42] []) (tso_demo ?B 1 [] P_Idle ?R [42] [(0, 42)])"
    using tso_step.tc_load [of "tso_demo ?B 1 [] P_Idle ?R [42] []" _ 0 0 42] by (simp add: d st o)
  show ?thesis
    unfolding tso_reachable_def 0
    by (meson 1 2 3 4 5 6 7 8 r_into_rtranclp rtranclp.rtrancl_into_rtrancl)
qed

theorem tso_reads_what_was_sent_witness:
  "\<exists>s. tso_reachable 0 demo_ring s \<and> tso_seen s = [(0, 42)] \<and> tso_sent s ! 0 = 42"
  using tso_demo_run tso_reads_what_was_sent [OF tso_demo_run fresh_demo]
  by (intro exI [of _ "tso_demo _ _ _ _ _ _ _"]) (auto simp: tso_demo_def)

theorem tso_drained_ring_witness:
  "\<exists>s. tso_reachable 0 demo_ring s \<and> ring_read (rb_cells (tso_ring s)) 0 1 = [42]"
  using tso_demo_run tso_drained_ring [OF tso_demo_run fresh_demo]
  by (intro exI [of _ "tso_demo _ _ _ _ _ _ _"]) (auto simp: tso_demo_def)

end
