(* ===== verification/Lru_Cache.thy ===== *)
theory Lru_Cache
  imports Prelude
begin

text \<open>
  \<^verbatim>\<open>src/lru_cache.h\<close>: the cache that keeps its nodes in a list by last use and in a hash table by key.

  The list and the hash table are \<^verbatim>\<open>boost::intrusive\<close> containers and the memory comes from an
  allocator argument: neither is code of the library, so both are the record \<open>ops\<close>, an argument of
  every definition, and \<open>boost_contract\<close> states what their documentation promises. Both containers
  only link nodes; the nodes themselves lie in \<open>lru_nodes\<close> by address. A key is looked up through
  the hash the table stored for a node at insertion, as \<^verbatim>\<open>store_hash<true>\<close> has it. Allocation may
  throw \<^verbatim>\<open>std::bad_alloc\<close>: the result is then \<open>None\<close>, beside the state the exception leaves behind.
\<close>

section \<open>The containers and the allocator\<close>

record ('l, 'h, 'c) intrusive =
  l_new :: 'l
  l_is_empty :: "'l \<Rightarrow> bool"
  l_size :: "'l \<Rightarrow> size_t"
  l_front :: "'l \<Rightarrow> u64"
  l_push_back :: "'l \<Rightarrow> u64 \<Rightarrow> 'l"
  l_pop_front :: "'l \<Rightarrow> 'l"
  l_erase :: "'l \<Rightarrow> u64 \<Rightarrow> 'l"
  l_splice_end :: "'l \<Rightarrow> u64 \<Rightarrow> 'l"
  l_clear :: "'l \<Rightarrow> 'l"
  h_new :: "u64 \<Rightarrow> size_t \<Rightarrow> 'h"
  h_find :: "'h \<Rightarrow> size_t \<Rightarrow> (u64 \<Rightarrow> bool) \<Rightarrow> u64 option"
  h_insert_check :: "'h \<Rightarrow> size_t \<Rightarrow> (u64 \<Rightarrow> bool) \<Rightarrow> u64 option \<times> 'c"
  h_insert_commit :: "'h \<Rightarrow> u64 \<Rightarrow> 'c \<Rightarrow> 'h"
  h_erase :: "'h \<Rightarrow> u64 \<Rightarrow> 'h"
  h_rehash :: "'h \<Rightarrow> u64 \<Rightarrow> size_t \<Rightarrow> 'h"
  h_bucket_pointer :: "'h \<Rightarrow> u64"
  h_bucket_count :: "'h \<Rightarrow> size_t"
  h_dispose_order :: "'h \<Rightarrow> u64 list"
  a_node :: "u64 set \<Rightarrow> u64 option"
  a_buckets :: "u64 set \<Rightarrow> size_t \<Rightarrow> u64 option"

text \<open>What a list shows is the sequence of its nodes; what a table shows is the stored hash of each
  of its nodes.\<close>

record ('l, 'h) container_view =
  elems :: "'l \<Rightarrow> u64 list"
  hashes :: "'h \<Rightarrow> u64 \<Rightarrow> size_t option"

definition lookup_ok :: "(u64 \<Rightarrow> size_t option) \<Rightarrow> size_t \<Rightarrow> (u64 \<Rightarrow> bool) \<Rightarrow> u64 option \<Rightarrow> bool" where
  "lookup_ok m hv p r =
     (case r of None \<Rightarrow> \<forall>n. m n = Some hv \<longrightarrow> \<not> p n | Some n \<Rightarrow> m n = Some hv \<and> p n)"

definition list_contract :: "('l, 'h, 'c) intrusive \<Rightarrow> ('l, 'h) container_view \<Rightarrow> bool" where
  "list_contract ops V \<longleftrightarrow>
     elems V (l_new ops) = []
     \<and> (\<forall>l. l_is_empty ops l \<longleftrightarrow> elems V l = [])
     \<and> (\<forall>l. l_size ops l = of_nat (length (elems V l)))
     \<and> (\<forall>l n. elems V (l_push_back ops l n) = elems V l @ [n])
     \<and> (\<forall>l. elems V l \<noteq> [] \<longrightarrow> l_front ops l = hd (elems V l) \<and> elems V (l_pop_front ops l) = tl (elems V l))
     \<and> (\<forall>l n. n \<in> set (elems V l) \<longrightarrow> elems V (l_erase ops l n) = remove1 n (elems V l))
     \<and> (\<forall>l n. n \<in> set (elems V l) \<longrightarrow> elems V (l_splice_end ops l n) = remove1 n (elems V l) @ [n])
     \<and> (\<forall>l. elems V (l_clear ops l) = [])"

definition table_contract :: "('l, 'h, 'c) intrusive \<Rightarrow> ('l, 'h) container_view \<Rightarrow> bool" where
  "table_contract ops V \<longleftrightarrow>
     (\<forall>p c. pow2 c \<longrightarrow> hashes V (h_new ops p c) = Map.empty
        \<and> h_bucket_pointer ops (h_new ops p c) = p \<and> h_bucket_count ops (h_new ops p c) = c)
     \<and> (\<forall>h hv p. lookup_ok (hashes V h) hv p (h_find ops h hv p))
     \<and> (\<forall>h hv p. lookup_ok (hashes V h) hv p (fst (h_insert_check ops h hv p)))
     \<and> (\<forall>h hv p n cd. h_insert_check ops h hv p = (None, cd) \<longrightarrow> hashes V h n = None \<longrightarrow>
          hashes V (h_insert_commit ops h n cd) = (hashes V h)(n \<mapsto> hv)
          \<and> h_bucket_pointer ops (h_insert_commit ops h n cd) = h_bucket_pointer ops h
          \<and> h_bucket_count ops (h_insert_commit ops h n cd) = h_bucket_count ops h)
     \<and> (\<forall>h n. hashes V h n \<noteq> None \<longrightarrow>
          hashes V (h_erase ops h n) = (hashes V h)(n := None)
          \<and> h_bucket_pointer ops (h_erase ops h n) = h_bucket_pointer ops h
          \<and> h_bucket_count ops (h_erase ops h n) = h_bucket_count ops h)
     \<and> (\<forall>h p c. pow2 c \<longrightarrow> hashes V (h_rehash ops h p c) = hashes V h
        \<and> h_bucket_pointer ops (h_rehash ops h p c) = p \<and> h_bucket_count ops (h_rehash ops h p c) = c)
     \<and> (\<forall>h. distinct (h_dispose_order ops h) \<and> set (h_dispose_order ops h) = dom (hashes V h))"

definition alloc_contract :: "('l, 'h, 'c) intrusive \<Rightarrow> bool" where
  "alloc_contract ops \<longleftrightarrow>
     (\<forall>live p. a_node ops live = Some p \<longrightarrow> p \<notin> live)
     \<and> (\<forall>live n p. a_buckets ops live n = Some p \<longrightarrow> p \<notin> live)"

definition boost_contract :: "('l, 'h, 'c) intrusive \<Rightarrow> ('l, 'h) container_view \<Rightarrow> bool" where
  "boost_contract ops V \<longleftrightarrow> list_contract ops V \<and> table_contract ops V \<and> alloc_contract ops"

section \<open>The cache\<close>

record ('k, 'v) lru_node =
  deadline :: time_point
  node_key :: 'k
  node_value :: 'v

record ('k, 'v, 'l, 'h) lru =
  lru_timeout :: time_point
  lru_list :: 'l
  lru_hash :: 'h
  lru_nodes :: "u64 \<Rightarrow> ('k, 'v) lru_node option"
  lru_buckets :: "u64 \<Rightarrow> size_t option"

definition alloc_buckets ::
    "('l, 'h, 'c) intrusive \<Rightarrow> size_t \<Rightarrow> (u64 \<Rightarrow> size_t option) \<Rightarrow> ((u64 \<times> size_t) \<times> (u64 \<Rightarrow> size_t option)) option" where
  "alloc_buckets ops n bs =
     (case a_buckets ops (dom bs) n of None \<Rightarrow> None | Some p \<Rightarrow> Some ((p, n), bs(p \<mapsto> n)))"

definition free_buckets :: "u64 \<Rightarrow> size_t \<Rightarrow> (u64 \<Rightarrow> size_t option) \<Rightarrow> (u64 \<Rightarrow> size_t option) res" where
  "free_buckets p n bs = (if bs p = Some n then Inr (bs(p := None)) else Inl Undefined)"

definition lru_new :: "('l, 'h, 'c) intrusive \<Rightarrow> time_point \<Rightarrow> ('k, 'v, 'l, 'h) lru option" where
  "lru_new ops timeout =
     (case alloc_buckets ops 16 Map.empty of
        None \<Rightarrow> None
      | Some ((p, n), bs) \<Rightarrow>
          Some \<lparr>lru_timeout = timeout, lru_list = l_new ops, lru_hash = h_new ops p n,
            lru_nodes = Map.empty, lru_buckets = bs\<rparr>)"

text \<open>\<^verbatim>\<open>Equal\<close> on a key and a node.\<close>

definition key_matches ::
    "('u \<Rightarrow> 'k \<Rightarrow> bool) \<Rightarrow> 'u \<Rightarrow> ('k, 'v, 'l, 'h) lru \<Rightarrow> u64 \<Rightarrow> bool" where
  "key_matches eq k s n = (case lru_nodes s n of None \<Rightarrow> False | Some nd \<Rightarrow> eq k (node_key nd))"

definition lru_find ::
    "('l, 'h, 'c) intrusive \<Rightarrow> ('u \<Rightarrow> size_t) \<Rightarrow> ('u \<Rightarrow> 'k \<Rightarrow> bool) \<Rightarrow> 'u \<Rightarrow> ('k, 'v, 'l, 'h) lru \<Rightarrow> u64 option" where
  "lru_find ops hash eq k s = h_find ops (lru_hash s) (hash k) (key_matches eq k s)"

definition lru_grow :: "('l, 'h, 'c) intrusive \<Rightarrow> ('k, 'v, 'l, 'h) lru \<Rightarrow> (bool \<times> ('k, 'v, 'l, 'h) lru) res" where
  "lru_grow ops s =
     (if h_bucket_count ops (lru_hash s) \<le> l_size ops (lru_list s) then
        let buckets = h_bucket_pointer ops (lru_hash s); count = h_bucket_count ops (lru_hash s)
        in case alloc_buckets ops (count * 2) (lru_buckets s) of
             None \<Rightarrow> Inr (False, s)
           | Some ((p, n), bs) \<Rightarrow>
               bind_res (free_buckets buckets count bs) (\<lambda>bs.
                 Inr (True, s\<lparr>lru_hash := h_rehash ops (lru_hash s) p n, lru_buckets := bs\<rparr>))
      else Inr (True, s))"

definition lru_insert ::
    "('l, 'h, 'c) intrusive \<Rightarrow> ('k \<Rightarrow> size_t) \<Rightarrow> ('k \<Rightarrow> 'k \<Rightarrow> bool) \<Rightarrow> time_point \<Rightarrow> 'k \<Rightarrow> 'v \<Rightarrow>
     ('k, 'v, 'l, 'h) lru \<Rightarrow> ((u64 \<times> bool) option \<times> ('k, 'v, 'l, 'h) lru) res" where
  "lru_insert ops hash eq now k v s =
     (case h_insert_check ops (lru_hash s) (hash k) (key_matches eq k s) of
        (Some n, _) \<Rightarrow> Inr (Some (n, False), s)
      | (None, commit_data) \<Rightarrow>
          (case a_node ops (dom (lru_nodes s)) of
             None \<Rightarrow> Inr (None, s)
           | Some p \<Rightarrow>
               bind_res (time_add now (lru_timeout s)) (\<lambda>d.
                 let s = s\<lparr>lru_nodes := (lru_nodes s)(p \<mapsto> \<lparr>deadline = d, node_key = k, node_value = v\<rparr>),
                           lru_list := l_push_back ops (lru_list s) p,
                           lru_hash := h_insert_commit ops (lru_hash s) p commit_data\<rparr>
                 in bind_res (lru_grow ops s) (\<lambda>(fits, s).
                      Inr (if fits then Some (p, True) else None, s)))))"

text \<open>The destructor of a node and its deallocation.\<close>

definition free_node :: "u64 \<Rightarrow> ('k, 'v, 'l, 'h) lru \<Rightarrow> ('k, 'v, 'l, 'h) lru res" where
  "free_node n s =
     (case lru_nodes s n of None \<Rightarrow> Inl Undefined | Some _ \<Rightarrow> Inr (s\<lparr>lru_nodes := (lru_nodes s)(n := None)\<rparr>))"

definition lru_erase :: "('l, 'h, 'c) intrusive \<Rightarrow> u64 \<Rightarrow> ('k, 'v, 'l, 'h) lru \<Rightarrow> ('k, 'v, 'l, 'h) lru res" where
  "lru_erase ops it s =
     free_node it (s\<lparr>lru_hash := h_erase ops (lru_hash s) it, lru_list := l_erase ops (lru_list s) it\<rparr>)"

definition lru_touch ::
    "('l, 'h, 'c) intrusive \<Rightarrow> time_point \<Rightarrow> u64 \<Rightarrow> ('k, 'v, 'l, 'h) lru \<Rightarrow> ('k, 'v, 'l, 'h) lru res" where
  "lru_touch ops now it s =
     bind_res (time_add now (lru_timeout s)) (\<lambda>d.
       case lru_nodes s it of
         None \<Rightarrow> Inl Undefined
       | Some nd \<Rightarrow> Inr (s\<lparr>lru_nodes := (lru_nodes s)(it \<mapsto> nd\<lparr>deadline := d\<rparr>),
                           lru_list := l_splice_end ops (lru_list s) it\<rparr>))"

text \<open>\<^verbatim>\<open>clear_expired\<close>: the callback is seen as the list of the calls made to it.\<close>

partial_function (option) lru_clear_loop ::
    "('l, 'h, 'c) intrusive \<Rightarrow> time_point \<Rightarrow> size_t \<Rightarrow> ('k \<times> 'v) list \<Rightarrow> ('k, 'v, 'l, 'h) lru \<Rightarrow>
     (size_t \<times> ('k \<times> 'v) list \<times> ('k, 'v, 'l, 'h) lru) res option" where
  "lru_clear_loop ops now count calls s =
     (if l_is_empty ops (lru_list s) then Some (Inr (count, calls, s))
      else (case lru_nodes s (l_front ops (lru_list s)) of
              None \<Rightarrow> Some (Inl Undefined)
            | Some nd \<Rightarrow>
                if sint now < sint (deadline nd) then Some (Inr (count, calls, s))
                else lru_clear_loop ops now (count + 1) (calls @ [(node_key nd, node_value nd)])
                       (s\<lparr>lru_hash := h_erase ops (lru_hash s) (l_front ops (lru_list s)),
                          lru_list := l_pop_front ops (lru_list s),
                          lru_nodes := (lru_nodes s)(l_front ops (lru_list s) := None)\<rparr>)))"

declare lru_clear_loop.simps [code]

definition lru_clear_expired ::
    "('l, 'h, 'c) intrusive \<Rightarrow> time_point \<Rightarrow> ('k, 'v, 'l, 'h) lru \<Rightarrow>
     (size_t \<times> ('k \<times> 'v) list \<times> ('k, 'v, 'l, 'h) lru) res option" where
  "lru_clear_expired ops now s = lru_clear_loop ops now 0 [] s"

text \<open>The overload without a callback.\<close>

definition lru_clear_expired_quietly ::
    "('l, 'h, 'c) intrusive \<Rightarrow> time_point \<Rightarrow> ('k, 'v, 'l, 'h) lru \<Rightarrow> (size_t \<times> ('k, 'v, 'l, 'h) lru) res option" where
  "lru_clear_expired_quietly ops now s =
     map_option (\<lambda>r. bind_res r (\<lambda>(n, calls, s). Inr (n, s))) (lru_clear_expired ops now s)"

text \<open>The observers; the end iterator is \<open>None\<close>.\<close>

definition lru_begin :: "('l, 'h, 'c) intrusive \<Rightarrow> ('k, 'v, 'l, 'h) lru \<Rightarrow> u64 option" where
  "lru_begin ops s = (if l_is_empty ops (lru_list s) then None else Some (l_front ops (lru_list s)))"

definition lru_size :: "('l, 'h, 'c) intrusive \<Rightarrow> ('k, 'v, 'l, 'h) lru \<Rightarrow> size_t" where
  "lru_size ops s = l_size ops (lru_list s)"

definition lru_empty :: "('l, 'h, 'c) intrusive \<Rightarrow> ('k, 'v, 'l, 'h) lru \<Rightarrow> bool" where
  "lru_empty ops s = l_is_empty ops (lru_list s)"

definition lru_bucket_count :: "('l, 'h, 'c) intrusive \<Rightarrow> ('k, 'v, 'l, 'h) lru \<Rightarrow> size_t" where
  "lru_bucket_count ops s = h_bucket_count ops (lru_hash s)"

text \<open>The destructor: the list is emptied, then every node of the table is destroyed and freed. The
  bucket array is not given back.\<close>

fun free_nodes :: "u64 list \<Rightarrow> ('k, 'v, 'l, 'h) lru \<Rightarrow> ('k, 'v, 'l, 'h) lru res" where
  "free_nodes [] s = Inr s"
| "free_nodes (n # ns) s = bind_res (free_node n s) (free_nodes ns)"

definition lru_destroy :: "('l, 'h, 'c) intrusive \<Rightarrow> ('k, 'v, 'l, 'h) lru \<Rightarrow> ('k, 'v, 'l, 'h) lru res" where
  "lru_destroy ops s =
     free_nodes (h_dispose_order ops (lru_hash s)) (s\<lparr>lru_list := l_clear ops (lru_list s)\<rparr>)"


section \<open>The invariant\<close>

text \<open>What the hash and the comparison of the user must satisfy.\<close>

definition key_eq_ok :: "('k \<Rightarrow> size_t) \<Rightarrow> ('k \<Rightarrow> 'k \<Rightarrow> bool) \<Rightarrow> bool" where
  "key_eq_ok hash eq \<longleftrightarrow> (\<forall>a. eq a a) \<and> (\<forall>a b. eq a b \<longrightarrow> eq b a \<and> hash a = hash b)"

text \<open>The cache as its users see it: its nodes by last use, oldest first.\<close>

definition entries :: "('l, 'h) container_view \<Rightarrow> ('k, 'v, 'l, 'h) lru \<Rightarrow> ('k, 'v) lru_node list" where
  "entries V s = map (\<lambda>n. the (lru_nodes s n)) (elems V (lru_list s))"

definition keys_distinct :: "('k \<Rightarrow> 'k \<Rightarrow> bool) \<Rightarrow> (u64 \<Rightarrow> ('k, 'v) lru_node option) \<Rightarrow> bool" where
  "keys_distinct eq m \<longleftrightarrow>
     (\<forall>n n' nd nd'. m n = Some nd \<longrightarrow> m n' = Some nd' \<longrightarrow> eq (node_key nd) (node_key nd') \<longrightarrow> n = n')"

definition lru_ok ::
    "('l, 'h, 'c) intrusive \<Rightarrow> ('l, 'h) container_view \<Rightarrow> ('k \<Rightarrow> size_t) \<Rightarrow> ('k \<Rightarrow> 'k \<Rightarrow> bool) \<Rightarrow>
     ('k, 'v, 'l, 'h) lru \<Rightarrow> bool" where
  "lru_ok ops V hash eq s \<longleftrightarrow>
     distinct (elems V (lru_list s)) \<and> set (elems V (lru_list s)) = dom (lru_nodes s)
     \<and> hashes V (lru_hash s) = (\<lambda>n. map_option (\<lambda>nd. hash (node_key nd)) (lru_nodes s n))
     \<and> keys_distinct eq (lru_nodes s)
     \<and> lru_buckets s = [h_bucket_pointer ops (lru_hash s) \<mapsto> h_bucket_count ops (lru_hash s)]
     \<and> pow2 (h_bucket_count ops (lru_hash s))"

text \<open>The load bound that \<open>insert\<close> keeps by growing the table.\<close>

definition load_ok :: "('l, 'h, 'c) intrusive \<Rightarrow> ('l, 'h) container_view \<Rightarrow> ('k, 'v, 'l, 'h) lru \<Rightarrow> bool" where
  "load_ok ops V s \<longleftrightarrow> length (elems V (lru_list s)) < unat (h_bucket_count ops (lru_hash s))"

lemma list_lawsD:
  assumes "boost_contract ops V"
  shows "elems V (l_new ops) = []" "l_is_empty ops l \<longleftrightarrow> elems V l = []"
    "l_size ops l = of_nat (length (elems V l))" "elems V (l_push_back ops l n) = elems V l @ [n]"
    "elems V l \<noteq> [] \<Longrightarrow> l_front ops l = hd (elems V l)"
    "elems V l \<noteq> [] \<Longrightarrow> elems V (l_pop_front ops l) = tl (elems V l)"
    "n \<in> set (elems V l) \<Longrightarrow> elems V (l_erase ops l n) = remove1 n (elems V l)"
    "n \<in> set (elems V l) \<Longrightarrow> elems V (l_splice_end ops l n) = remove1 n (elems V l) @ [n]"
    "elems V (l_clear ops l) = []"
  using assms by (simp_all add: boost_contract_def list_contract_def)

lemma table_lawsD:
  assumes "boost_contract ops V"
  shows "pow2 c \<Longrightarrow> hashes V (h_new ops p c) = Map.empty
      \<and> h_bucket_pointer ops (h_new ops p c) = p \<and> h_bucket_count ops (h_new ops p c) = c"
    "lookup_ok (hashes V h) hv P (h_find ops h hv P)"
    "lookup_ok (hashes V h) hv P (fst (h_insert_check ops h hv P))"
    "h_insert_check ops h hv P = (None, cd) \<Longrightarrow> hashes V h n = None \<Longrightarrow>
      hashes V (h_insert_commit ops h n cd) = (hashes V h)(n \<mapsto> hv)
      \<and> h_bucket_pointer ops (h_insert_commit ops h n cd) = h_bucket_pointer ops h
      \<and> h_bucket_count ops (h_insert_commit ops h n cd) = h_bucket_count ops h"
    "hashes V h n \<noteq> None \<Longrightarrow> hashes V (h_erase ops h n) = (hashes V h)(n := None)
      \<and> h_bucket_pointer ops (h_erase ops h n) = h_bucket_pointer ops h
      \<and> h_bucket_count ops (h_erase ops h n) = h_bucket_count ops h"
    "pow2 c \<Longrightarrow> hashes V (h_rehash ops h p c) = hashes V h
      \<and> h_bucket_pointer ops (h_rehash ops h p c) = p \<and> h_bucket_count ops (h_rehash ops h p c) = c"
    "distinct (h_dispose_order ops h) \<and> set (h_dispose_order ops h) = dom (hashes V h)"
  using assms by (simp_all add: boost_contract_def table_contract_def)

lemma alloc_lawsD:
  assumes "boost_contract ops V"
  shows "a_node ops live = Some p \<Longrightarrow> p \<notin> live" "a_buckets ops blive n = Some p \<Longrightarrow> p \<notin> blive"
  using assms by (simp_all add: boost_contract_def alloc_contract_def)

lemma lru_okD:
  assumes "lru_ok ops V hash eq s"
  shows "distinct (elems V (lru_list s))" "set (elems V (lru_list s)) = dom (lru_nodes s)"
    "hashes V (lru_hash s) n = map_option (\<lambda>nd. hash (node_key nd)) (lru_nodes s n)"
    "keys_distinct eq (lru_nodes s)"
    "lru_buckets s = [h_bucket_pointer ops (lru_hash s) \<mapsto> h_bucket_count ops (lru_hash s)]"
    "pow2 (h_bucket_count ops (lru_hash s))"
  using assms by (simp_all add: lru_ok_def)

text \<open>A lookup by stored hash and key is a lookup by key.\<close>

lemma lookup_keys:
  assumes "lru_ok ops V hash eq s" "key_eq_ok hash eq"
    and "lookup_ok (hashes V (lru_hash s)) (hash k) (key_matches eq k s) r"
  shows "r = None \<longleftrightarrow> (\<forall>nd \<in> ran (lru_nodes s). \<not> eq k (node_key nd))"
    "r = Some n \<Longrightarrow> \<exists>nd. lru_nodes s n = Some nd \<and> eq k (node_key nd)"
proof -
  have h: "hashes V (lru_hash s) m = map_option (\<lambda>nd. hash (node_key nd)) (lru_nodes s m)" for m
    by (rule lru_okD(3) [OF assms(1)])
  show ex: "r = Some n \<Longrightarrow> \<exists>nd. lru_nodes s n = Some nd \<and> eq k (node_key nd)" for n
    using assms(3) by (auto simp: lookup_ok_def key_matches_def split: option.splits)
  show "r = None \<longleftrightarrow> (\<forall>nd \<in> ran (lru_nodes s). \<not> eq k (node_key nd))"
  proof
    assume "r = None"
    then show "\<forall>nd \<in> ran (lru_nodes s). \<not> eq k (node_key nd)"
      using assms(2,3) h by (fastforce simp: lookup_ok_def key_matches_def key_eq_ok_def ran_def)
  next
    assume "\<forall>nd \<in> ran (lru_nodes s). \<not> eq k (node_key nd)"
    then show "r = None"
      using ex by (cases r) (auto simp: ran_def)
  qed
qed

lemma ran_entries:
  "lru_ok ops V hash eq s \<Longrightarrow> set (entries V s) = ran (lru_nodes s)"
  by (auto simp: entries_def lru_okD(2) ran_def dom_def image_def)

text \<open>Reading the nodes in list order is not changed by nodes outside the list.\<close>

lemma map_the_upd:
  "n \<notin> set ns \<Longrightarrow> map (\<lambda>m. the ((f(n := x)) m)) ns = map (\<lambda>m. the (f m)) ns"
  by (induction ns) auto

section \<open>Construction and lookup\<close>

lemma lru_new_ok:
  assumes "boost_contract ops V" "lru_new ops timeout = Some s"
  shows "lru_ok ops V hash eq s \<and> load_ok ops V s \<and> entries V s = []"
proof -
  have p2: "pow2 16"
    using pow2I [of 4] by simp
  then show ?thesis
    using assms(2) table_lawsD(1) [OF assms(1) p2] list_lawsD(1) [OF assms(1)]
    by (auto simp: lru_new_def alloc_buckets_def lru_ok_def load_ok_def entries_def keys_distinct_def
        split: option.splits)
qed

text \<open>\<open>find\<close> returns an iterator exactly when an entry with an equal key is in the cache, and it is
  the iterator of that entry.\<close>

theorem lru_find_correct:
  assumes "boost_contract ops V" "key_eq_ok hash eq" "lru_ok ops V hash eq s"
  shows "(lru_find ops hash eq k s = None \<longleftrightarrow> (\<forall>e \<in> set (entries V s). \<not> eq k (node_key e)))
    \<and> (\<forall>n. lru_find ops hash eq k s = Some n \<longrightarrow>
         n \<in> set (elems V (lru_list s)) \<and> (\<exists>e. lru_nodes s n = Some e \<and> e \<in> set (entries V s) \<and> eq k (node_key e)))"
proof -
  have l: "lookup_ok (hashes V (lru_hash s)) (hash k) (key_matches eq k s) (lru_find ops hash eq k s)"
    unfolding lru_find_def by (rule table_lawsD(2) [OF assms(1)])
  show ?thesis
    using lookup_keys [OF assms(3,2) l] ran_entries [OF assms(3)] lru_okD(2) [OF assms(3)]
    by (auto simp: ran_def) blast
qed


section \<open>Insertion\<close>

definition insert_at :: "u64 \<Rightarrow> ('k, 'v) lru_node \<Rightarrow> 'l \<Rightarrow> 'h \<Rightarrow> ('k, 'v, 'l, 'h) lru \<Rightarrow> ('k, 'v, 'l, 'h) lru" where
  "insert_at p nd l h s = s\<lparr>lru_nodes := (lru_nodes s)(p \<mapsto> nd), lru_list := l, lru_hash := h\<rparr>"

lemma insert_at_ok:
  assumes "boost_contract ops V" "key_eq_ok hash eq" "lru_ok ops V hash eq s"
    and "h_insert_check ops (lru_hash s) (hash (node_key nd)) (key_matches eq (node_key nd) s) = (None, cd)"
    and "p \<notin> dom (lru_nodes s)"
  defines "s' \<equiv> insert_at p nd (l_push_back ops (lru_list s) p) (h_insert_commit ops (lru_hash s) p cd) s"
  shows "lru_ok ops V hash eq s'" "entries V s' = entries V s @ [nd]"
    "elems V (lru_list s') = elems V (lru_list s) @ [p]"
    "h_bucket_count ops (lru_hash s') = h_bucket_count ops (lru_hash s)"
proof -
  note D = lru_okD [OF assms(3)]
  have free: "lru_nodes s p = None"
    using assms(5) by auto
  then have h: "hashes V (h_insert_commit ops (lru_hash s) p cd) = (hashes V (lru_hash s))(p \<mapsto> hash (node_key nd))
      \<and> h_bucket_pointer ops (h_insert_commit ops (lru_hash s) p cd) = h_bucket_pointer ops (lru_hash s)
      \<and> h_bucket_count ops (h_insert_commit ops (lru_hash s) p cd) = h_bucket_count ops (lru_hash s)"
    by (intro table_lawsD(4) [OF assms(1,4)]) (simp add: D(3))
  have l: "elems V (l_push_back ops (lru_list s) p) = elems V (lru_list s) @ [p]"
    by (rule list_lawsD(4) [OF assms(1)])
  have new: "p \<notin> set (elems V (lru_list s))"
    using D(2) assms(5) by simp
  have "\<forall>e \<in> ran (lru_nodes s). \<not> eq (node_key nd) (node_key e)"
    using lookup_keys(1) [OF assms(3,2), of "node_key nd" None]
      table_lawsD(3) [OF assms(1), of "lru_hash s" "hash (node_key nd)" "key_matches eq (node_key nd) s"] assms(4)
    by simp
  then have "keys_distinct eq ((lru_nodes s)(p \<mapsto> nd))"
    using D(4) assms(2) unfolding keys_distinct_def key_eq_ok_def by (auto simp: ran_def)
  then show "lru_ok ops V hash eq s'"
    using D h l new by (auto simp: lru_ok_def s'_def insert_at_def)
  show "entries V s' = entries V s @ [nd]"
    using new by (simp add: entries_def s'_def insert_at_def l)
  show "elems V (lru_list s') = elems V (lru_list s) @ [p]"
    by (simp add: s'_def insert_at_def l)
  show "h_bucket_count ops (lru_hash s') = h_bucket_count ops (lru_hash s)"
    by (simp add: s'_def insert_at_def h)
qed

text \<open>Growing swaps the bucket array for one of twice the length, or throws and changes nothing.\<close>

lemma lru_grow_ok:
  assumes "boost_contract ops V" "lru_ok ops V hash eq s"
    and "unat (h_bucket_count ops (lru_hash s)) * 2 < 2 ^ 64"
  shows "\<exists>fits s'. lru_grow ops s = Inr (fits, s') \<and> lru_ok ops V hash eq s' \<and> entries V s' = entries V s
    \<and> lru_nodes s' = lru_nodes s \<and> lru_timeout s' = lru_timeout s
    \<and> unat (h_bucket_count ops (lru_hash s')) \<le> max (unat (h_bucket_count ops (lru_hash s))) (2 * length (elems V (lru_list s)))
    \<and> (a_buckets ops (dom (lru_buckets s)) (h_bucket_count ops (lru_hash s) * 2) \<noteq> None \<longrightarrow> fits)
    \<and> (fits \<longrightarrow> length (elems V (lru_list s)) \<le> unat (h_bucket_count ops (lru_hash s)) \<longrightarrow> load_ok ops V s')"
proof -
  let ?h = "lru_hash s"
  let ?c = "h_bucket_count ops ?h" and ?n = "length (elems V (lru_list s))"
  note D = lru_okD [OF assms(2)]
  show ?thesis
  proof (cases "?c \<le> l_size ops (lru_list s)")
    case False
    have "load_ok ops V s" if "?n \<le> unat ?c"
    proof -
      have "unat (l_size ops (lru_list s)) = ?n"
        using that assms(3) by (simp add: list_lawsD(3) [OF assms(1)] unat_of_nat64)
      then show ?thesis
        using False by (simp add: load_ok_def word_le_nat_alt)
    qed
    then show ?thesis
      using False assms(2) by (intro exI [of _ True] exI [of _ s]) (simp add: lru_grow_def)
  next
    case full: True
    show ?thesis
    proof (cases "a_buckets ops (dom (lru_buckets s)) (?c * 2)")
      case None
      then show ?thesis
        using full assms(2)
        by (intro exI [of _ False] exI [of _ s]) (simp add: lru_grow_def alloc_buckets_def Let_def)
    next
      case (Some q)
      have fresh: "q \<noteq> h_bucket_pointer ops ?h"
        using alloc_lawsD(2) [OF assms(1) Some] D(5) by auto
      have c2: "unat (?c * 2) = unat ?c * 2"
        using assms(3) by (simp add: unat_word_ariths)
      have p2: "pow2 (?c * 2)"
        using assms(3) by (rule pow2_double [OF D(6)])
      note r = table_lawsD(6) [OF assms(1) p2, of ?h q]
      let ?s = "s\<lparr>lru_hash := h_rehash ops ?h q (?c * 2), lru_buckets := [q \<mapsto> ?c * 2]\<rparr>"
      have "lru_grow ops s = Inr (True, ?s)"
        using full Some fresh D(5) by (auto simp: lru_grow_def alloc_buckets_def free_buckets_def Let_def)
      moreover have "lru_ok ops V hash eq ?s"
        using assms(2) r p2 by (simp add: lru_ok_def)
      moreover have "unat ?c \<le> unat (of_nat ?n :: size_t)" "unat (of_nat ?n :: size_t) \<le> ?n"
        using full by (simp_all add: list_lawsD(3) [OF assms(1)] word_le_nat_alt unat_of_nat64)
      then have "unat (h_bucket_count ops (lru_hash ?s)) \<le> max (unat ?c) (2 * ?n)"
        using r c2 by simp
      moreover have "0 < unat ?c"
        by (rule pow2_pos [OF D(6)])
      then have "?n \<le> unat ?c \<longrightarrow> load_ok ops V ?s"
        using r c2 by (simp add: load_ok_def)
      ultimately show ?thesis
        by (intro exI [of _ True] exI [of _ ?s]) (simp add: entries_def)
    qed
  qed
qed

text \<open>The check of \<open>insert\<close> agrees with \<open>find\<close>.\<close>

lemma check_iff_find:
  assumes "boost_contract ops V" "key_eq_ok hash eq" "lru_ok ops V hash eq s"
  shows "fst (h_insert_check ops (lru_hash s) (hash k) (key_matches eq k s)) = None \<longleftrightarrow> lru_find ops hash eq k s = None"
  using lookup_keys(1) [OF assms(3,2) table_lawsD(2) [OF assms(1)], of k, folded lru_find_def]
    lookup_keys(1) [OF assms(3,2) table_lawsD(3) [OF assms(1)], of k] by simp

lemma lru_insert_present:
  assumes "boost_contract ops V" "key_eq_ok hash eq" "lru_ok ops V hash eq s" "lru_find ops hash eq k s \<noteq> None"
  shows "\<exists>n e. lru_insert ops hash eq now k v s = Inr (Some (n, False), s) \<and> lru_nodes s n = Some e \<and> eq k (node_key e)"
proof -
  let ?check = "h_insert_check ops (lru_hash s) (hash k) (key_matches eq k s)"
  obtain n cd where n: "?check = (Some n, cd)"
    using check_iff_find [OF assms(1-3), of k] assms(4) by (cases ?check) auto
  then show ?thesis
    using lookup_keys(2) [OF assms(3,2) table_lawsD(3) [OF assms(1)], of k n] by (auto simp: lru_insert_def)
qed

lemma lru_insert_absent:
  assumes "boost_contract ops V" "key_eq_ok hash eq" "lru_ok ops V hash eq s"
    and "unat (h_bucket_count ops (lru_hash s)) * 2 < 2 ^ 64" "time_add now (lru_timeout s) = Inr d"
    and "lru_find ops hash eq k s = None" and p: "a_node ops (dom (lru_nodes s)) = Some p"
  shows "\<exists>r s'. lru_insert ops hash eq now k v s = Inr (r, s') \<and> lru_ok ops V hash eq s'
    \<and> lru_nodes s' p = Some \<lparr>deadline = d, node_key = k, node_value = v\<rparr>
    \<and> entries V s' = entries V s @ [\<lparr>deadline = d, node_key = k, node_value = v\<rparr>]
    \<and> (r = None \<or> r = Some (p, True) \<and> (load_ok ops V s \<longrightarrow> load_ok ops V s'))
    \<and> unat (h_bucket_count ops (lru_hash s')) \<le> max (unat (h_bucket_count ops (lru_hash s))) (2 * length (entries V s'))
    \<and> (a_buckets ops (dom (lru_buckets s)) (h_bucket_count ops (lru_hash s) * 2) \<noteq> None \<longrightarrow> r \<noteq> None)"
proof -
  let ?nd = "\<lparr>deadline = d, node_key = k, node_value = v\<rparr>"
  obtain cd where cd: "h_insert_check ops (lru_hash s) (hash k) (key_matches eq k s) = (None, cd)"
    using check_iff_find [OF assms(1-3), of k] assms(6)
    by (cases "h_insert_check ops (lru_hash s) (hash k) (key_matches eq k s)") auto
  let ?s = "insert_at p ?nd (l_push_back ops (lru_list s) p) (h_insert_commit ops (lru_hash s) p cd) s"
  note i = insert_at_ok [OF assms(1-3) _ alloc_lawsD(1) [OF assms(1) p], of ?nd cd, simplified, OF cd]
  have small: "unat (h_bucket_count ops (lru_hash ?s)) * 2 < 2 ^ 64"
    using i(4) assms(4) by simp
  from lru_grow_ok [OF assms(1) i(1) small] obtain fits s' where g: "lru_grow ops ?s = Inr (fits, s')"
      "lru_ok ops V hash eq s'" "entries V s' = entries V ?s" "lru_nodes s' = lru_nodes ?s"
      "unat (h_bucket_count ops (lru_hash s')) \<le> max (unat (h_bucket_count ops (lru_hash ?s))) (2 * length (elems V (lru_list ?s)))"
      "a_buckets ops (dom (lru_buckets ?s)) (h_bucket_count ops (lru_hash ?s) * 2) \<noteq> None \<longrightarrow> fits"
      "fits \<longrightarrow> length (elems V (lru_list ?s)) \<le> unat (h_bucket_count ops (lru_hash ?s)) \<longrightarrow> load_ok ops V s'"
    by blast
  have "lru_insert ops hash eq now k v s = Inr (if fits then Some (p, True) else None, s')"
    using cd p assms(5) g(1) by (simp add: lru_insert_def insert_at_def Let_def)
  moreover have "load_ok ops V s \<longrightarrow> length (elems V (lru_list ?s)) \<le> unat (h_bucket_count ops (lru_hash ?s))"
    using i(3,4) by (simp add: load_ok_def)
  moreover have "lru_nodes s' p = Some ?nd" "lru_buckets ?s = lru_buckets s" "length (elems V (lru_list ?s)) = length (entries V s')"
    using g(3,4) by (simp_all add: insert_at_def entries_def)
  ultimately show ?thesis
    using g i(2,4) by auto
qed

text \<open>Whether an insertion has to grow the table, whether it can, and what it then leaves alone.\<close>

definition must_grow :: "('l, 'h, 'c) intrusive \<Rightarrow> ('l, 'h) container_view \<Rightarrow> ('k, 'v, 'l, 'h) lru \<Rightarrow> bool" where
  "must_grow ops V s \<longleftrightarrow> h_bucket_count ops (lru_hash s) \<le> of_nat (Suc (length (entries V s)))"

definition can_grow :: "('l, 'h, 'c) intrusive \<Rightarrow> ('k, 'v, 'l, 'h) lru \<Rightarrow> bool" where
  "can_grow ops s \<longleftrightarrow> a_buckets ops (dom (lru_buckets s)) (h_bucket_count ops (lru_hash s) * 2) \<noteq> None"

lemma lru_grow_result:
  assumes "lru_grow ops s = Inr (fits, s')"
  shows "fits \<longleftrightarrow> \<not> h_bucket_count ops (lru_hash s) \<le> l_size ops (lru_list s) \<or> can_grow ops s"
    "lru_nodes s' = lru_nodes s" "lru_list s' = lru_list s"
  using assms
  by (auto simp: lru_grow_def can_grow_def alloc_buckets_def bind_res_Inr Let_def split: if_splits option.splits)

lemma lru_insert_result:
  assumes "boost_contract ops V" "key_eq_ok hash eq" "lru_ok ops V hash eq s"
    and "time_add now (lru_timeout s) = Inr d"
    and "lru_find ops hash eq k s = None" "a_node ops (dom (lru_nodes s)) = Some p"
    and "lru_insert ops hash eq now k v s = Inr (r, s')"
  shows "r = (if must_grow ops V s \<and> \<not> can_grow ops s then None else Some (p, True))"
    "q \<noteq> p \<Longrightarrow> lru_nodes s' q = lru_nodes s q"
proof -
  let ?nd = "\<lparr>deadline = d, node_key = k, node_value = v\<rparr>"
  obtain cd where cd: "h_insert_check ops (lru_hash s) (hash k) (key_matches eq k s) = (None, cd)"
    using check_iff_find [OF assms(1-3), of k] assms(5)
    by (cases "h_insert_check ops (lru_hash s) (hash k) (key_matches eq k s)") auto
  let ?s = "insert_at p ?nd (l_push_back ops (lru_list s) p) (h_insert_commit ops (lru_hash s) p cd) s"
  note i = insert_at_ok [OF assms(1-3) _ alloc_lawsD(1) [OF assms(1,6)], of ?nd cd, simplified, OF cd]
  obtain fits where g: "lru_grow ops ?s = Inr (fits, s')" "r = (if fits then Some (p, True) else None)"
    using assms(4,6,7) cd by (auto simp: lru_insert_def insert_at_def bind_res_Inr Let_def)
  have "l_size ops (lru_list ?s) = of_nat (Suc (length (entries V s)))"
    using i(3) by (simp add: list_lawsD(3) [OF assms(1)] entries_def)
  moreover have "can_grow ops ?s = can_grow ops s"
    by (simp add: can_grow_def i(4)) (simp add: insert_at_def)
  ultimately show "r = (if must_grow ops V s \<and> \<not> can_grow ops s then None else Some (p, True))"
    using lru_grow_result(1) [OF g(1)] g(2) i(4) by (simp add: must_grow_def)
  show "lru_nodes s' q = lru_nodes s q" if "q \<noteq> p"
    using lru_grow_result(2) [OF g(1)] that by (simp add: insert_at_def)
qed

text \<open>C10: in a cache whose list and table agree (as they do in every reachable one), with an equality of
  keys that is reflexive and symmetric and a hash that respects it: inserting a key that is present changes nothing and returns the entry that is there, with
  \<open>false\<close>. Inserting an absent key, when the deadline does not overflow and the number of buckets can
  be doubled: without memory for the node the call throws and changes nothing; else it appends the
  entry with deadline \<open>now + timeout\<close> as the most recent one, keeps every other entry, and keeps the
  list and the table in agreement, with exactly one bucket array allocated. It throws, although
  the entry is in, when the entry makes as many entries as there are buckets and the allocator has
  no array of twice the length; in every other case it returns the new entry with \<open>true\<close>, and there
  are still fewer entries than buckets.\<close>

theorem lru_insert_correct:
  assumes "boost_contract ops V" "key_eq_ok hash eq" "lru_ok ops V hash eq s"
    and "unat (h_bucket_count ops (lru_hash s)) * 2 < 2 ^ 64" "time_add now (lru_timeout s) = Inr d"
  shows "case lru_find ops hash eq k s of
      Some _ \<Rightarrow> \<exists>n e. lru_insert ops hash eq now k v s = Inr (Some (n, False), s)
        \<and> lru_nodes s n = Some e \<and> eq k (node_key e)
    | None \<Rightarrow>
        (case a_node ops (dom (lru_nodes s)) of
           None \<Rightarrow> lru_insert ops hash eq now k v s = Inr (None, s)
         | Some p \<Rightarrow> \<exists>r s'. lru_insert ops hash eq now k v s = Inr (r, s') \<and> lru_ok ops V hash eq s'
             \<and> lru_nodes s' p = Some \<lparr>deadline = d, node_key = k, node_value = v\<rparr>
             \<and> (\<forall>q. q \<noteq> p \<longrightarrow> lru_nodes s' q = lru_nodes s q)
             \<and> entries V s' = entries V s @ [\<lparr>deadline = d, node_key = k, node_value = v\<rparr>]
             \<and> r = (if h_bucket_count ops (lru_hash s) \<le> of_nat (Suc (length (entries V s)))
                       \<and> a_buckets ops (dom (lru_buckets s)) (h_bucket_count ops (lru_hash s) * 2) = None
                    then None else Some (p, True))
             \<and> (r \<noteq> None \<longrightarrow> load_ok ops V s \<longrightarrow> load_ok ops V s'))"
proof (cases "lru_find ops hash eq k s")
  case (Some m)
  then show ?thesis
    using lru_insert_present [OF assms(1-3), of k now v] by auto
next
  case None
  then obtain cd where cd: "h_insert_check ops (lru_hash s) (hash k) (key_matches eq k s) = (None, cd)"
    using check_iff_find [OF assms(1-3), of k]
    by (cases "h_insert_check ops (lru_hash s) (hash k) (key_matches eq k s)") auto
  show ?thesis
  proof (cases "a_node ops (dom (lru_nodes s))")
    case (Some p)
    from lru_insert_absent [OF assms None Some, of v] obtain r s' where
      r: "lru_insert ops hash eq now k v s = Inr (r, s')" "lru_ok ops V hash eq s'"
        "lru_nodes s' p = Some \<lparr>deadline = d, node_key = k, node_value = v\<rparr>"
        "entries V s' = entries V s @ [\<lparr>deadline = d, node_key = k, node_value = v\<rparr>]"
        "r = None \<or> r = Some (p, True) \<and> (load_ok ops V s \<longrightarrow> load_ok ops V s')"
      by blast
    note res = lru_insert_result [OF assms(1-3,5) None Some r(1)]
    show ?thesis
      using r(1-4) r(5) res(2) res(1) [unfolded must_grow_def can_grow_def not_not]
      unfolding None Some option.case by (intro exI [of _ r] exI [of _ s'] conjI) auto
  qed (use None cd in \<open>simp add: lru_insert_def\<close>)
qed

section \<open>Erasing and touching\<close>

lemma entries_split:
  assumes "lru_ok ops V hash eq s" "n \<in> set (elems V (lru_list s))"
  obtains xs ys e where "elems V (lru_list s) = xs @ n # ys" "n \<notin> set xs" "n \<notin> set ys"
    "lru_nodes s n = Some e"
    "entries V s = map (\<lambda>m. the (lru_nodes s m)) xs @ e # map (\<lambda>m. the (lru_nodes s m)) ys"
proof -
  obtain xs ys where l: "elems V (lru_list s) = xs @ n # ys"
    using assms(2) by (auto simp: in_set_conv_decomp)
  moreover have "n \<notin> set xs" "n \<notin> set ys"
    using lru_okD(1) [OF assms(1)] l by auto
  moreover obtain e where "lru_nodes s n = Some e"
    using lru_okD(2) [OF assms(1)] assms(2) by auto
  ultimately show ?thesis
    using that by (auto simp: entries_def)
qed

lemma keys_distinct_drop: "keys_distinct eq m \<Longrightarrow> keys_distinct eq (m(n := None))"
  by (simp add: keys_distinct_def)

lemma remove_ok:
  assumes "boost_contract ops V" "lru_ok ops V hash eq s" "n \<in> dom (lru_nodes s)"
    and "elems V l = remove1 n (elems V (lru_list s))"
  shows "lru_ok ops V hash eq (s\<lparr>lru_hash := h_erase ops (lru_hash s) n, lru_list := l,
    lru_nodes := (lru_nodes s)(n := None)\<rparr>)"
proof -
  note D = lru_okD [OF assms(2)]
  have h: "hashes V (h_erase ops (lru_hash s) n) = (hashes V (lru_hash s))(n := None)
      \<and> h_bucket_pointer ops (h_erase ops (lru_hash s) n) = h_bucket_pointer ops (lru_hash s)
      \<and> h_bucket_count ops (h_erase ops (lru_hash s) n) = h_bucket_count ops (lru_hash s)"
    by (rule table_lawsD(5) [OF assms(1)]) (use D(3) assms(3) in auto)
  have "set (remove1 n (elems V (lru_list s))) = dom (lru_nodes s) - {n}"
    using D(1,2) by simp
  then show ?thesis
    using D h assms(4) keys_distinct_drop [OF D(4)] by (auto simp: lru_ok_def)
qed

lemma lru_erase_present:
  assumes "boost_contract ops V" "lru_ok ops V hash eq s" and it: "it \<in> set (elems V (lru_list s))"
  shows "\<exists>s' xs ys e. lru_erase ops it s = Inr s' \<and> lru_ok ops V hash eq s' \<and> lru_nodes s it = Some e
        \<and> entries V s = xs @ e # ys \<and> entries V s' = xs @ ys \<and> lru_nodes s' = (lru_nodes s)(it := None)
        \<and> lru_timeout s' = lru_timeout s \<and> lru_buckets s' = lru_buckets s
        \<and> h_bucket_count ops (lru_hash s') = h_bucket_count ops (lru_hash s)"
proof -
  from entries_split [OF assms(2) it] obtain xs ys e where sp:
      "elems V (lru_list s) = xs @ it # ys" "it \<notin> set xs" "it \<notin> set ys" "lru_nodes s it = Some e"
      "entries V s = map (\<lambda>m. the (lru_nodes s m)) xs @ e # map (\<lambda>m. the (lru_nodes s m)) ys"
    by metis
  let ?l = "l_erase ops (lru_list s) it"
  have l: "elems V ?l = remove1 it (elems V (lru_list s))"
    by (rule list_lawsD(7) [OF assms(1) it])
  let ?s = "s\<lparr>lru_hash := h_erase ops (lru_hash s) it, lru_list := ?l, lru_nodes := (lru_nodes s)(it := None)\<rparr>"
  have "lru_erase ops it s = Inr ?s"
    using sp(4) by (simp add: lru_erase_def free_node_def)
  moreover have "lru_ok ops V hash eq ?s"
    using remove_ok [OF assms(1,2) _ l] sp(4) by auto
  moreover have "entries V ?s = map (\<lambda>m. the (lru_nodes s m)) xs @ map (\<lambda>m. the (lru_nodes s m)) ys"
    using sp(1-3) l by (auto simp: entries_def remove1_append)
  moreover have "h_bucket_count ops (lru_hash ?s) = h_bucket_count ops (lru_hash s)"
    using table_lawsD(5) [OF assms(1), of "lru_hash s" it] lru_okD(3) [OF assms(2)] sp(4) by simp
  ultimately show ?thesis
    using sp(4,5) by (intro exI [of _ ?s]) auto
qed

text \<open>Erasing an entry removes exactly that entry from the list and from the table, keeps the order
  of the others, and frees its node; the iterator of no entry is undefined behaviour.\<close>

theorem lru_erase_correct:
  assumes "boost_contract ops V" "lru_ok ops V hash eq s"
  shows "(it \<in> set (elems V (lru_list s)) \<longrightarrow>
      (\<exists>s' xs ys e. lru_erase ops it s = Inr s' \<and> lru_ok ops V hash eq s' \<and> lru_nodes s it = Some e
        \<and> entries V s = xs @ e # ys \<and> entries V s' = xs @ ys \<and> lru_nodes s' = (lru_nodes s)(it := None)))
    \<and> (it \<notin> set (elems V (lru_list s)) \<longrightarrow> lru_erase ops it s = Inl Undefined)"
proof (intro conjI impI)
  assume "it \<in> set (elems V (lru_list s))"
  from lru_erase_present [OF assms this] show "\<exists>s' xs ys e. lru_erase ops it s = Inr s' \<and> lru_ok ops V hash eq s'
        \<and> lru_nodes s it = Some e \<and> entries V s = xs @ e # ys \<and> entries V s' = xs @ ys
        \<and> lru_nodes s' = (lru_nodes s)(it := None)"
    by metis
next
  assume "it \<notin> set (elems V (lru_list s))"
  then have "lru_nodes s it = None"
    using lru_okD(2) [OF assms(2)] by auto
  then show "lru_erase ops it s = Inl Undefined"
    by (simp add: lru_erase_def free_node_def)
qed

text \<open>Touching an entry gives it the deadline \<open>now + timeout\<close> and makes it the most recent one; the
  other entries keep their order and deadlines, and the table is not touched.\<close>

theorem lru_touch_correct:
  assumes "boost_contract ops V" "lru_ok ops V hash eq s"
    and "it \<in> set (elems V (lru_list s))" "time_add now (lru_timeout s) = Inr d"
  shows "\<exists>s' xs ys e. lru_touch ops now it s = Inr s' \<and> lru_ok ops V hash eq s' \<and> lru_nodes s it = Some e
    \<and> entries V s = xs @ e # ys \<and> entries V s' = xs @ ys @ [e\<lparr>deadline := d\<rparr>] \<and> lru_hash s' = lru_hash s"
proof -
  from entries_split [OF assms(2,3)] obtain xs ys e where sp:
      "elems V (lru_list s) = xs @ it # ys" "it \<notin> set xs" "it \<notin> set ys" "lru_nodes s it = Some e"
      "entries V s = map (\<lambda>m. the (lru_nodes s m)) xs @ e # map (\<lambda>m. the (lru_nodes s m)) ys"
    by metis
  let ?l = "l_splice_end ops (lru_list s) it"
  let ?s = "s\<lparr>lru_nodes := (lru_nodes s)(it \<mapsto> e\<lparr>deadline := d\<rparr>), lru_list := ?l\<rparr>"
  have l: "elems V ?l = xs @ ys @ [it]"
    using list_lawsD(8) [OF assms(1,3)] sp(1,2) by (simp add: remove1_append)
  note D = lru_okD [OF assms(2)]
  have "keys_distinct eq (lru_nodes ?s)"
    using D(4) sp(4) unfolding keys_distinct_def by (auto split: if_splits)
  moreover have "set (elems V ?l) = dom (lru_nodes s)" "distinct (elems V ?l)"
    using D(1,2) sp(1-3) l by auto
  moreover have "dom (lru_nodes ?s) = dom (lru_nodes s)"
    using sp(4) by auto
  moreover have "hashes V (lru_hash s) = (\<lambda>n. map_option (\<lambda>nd. hash (node_key nd)) (lru_nodes ?s n))"
    using sp(4) by (auto simp: D(3))
  ultimately have "lru_ok ops V hash eq ?s"
    using D(5,6) by (simp add: lru_ok_def)
  moreover have "lru_touch ops now it s = Inr ?s"
    using assms(4) sp(4) by (simp add: lru_touch_def)
  moreover have "entries V ?s = map (\<lambda>m. the (lru_nodes s m)) xs @ map (\<lambda>m. the (lru_nodes s m)) ys
      @ [e\<lparr>deadline := d\<rparr>]"
    using sp(2,3) by (auto simp: entries_def l)
  ultimately show ?thesis
    using sp(4,5) by (intro exI [of _ ?s]) auto
qed

section \<open>Expiry\<close>

definition expired :: "time_point \<Rightarrow> ('k, 'v) lru_node \<Rightarrow> bool" where
  "expired now e \<longleftrightarrow> sint (deadline e) \<le> sint now"

lemma lru_clear_loop_ok:
  assumes "boost_contract ops V" "lru_ok ops V hash eq s"
  shows "\<exists>s'. lru_clear_loop ops now c calls s
      = Some (Inr (c + of_nat (length (takeWhile (expired now) (entries V s))),
          calls @ map (\<lambda>e. (node_key e, node_value e)) (takeWhile (expired now) (entries V s)), s'))
    \<and> lru_ok ops V hash eq s' \<and> entries V s' = dropWhile (expired now) (entries V s)
    \<and> lru_timeout s' = lru_timeout s
    \<and> h_bucket_count ops (lru_hash s') = h_bucket_count ops (lru_hash s)"
  using assms(2)
proof (induction "elems V (lru_list s)" arbitrary: s c calls)
  case Nil
  then have "entries V s = []" "l_is_empty ops (lru_list s)"
    using list_lawsD(2) [OF assms(1)] by (simp_all add: entries_def)
  then show ?case
    using Nil.prems by (simp add: lru_clear_loop.simps)
next
  case (Cons n ns)
  let ?l = "l_pop_front ops (lru_list s)"
  have ne: "elems V (lru_list s) \<noteq> []" "\<not> l_is_empty ops (lru_list s)"
    using Cons.hyps(2) list_lawsD(2) [OF assms(1)] by auto
  have front: "l_front ops (lru_list s) = n" and pop: "elems V ?l = ns"
    using list_lawsD(5,6) [OF assms(1) ne(1)] Cons.hyps(2) by (metis list.sel)+
  have "distinct (n # ns)" "set (n # ns) = dom (lru_nodes s)"
    unfolding Cons.hyps(2) by (rule lru_okD(1,2) [OF Cons.prems])+
  then have dom: "n \<in> dom (lru_nodes s)" and new: "n \<notin> set ns"
    by auto
  then obtain e where e: "lru_nodes s n = Some e"
    by blast
  have ent: "entries V s = e # map (\<lambda>m. the (lru_nodes s m)) ns"
    using e unfolding entries_def Cons.hyps(2) [symmetric] by simp
  show ?case
  proof (cases "expired now e")
    case False
    then show ?thesis
      using Cons.prems ne(2) front e ent by (simp add: lru_clear_loop.simps [of ops now c calls s] expired_def)
  next
    case True
    let ?s = "s\<lparr>lru_hash := h_erase ops (lru_hash s) n, lru_list := ?l, lru_nodes := (lru_nodes s)(n := None)\<rparr>"
    have "elems V ?l = remove1 n (elems V (lru_list s))"
      by (simp add: pop flip: Cons.hyps(2))
    then have ok: "lru_ok ops V hash eq ?s"
      by (rule remove_ok [OF assms(1) Cons.prems dom])
    define es where "es = map (\<lambda>m. the (lru_nodes s m)) ns"
    have es: "entries V ?s = es"
      using new by (auto simp: entries_def pop es_def)
    have step: "lru_clear_loop ops now c calls s
        = lru_clear_loop ops now (c + 1) (calls @ [(node_key e, node_value e)]) ?s"
      using ne(2) e True unfolding lru_clear_loop.simps [of ops now c calls s] front
      by (simp add: expired_def)
    have count: "h_bucket_count ops (lru_hash ?s) = h_bucket_count ops (lru_hash s)"
      using table_lawsD(5) [OF assms(1), of "lru_hash s" n] lru_okD(3) [OF Cons.prems] e by simp
    have "ns = elems V (lru_list ?s)"
      by (simp add: pop)
    from Cons.hyps(1) [OF this ok, of "c + 1" "calls @ [(node_key e, node_value e)]"]
    obtain s' where s': "lru_clear_loop ops now (c + 1) (calls @ [(node_key e, node_value e)]) ?s
        = Some (Inr (c + 1 + of_nat (length (takeWhile (expired now) es)),
            (calls @ [(node_key e, node_value e)]) @ map (\<lambda>e. (node_key e, node_value e))
              (takeWhile (expired now) es), s'))"
        "lru_ok ops V hash eq s'" "entries V s' = dropWhile (expired now) es" "lru_timeout s' = lru_timeout s"
        "h_bucket_count ops (lru_hash s') = h_bucket_count ops (lru_hash s)"
      unfolding es count by auto
    show ?thesis
      unfolding ent es_def [symmetric] step s'(1)
      by (rule exI [of _ s']) (simp add: True s'(2-5) add.assoc)
  qed
qed

text \<open>C27: \<open>clear_expired\<close> always returns; it removes exactly the oldest entries up to the first one whose
  deadline is after \<open>now\<close>, calls the callback once for each of them in order, returns their number,
  and keeps the others in order and the table in agreement.\<close>

theorem lru_clear_expired_correct:
  assumes "boost_contract ops V" "lru_ok ops V hash eq s"
  shows "\<exists>s'. lru_clear_expired ops now s
      = Some (Inr (of_nat (length (takeWhile (expired now) (entries V s))),
          map (\<lambda>e. (node_key e, node_value e)) (takeWhile (expired now) (entries V s)), s'))
    \<and> lru_ok ops V hash eq s' \<and> entries V s' = dropWhile (expired now) (entries V s)"
  using lru_clear_loop_ok [OF assms, of now 0 "[]"] by (auto simp: lru_clear_expired_def)


section \<open>Histories with a monotone clock\<close>

text \<open>One step of a cache used with a clock that never goes back; an insertion may also throw.\<close>

inductive lru_step ::
    "('l, 'h, 'c) intrusive \<Rightarrow> ('l, 'h) container_view \<Rightarrow> ('k \<Rightarrow> size_t) \<Rightarrow> ('k \<Rightarrow> 'k \<Rightarrow> bool) \<Rightarrow>
     time_point \<times> ('k, 'v, 'l, 'h) lru \<Rightarrow> time_point \<times> ('k, 'v, 'l, 'h) lru \<Rightarrow> bool"
  for ops V hash eq where
  step_insert: "sint t \<le> sint now \<Longrightarrow> unat (h_bucket_count ops (lru_hash s)) * 2 < 2 ^ 64 \<Longrightarrow>
    lru_insert ops hash eq now k v s = Inr (r, s') \<Longrightarrow> lru_step ops V hash eq (t, s) (now, s')"
| step_touch: "sint t \<le> sint now \<Longrightarrow> it \<in> set (elems V (lru_list s)) \<Longrightarrow>
    lru_touch ops now it s = Inr s' \<Longrightarrow> lru_step ops V hash eq (t, s) (now, s')"
| step_erase: "it \<in> set (elems V (lru_list s)) \<Longrightarrow>
    lru_erase ops it s = Inr s' \<Longrightarrow> lru_step ops V hash eq (t, s) (t, s')"
| step_clear: "sint t \<le> sint now \<Longrightarrow>
    lru_clear_expired ops now s = Some (Inr (n, calls, s')) \<Longrightarrow> lru_step ops V hash eq (t, s) (now, s')"

inductive_cases lru_stepE: "lru_step ops V hash eq (t, s) (t', s')"

definition dl :: "('k, 'v) lru_node \<Rightarrow> int" where
  "dl e = sint (deadline e)"

text \<open>Entries lie in the order of their deadlines, none of them later than a use right now would give.\<close>

definition by_deadline :: "('l, 'h) container_view \<Rightarrow> time_point \<times> ('k, 'v, 'l, 'h) lru \<Rightarrow> bool" where
  "by_deadline V ts \<longleftrightarrow>
     sorted (map dl (entries V (snd ts)))
     \<and> (\<forall>e \<in> set (entries V (snd ts)). dl e \<le> sint (fst ts) + sint (lru_timeout (snd ts)))"

lemma by_deadline_append:
  assumes "sorted (map dl (xs @ ys))" "\<forall>e \<in> set (xs @ ys). dl e \<le> t" "t \<le> t'" "dl e' = t'"
  shows "sorted (map dl (xs @ ys @ [e'])) \<and> (\<forall>e \<in> set (xs @ ys @ [e']). dl e \<le> t')"
proof -
  have "\<forall>e \<in> set (xs @ ys). dl e \<le> t'"
    using assms(2,3) by (meson order_trans)
  then show ?thesis
    using assms(1,4) by (auto simp: sorted_append)
qed

lemma sorted_drop_middle: "sorted (map f (xs @ e # ys)) \<Longrightarrow> sorted (map f (xs @ ys))"
  by (auto simp: sorted_append)

lemma by_deadline_weaken:
  assumes "sorted (map dl xs)" "\<forall>e \<in> set xs. dl e \<le> sint t + d" "sint t \<le> sint t'"
  shows "sorted (map dl xs) \<and> (\<forall>e \<in> set xs. dl e \<le> sint t' + d)"
  using assms by force

lemma lru_insert_timeout:
  assumes "boost_contract ops V" "key_eq_ok hash eq" "lru_ok ops V hash eq s"
    and "lru_insert ops hash eq now k v s = Inr (r, s')"
  shows "lru_timeout s' = lru_timeout s"
  using assms(4)
  by (auto simp: lru_insert_def lru_grow_def Let_def bind_res_Inr split: option.splits prod.splits if_splits)

lemma lru_insert_cases:
  assumes "boost_contract ops V" "key_eq_ok hash eq" "lru_ok ops V hash eq s"
    and "unat (h_bucket_count ops (lru_hash s)) * 2 < 2 ^ 64"
    and ins: "lru_insert ops hash eq now k v s = Inr (r, s')"
  shows "lru_ok ops V hash eq s' \<and> (s' = s \<or> (\<exists>e. entries V s' = entries V s @ [e]
    \<and> dl e = sint now + sint (lru_timeout s)))"
proof (cases "time_add now (lru_timeout s)")
  case (Inl f)
  then have "s' = s"
    using ins by (auto simp: lru_insert_def split: option.splits prod.splits)
  then show ?thesis
    using assms(3) by simp
next
  case (Inr d)
  show ?thesis
  proof (cases "lru_find ops hash eq k s = None \<and> a_node ops (dom (lru_nodes s)) \<noteq> None")
    case True
    then show ?thesis
      using lru_insert_absent [OF assms(1-4) Inr, of k _ v] ins time_add_sint [OF Inr] by (auto simp: dl_def)
  next
    case False
    then have "s' = s"
      using lru_insert_present [OF assms(1-3), of k now v] check_iff_find [OF assms(1-3), of k] ins
      by (auto simp: lru_insert_def split: option.splits prod.splits)
    then show ?thesis
      using assms(3) by simp
  qed
qed

lemma lru_step_sorted:
  assumes c: "boost_contract ops V" "key_eq_ok hash eq" and st: "lru_step ops V hash eq (t, s) (t', s')"
    and ok: "lru_ok ops V hash eq s" and bd: "by_deadline V (t, s)"
  shows "lru_ok ops V hash eq s' \<and> by_deadline V (t', s')"
proof (rule lru_stepE [OF st])
  fix k v r
  assume 1: "sint t \<le> sint t'" "unat (h_bucket_count ops (lru_hash s)) < 9223372036854775808"
    "lru_insert ops hash eq t' k v s = Inr (r, s')"
  have small: "unat (h_bucket_count ops (lru_hash s)) * 2 < 2 ^ 64"
    using 1(2) by simp
  have tm: "lru_timeout s' = lru_timeout s"
    by (rule lru_insert_timeout [OF c ok 1(3)])
  from lru_insert_cases [OF c ok small 1(3)] show ?thesis
  proof (elim conjE disjE exE)
    assume "lru_ok ops V hash eq s'" "s' = s"
    then show ?thesis
      using by_deadline_weaken [OF _ _ 1(1)] bd by (auto simp: by_deadline_def)
  next
    fix e
    assume "lru_ok ops V hash eq s'" "entries V s' = entries V s @ [e]" "dl e = sint t' + sint (lru_timeout s)"
    then show ?thesis
      using by_deadline_append [of "entries V s" "[]" "sint t + sint (lru_timeout s)" _ e] bd 1(1) tm
      by (simp add: by_deadline_def)
  qed
next
  fix it
  assume 2: "sint t \<le> sint t'" "it \<in> set (elems V (lru_list s))" "lru_touch ops t' it s = Inr s'"
  then obtain d where d: "time_add t' (lru_timeout s) = Inr d"
    by (auto simp: lru_touch_def bind_res_Inr)
  obtain xs ys e where e: "lru_ok ops V hash eq s'" "entries V s = xs @ e # ys"
      "entries V s' = xs @ ys @ [e\<lparr>deadline := d\<rparr>]"
    using lru_touch_correct [OF c(1) ok 2(2) d] 2(3) by auto
  have "lru_timeout s' = lru_timeout s"
    using 2(3) by (auto simp: lru_touch_def bind_res_Inr split: option.splits)
  then show ?thesis
    using by_deadline_append [of xs ys "sint t + sint (lru_timeout s)" "sint t' + sint (lru_timeout s)"
        "e\<lparr>deadline := d\<rparr>"] bd 2(1) e sorted_drop_middle [of dl xs e ys] time_add_sint [OF d]
    by (simp add: by_deadline_def dl_def)
next
  fix it
  assume 3: "t' = t" "it \<in> set (elems V (lru_list s))" "lru_erase ops it s = Inr s'"
  obtain xs ys e where e: "lru_ok ops V hash eq s'" "entries V s = xs @ e # ys" "entries V s' = xs @ ys"
    using lru_erase_present [OF c(1) ok 3(2)] 3(3) by auto
  have "lru_timeout s' = lru_timeout s"
    using 3(3) by (auto simp: lru_erase_def free_node_def split: option.splits)
  then show ?thesis
    using bd e sorted_drop_middle [of dl xs e ys] 3(1) by (simp add: by_deadline_def)
next
  fix n calls
  assume 4: "sint t \<le> sint t'" "lru_clear_expired ops t' s = Some (Inr (n, calls, s'))"
  then have e: "lru_ok ops V hash eq s'" "entries V s' = dropWhile (expired t') (entries V s)"
      "lru_timeout s' = lru_timeout s"
    using lru_clear_loop_ok [OF c(1) ok, of t' 0 "[]"] by (auto simp: lru_clear_expired_def)
  have "sorted (map dl (entries V s'))"
    using bd e(2) by (simp add: by_deadline_def dropWhile_eq_drop sorted_wrt_drop drop_map [symmetric])
  moreover have "set (entries V s') \<subseteq> set (entries V s)"
    by (simp add: e(2) set_dropWhileD subsetI)
  ultimately show ?thesis
    using bd e(1,3) 4(1) by (force simp: by_deadline_def)
qed

definition lru_reachable ::
    "('l, 'h, 'c) intrusive \<Rightarrow> ('l, 'h) container_view \<Rightarrow> ('k \<Rightarrow> size_t) \<Rightarrow> ('k \<Rightarrow> 'k \<Rightarrow> bool) \<Rightarrow>
     time_point \<Rightarrow> ('k, 'v, 'l, 'h) lru \<Rightarrow> bool" where
  "lru_reachable ops V hash eq t s \<longleftrightarrow>
     (\<exists>t0 timeout s0. lru_new ops timeout = Some s0 \<and> (lru_step ops V hash eq)\<^sup>*\<^sup>* (t0, s0) (t, s))"

lemma lru_reachable_ok:
  assumes "boost_contract ops V" "key_eq_ok hash eq" "lru_reachable ops V hash eq t s"
  shows "lru_ok ops V hash eq s \<and> by_deadline V (t, s)"
proof -
  obtain t0 timeout s0 where new: "lru_new ops timeout = Some s0"
    and steps: "(lru_step ops V hash eq)\<^sup>*\<^sup>* (t0, s0) (t, s)"
    using assms(3) by (auto simp: lru_reachable_def)
  have "lru_ok ops V hash eq (snd ts) \<and> by_deadline V ts" if "(lru_step ops V hash eq)\<^sup>*\<^sup>* (t0, s0) ts" for ts
    using that
  proof (induction rule: rtranclp_induct)
    case base
    then show ?case
      using lru_new_ok [OF assms(1) new] by (simp add: by_deadline_def)
  next
    case (step ts ts')
    then show ?case
      using lru_step_sorted [OF assms(1,2), of "fst ts" "snd ts" "fst ts'" "snd ts'"] by simp
  qed
  then show ?thesis
    using steps by fastforce
qed

lemma sorted_dropWhile_filter:
  "sorted (map dl es) \<Longrightarrow> dropWhile (expired now) es = filter (\<lambda>e. \<not> expired now e) es
    \<and> takeWhile (expired now) es = filter (expired now) es"
proof (induction es)
  case (Cons e es)
  show ?case
  proof (cases "expired now e")
    case True
    then show ?thesis
      using Cons by simp
  next
    case False
    then have "\<forall>x \<in> set es. \<not> expired now x"
      using Cons.prems by (force simp: expired_def dl_def)
    then have "filter (expired now) es = []" "filter (\<lambda>e. \<not> expired now e) es = es"
      by (simp_all add: filter_empty_conv filter_id_conv)
    then show ?thesis
      using False by simp
  qed
qed simp

text \<open>C11: in every cache reached by insertions, touches, removals and clearings with a clock that never
  goes back, the entries lie in the order of their deadlines, so \<open>clear_expired\<close> removes all
  expired entries wherever they are, and only those.\<close>

theorem lru_clear_removes_all_expired:
  assumes "boost_contract ops V" "key_eq_ok hash eq" "lru_reachable ops V hash eq t s"
  shows "\<exists>s'. lru_clear_expired ops now s
      = Some (Inr (of_nat (length (filter (expired now) (entries V s))),
          map (\<lambda>e. (node_key e, node_value e)) (filter (expired now) (entries V s)), s'))
    \<and> entries V s' = filter (\<lambda>e. \<not> expired now e) (entries V s)"
proof -
  have ok: "lru_ok ops V hash eq s" and "sorted (map dl (entries V s))"
    using lru_reachable_ok [OF assms] by (simp_all add: by_deadline_def)
  then show ?thesis
    using lru_clear_loop_ok [OF assms(1) ok, of now 0 "[]"] sorted_dropWhile_filter [of "entries V s" now]
    by (auto simp: lru_clear_expired_def)
qed

section \<open>Destruction\<close>

lemma free_nodes_ok:
  assumes "distinct ns" "set ns \<subseteq> dom (lru_nodes s)"
  shows "\<exists>s'. free_nodes ns s = Inr s' \<and> lru_nodes s' = (\<lambda>n. if n \<in> set ns then None else lru_nodes s n)
    \<and> lru_buckets s' = lru_buckets s"
  using assms
proof (induction ns arbitrary: s)
  case (Cons n ns)
  then obtain e where "lru_nodes s n = Some e"
    by (cases "lru_nodes s n") auto
  let ?s = "s\<lparr>lru_nodes := (lru_nodes s)(n := None)\<rparr>"
  have "set ns \<subseteq> dom (lru_nodes ?s)"
    using Cons.prems by auto
  from Cons.IH [OF _ this] obtain s' where s': "free_nodes ns ?s = Inr s'"
      "lru_nodes s' = (\<lambda>m. if m \<in> set ns then None else lru_nodes ?s m)" "lru_buckets s' = lru_buckets s"
    using Cons.prems by auto
  then show ?case
    using \<open>lru_nodes s n = Some e\<close> by (intro exI [of _ s']) (auto simp: free_node_def fun_eq_iff)
qed simp

text \<open>The destructor destroys and frees every node exactly once, but the bucket array it started with
  (or grew to) stays allocated.\<close>

theorem lru_destroy_leaks_buckets:
  assumes "boost_contract ops V" "lru_ok ops V hash eq s"
  shows "\<exists>s'. lru_destroy ops s = Inr s' \<and> lru_nodes s' = Map.empty
    \<and> lru_buckets s' = [h_bucket_pointer ops (lru_hash s) \<mapsto> h_bucket_count ops (lru_hash s)]"
proof -
  let ?ns = "h_dispose_order ops (lru_hash s)" and ?s = "s\<lparr>lru_list := l_clear ops (lru_list s)\<rparr>"
  have "distinct ?ns" "set ?ns = dom (lru_nodes s)"
    using table_lawsD(7) [OF assms(1), of "lru_hash s"] lru_okD(3) [OF assms(2)]
    by (auto simp: dom_def)
  then show ?thesis
    using free_nodes_ok [of ?ns ?s] lru_okD(5) [OF assms(2)]
    by (auto simp: lru_destroy_def fun_eq_iff)
qed


section \<open>A concrete instance\<close>

text \<open>Containers that satisfy the contract: a list of addresses and an association list. They show that
  the hypotheses of the theorems can hold.\<close>

type_synonym demo_table = "(u64 \<times> size_t) list \<times> u64 \<times> size_t"

definition table_find :: "(u64 \<times> size_t) list \<Rightarrow> size_t \<Rightarrow> (u64 \<Rightarrow> bool) \<Rightarrow> u64 option" where
  "table_find m hv P = List.find (\<lambda>n. map_of m n = Some hv \<and> P n) (map fst m)"

definition demo_ops :: "(u64 list, demo_table, size_t) intrusive" where
  "demo_ops = \<lparr>l_new = [], l_is_empty = (\<lambda>l. l = []), l_size = (\<lambda>l. of_nat (length l)), l_front = hd,
     l_push_back = (\<lambda>l n. l @ [n]), l_pop_front = tl, l_erase = (\<lambda>l n. remove1 n l),
     l_splice_end = (\<lambda>l n. remove1 n l @ [n]), l_clear = (\<lambda>_. []),
     h_new = (\<lambda>p c. ([], p, c)), h_find = (\<lambda>(m, _) hv P. table_find m hv P),
     h_insert_check = (\<lambda>(m, _) hv P. (table_find m hv P, hv)),
     h_insert_commit = (\<lambda>(m, pc) n hv. ((n, hv) # m, pc)),
     h_erase = (\<lambda>(m, pc) n. (filter (\<lambda>e. fst e \<noteq> n) m, pc)),
     h_rehash = (\<lambda>(m, _) p c. (m, p, c)), h_bucket_pointer = (\<lambda>(_, p, _). p), h_bucket_count = (\<lambda>(_, _, c). c),
     h_dispose_order = (\<lambda>(m, _). remdups (map fst m)),
     a_node = (\<lambda>live. List.find (\<lambda>p. p \<notin> live) [1000, 2000, 3000]),
     a_buckets = (\<lambda>live n. List.find (\<lambda>p. p \<notin> live) [5000, 6000])\<rparr>"

definition demo_view :: "(u64 list, demo_table) container_view" where
  "demo_view = \<lparr>elems = (\<lambda>l. l), hashes = (\<lambda>h. map_of (fst h))\<rparr>"

lemma map_of_filter_fst: "map_of (filter (\<lambda>e. fst e \<noteq> n) m) = (map_of m)(n := None)"
  by (induction m) (auto simp: fun_eq_iff)

lemma lookup_table_find: "lookup_ok (map_of m) hv P (table_find m hv P)"
proof (cases "table_find m hv P")
  case None
  then have "\<forall>n \<in> fst ` set m. \<not> (map_of m n = Some hv \<and> P n)"
    by (auto simp: table_find_def find_None_iff)
  moreover have "map_of m n = Some hv \<Longrightarrow> n \<in> fst ` set m" for n
    by (metis domI dom_map_of_conv_image_fst)
  ultimately show ?thesis
    by (auto simp: None lookup_ok_def)
next
  case (Some n)
  then have "map_of m n = Some hv \<and> P n"
    by (auto simp: table_find_def find_Some_iff)
  then show ?thesis
    by (simp add: Some lookup_ok_def)
qed

lemma demo_contract: "boost_contract demo_ops demo_view"
proof -
  have "list_contract demo_ops demo_view"
    by (simp add: list_contract_def demo_ops_def demo_view_def)
  moreover have "table_contract demo_ops demo_view"
    by (auto simp: table_contract_def demo_ops_def demo_view_def lookup_table_find map_of_filter_fst
        dom_map_of_conv_image_fst)
  moreover have "alloc_contract demo_ops"
    by (auto simp: alloc_contract_def demo_ops_def split: if_splits)
  ultimately show ?thesis
    by (simp add: boost_contract_def)
qed

definition demo_lru :: "(nat, nat, u64 list, demo_table) lru" where
  "demo_lru = \<lparr>lru_timeout = 10, lru_list = [1000], lru_hash = ([(1000, 1)], 5000, 16),
     lru_nodes = [1000 \<mapsto> \<lparr>deadline = 15, node_key = 1, node_value = 7\<rparr>], lru_buckets = [5000 \<mapsto> 16]\<rparr>"

lemma demo_key: "key_eq_ok (of_nat :: nat \<Rightarrow> size_t) (=)"
  by (simp add: key_eq_ok_def)

lemma demo_lru_ok: "lru_ok demo_ops demo_view of_nat (=) demo_lru"
proof -
  have "pow2 16"
    using pow2I [of 4] by simp
  then show ?thesis
    by (auto simp: lru_ok_def demo_ops_def demo_view_def demo_lru_def keys_distinct_def fun_eq_iff)
qed

lemma demo_entries:
  "entries demo_view demo_lru = [\<lparr>deadline = 15, node_key = 1, node_value = 7\<rparr>]"
  by (simp add: entries_def demo_view_def demo_lru_def)

theorem lru_find_correct_witness:
  "\<exists>n. lru_find demo_ops of_nat (=) 1 demo_lru = Some n \<and> lru_find demo_ops of_nat (=) 2 demo_lru = None"
  using lru_find_correct [OF demo_contract demo_key demo_lru_ok, of 1]
    lru_find_correct [OF demo_contract demo_key demo_lru_ok, of 2]
  by (auto simp: demo_entries)

theorem lru_insert_correct_witness:
  "\<exists>s. lru_insert demo_ops of_nat (=) 20 2 8 demo_lru = Inr (Some (2000, True), s)
    \<and> entries demo_view s = [\<lparr>deadline = 15, node_key = 1, node_value = 7\<rparr>, \<lparr>deadline = 30, node_key = 2, node_value = 8\<rparr>]"
proof -
  have t: "time_add 20 (lru_timeout demo_lru) = Inr 30"
    by (simp add: time_add_def demo_lru_def)
  have c: "unat (h_bucket_count demo_ops (lru_hash demo_lru)) * 2 < 2 ^ 64"
    by (simp add: demo_ops_def demo_lru_def)
  have "lru_find demo_ops of_nat (=) 2 demo_lru = None"
    by (simp add: lru_find_def demo_ops_def demo_lru_def table_find_def)
  moreover have "a_node demo_ops (dom (lru_nodes demo_lru)) = Some 2000"
    by (simp add: demo_ops_def demo_lru_def)
  moreover have "a_buckets demo_ops (dom (lru_buckets demo_lru)) (h_bucket_count demo_ops (lru_hash demo_lru) * 2) \<noteq> None"
    by (simp add: demo_ops_def demo_lru_def)
  ultimately show ?thesis
    using lru_insert_correct [OF demo_contract demo_key demo_lru_ok c t, of 2 8] by (auto simp: demo_entries)
qed

theorem lru_erase_correct_witness:
  "\<exists>s. lru_erase demo_ops 1000 demo_lru = Inr s \<and> entries demo_view s = []
    \<and> lru_erase demo_ops 2000 demo_lru = Inl Undefined"
proof -
  have "1000 \<in> set (elems demo_view (lru_list demo_lru))" "2000 \<notin> set (elems demo_view (lru_list demo_lru))"
    by (simp_all add: demo_view_def demo_lru_def)
  then show ?thesis
    using lru_erase_correct [OF demo_contract demo_lru_ok, of 1000]
      lru_erase_correct [OF demo_contract demo_lru_ok, of 2000]
    by (auto simp: demo_entries Cons_eq_append_conv)
qed

theorem lru_touch_correct_witness:
  "\<exists>s. lru_touch demo_ops 90 1000 demo_lru = Inr s
    \<and> entries demo_view s = [\<lparr>deadline = 100, node_key = 1, node_value = 7\<rparr>]"
proof -
  have "1000 \<in> set (elems demo_view (lru_list demo_lru))"
    by (simp add: demo_view_def demo_lru_def)
  moreover have "time_add 90 (lru_timeout demo_lru) = Inr 100"
    by (simp add: time_add_def demo_lru_def)
  ultimately show ?thesis
    using lru_touch_correct [OF demo_contract demo_lru_ok, of 1000 90 100]
    by (auto simp: demo_entries Cons_eq_append_conv)
qed

theorem lru_clear_expired_correct_witness:
  "\<exists>s. lru_clear_expired demo_ops 15 demo_lru = Some (Inr (1, [(1, 7)], s)) \<and> entries demo_view s = []"
  using lru_clear_expired_correct [OF demo_contract demo_lru_ok, of 15]
  by (auto simp: demo_entries expired_def)

theorem lru_destroy_leaks_buckets_witness:
  "\<exists>s. lru_destroy demo_ops demo_lru = Inr s \<and> lru_nodes s = Map.empty \<and> lru_buckets s = [5000 \<mapsto> 16]"
  using lru_destroy_leaks_buckets [OF demo_contract demo_lru_ok] by (auto simp: demo_ops_def demo_lru_def)

text \<open>Time 5: a cache with timeout 10 is created and key 1 inserted, which makes \<open>demo_lru\<close>.\<close>

lemma demo_reachable: "lru_reachable demo_ops demo_view of_nat (=) 5 demo_lru"
proof -
  let ?s0 = "\<lparr>lru_timeout = 10, lru_list = [], lru_hash = ([], 5000, 16),
    lru_nodes = Map.empty, lru_buckets = [5000 \<mapsto> 16]\<rparr> :: (nat, nat, u64 list, demo_table) lru"
  have "lru_new demo_ops 10 = Some ?s0"
    by (simp add: lru_new_def alloc_buckets_def demo_ops_def)
  moreover have "\<not> (16 :: size_t) \<le> 1"
    by (simp add: word_le_nat_alt)
  then have "lru_insert demo_ops of_nat (=) 5 1 7 ?s0 = Inr (Some (1000, True), demo_lru)"
    by (simp add: lru_insert_def demo_ops_def table_find_def time_add_def lru_grow_def demo_lru_def Let_def)
  then have "lru_step demo_ops demo_view of_nat (=) (5, ?s0) (5, demo_lru)"
    by (intro step_insert) (auto simp: demo_ops_def)
  ultimately show ?thesis
    unfolding lru_reachable_def by blast
qed

theorem lru_clear_removes_all_expired_witness:
  "\<exists>s. lru_clear_expired demo_ops 14 demo_lru = Some (Inr (0, [], s))
    \<and> entries demo_view s = entries demo_view demo_lru"
  using lru_clear_removes_all_expired [OF demo_contract demo_key demo_reachable, of 14]
  by (simp add: demo_entries expired_def)

end
