(* ===== verification/Lru_Refinement.thy ===== *)
theory Lru_Refinement
  imports Lru_Cache
begin

text \<open>
  The cache of \<^verbatim>\<open>src/lru_cache.h\<close> against what its users rely on: a list of entries in the order of
  their last use, looked up by key. A client finds an entry before it touches or erases it; the
  sequence of such calls refines the list operations, for containers, allocator, hash and equality
  that keep their contracts, and a clock that does not go back.
\<close>

section \<open>The client and the specification\<close>

datatype ('k, 'v) cache_op = Put 'k 'v | Use 'k | Drop 'k | Expire

text \<open>The client's calls; \<open>None\<close> is any fault, exception or endless loop.\<close>

fun lru_exec ::
    "('l, 'h, 'c) intrusive \<Rightarrow> ('k \<Rightarrow> size_t) \<Rightarrow> ('k \<Rightarrow> 'k \<Rightarrow> bool) \<Rightarrow> time_point \<Rightarrow> ('k, 'v) cache_op \<Rightarrow>
     ('k, 'v, 'l, 'h) lru \<Rightarrow> ('k, 'v, 'l, 'h) lru option" where
  "lru_exec ops hash eq now (Put k v) s =
     (case lru_insert ops hash eq now k v s of Inr (Some it, s) \<Rightarrow> Some s | _ \<Rightarrow> None)"
| "lru_exec ops hash eq now (Use k) s =
     (case lru_find ops hash eq k s of
        None \<Rightarrow> Some s
      | Some it \<Rightarrow> (case lru_touch ops now it s of Inr s \<Rightarrow> Some s | Inl e \<Rightarrow> None))"
| "lru_exec ops hash eq now (Drop k) s =
     (case lru_find ops hash eq k s of
        None \<Rightarrow> Some s
      | Some it \<Rightarrow> (case lru_erase ops it s of Inr s \<Rightarrow> Some s | Inl e \<Rightarrow> None))"
| "lru_exec ops hash eq now Expire s =
     (case lru_clear_expired_quietly ops now s of Some (Inr (n, s)) \<Rightarrow> Some s | _ \<Rightarrow> None)"

fun lru_run ::
    "('l, 'h, 'c) intrusive \<Rightarrow> ('k \<Rightarrow> size_t) \<Rightarrow> ('k \<Rightarrow> 'k \<Rightarrow> bool) \<Rightarrow> (time_point \<times> ('k, 'v) cache_op) list \<Rightarrow>
     ('k, 'v, 'l, 'h) lru \<Rightarrow> ('k, 'v, 'l, 'h) lru option" where
  "lru_run ops hash eq [] s = Some s"
| "lru_run ops hash eq ((now, c) # xs) s =
     (case lru_exec ops hash eq now c s of None \<Rightarrow> None | Some s \<Rightarrow> lru_run ops hash eq xs s)"

text \<open>The specification, on entries by last use.\<close>

definition has_key :: "('k \<Rightarrow> 'k \<Rightarrow> bool) \<Rightarrow> 'k \<Rightarrow> ('k, 'v) lru_node \<Rightarrow> bool" where
  "has_key eq k e \<longleftrightarrow> eq k (node_key e)"

fun spec_step ::
    "('k \<Rightarrow> 'k \<Rightarrow> bool) \<Rightarrow> time_point \<Rightarrow> ('k, 'v) lru_node list \<Rightarrow> time_point \<times> ('k, 'v) cache_op \<Rightarrow> ('k, 'v) lru_node list" where
  "spec_step eq timeout es (now, Put k v) =
     (if list_ex (has_key eq k) es then es
      else es @ [\<lparr>deadline = now + timeout, node_key = k, node_value = v\<rparr>])"
| "spec_step eq timeout es (now, Use k) =
     (case List.find (has_key eq k) es of
        None \<Rightarrow> es
      | Some e \<Rightarrow> filter (\<lambda>e. \<not> has_key eq k e) es @ [e\<lparr>deadline := now + timeout\<rparr>])"
| "spec_step eq timeout es (now, Drop k) = filter (\<lambda>e. \<not> has_key eq k e) es"
| "spec_step eq timeout es (now, Expire) = filter (\<lambda>e. \<not> expired now e) es"

section \<open>One step\<close>

text \<open>Memory for \<open>M\<close> nodes and for two bucket arrays at a time.\<close>

definition memory_for :: "('l, 'h, 'c) intrusive \<Rightarrow> nat \<Rightarrow> bool" where
  "memory_for ops M \<longleftrightarrow> (\<forall>live. card live < M \<longrightarrow> a_node ops live \<noteq> None)
     \<and> (\<forall>live n. card live < 2 \<longrightarrow> a_buckets ops live n \<noteq> None)"

lemma filter_single:
  "filter P (xs @ e # ys) = [e] \<Longrightarrow> P e \<Longrightarrow> filter (\<lambda>x. \<not> P x) (xs @ e # ys) = xs @ ys"
proof -
  assume "filter P (xs @ e # ys) = [e]" "P e"
  then have "filter P xs = []" "filter P ys = []"
    by (auto simp: append_eq_Cons_conv)
  then show ?thesis
    using \<open>P e\<close> by (simp add: filter_empty_conv filter_id_conv)
qed

lemma find_filter: "filter P xs = [e] \<Longrightarrow> List.find P xs = Some e"
  by (induction xs) (auto split: if_splits)

text \<open>At most one entry has a given key, and \<open>find\<close> finds it.\<close>

lemma matching_entries:
  assumes c: "boost_contract ops V" "key_eq_ok hash eq" "transp eq" and ok: "lru_ok ops V hash eq s"
  shows "filter (has_key eq k) (entries V s) =
    (case lru_find ops hash eq k s of None \<Rightarrow> [] | Some it \<Rightarrow> [the (lru_nodes s it)])"
proof -
  note find = lookup_keys [OF ok c(2) table_lawsD(2) [OF c(1)], of k, folded lru_find_def]
  show ?thesis
  proof (cases "lru_find ops hash eq k s")
    case None
    then show ?thesis
      using find(1) ran_entries [OF ok] by (simp add: filter_empty_conv has_key_def)
  next
    case (Some it)
    then obtain e where e: "lru_nodes s it = Some e" "eq k (node_key e)"
      using find(2) by blast
    have it: "it \<in> set (elems V (lru_list s))"
      using e(1) lru_okD(2) [OF ok] by auto
    obtain xs ys e1 where sp1: "elems V (lru_list s) = xs @ it # ys" "it \<notin> set xs" "it \<notin> set ys" "lru_nodes s it = Some e1"
        "entries V s = map (\<lambda>m. the (lru_nodes s m)) xs @ e1 # map (\<lambda>m. the (lru_nodes s m)) ys"
      by (rule entries_split [OF ok it])
    have "e1 = e"
      using e(1) sp1(4) by simp
    note sp = sp1(1-3) sp1(5) [unfolded this]
    have "\<not> has_key eq k (the (lru_nodes s m))" if "m \<in> set xs \<union> set ys" for m
    proof
      assume m: "has_key eq k (the (lru_nodes s m))"
      have "m \<in> dom (lru_nodes s)"
        using that sp(1) lru_okD(2) [OF ok] by auto
      then obtain e' where e': "lru_nodes s m = Some e'"
        by blast
      have "eq (node_key e) (node_key e')"
        using m e' e(2) c(2,3) by (auto simp: has_key_def key_eq_ok_def dest: transpD)
      then have "it = m"
        using lru_okD(4) [OF ok] e(1) e' unfolding keys_distinct_def by blast
      then show False
        using that sp(2,3) by blast
    qed
    then show ?thesis
      using e Some by (simp add: sp(4) has_key_def filter_empty_conv)
  qed
qed

lemma found_listed:
  assumes "boost_contract ops V" "key_eq_ok hash eq" "lru_ok ops V hash eq s" "lru_find ops hash eq k s = Some it"
  shows "\<exists>e. lru_nodes s it = Some e \<and> has_key eq k e" "it \<in> set (elems V (lru_list s))"
proof -
  show "\<exists>e. lru_nodes s it = Some e \<and> has_key eq k e"
    using lookup_keys(2) [OF assms(3,2) table_lawsD(2) [OF assms(1)], of k it, folded lru_find_def] assms(4)
    by (simp add: has_key_def)
  then show "it \<in> set (elems V (lru_list s))"
    using lru_okD(2) [OF assms(3)] by auto
qed

lemma by_deadline_later: "by_deadline V (t, s) \<Longrightarrow> sint t \<le> sint now \<Longrightarrow> by_deadline V (now, s)"
  using by_deadline_weaken [of "entries V s" t "sint (lru_timeout s)" now] by (simp add: by_deadline_def)

lemma card_nodes: "lru_ok ops V hash eq s \<Longrightarrow> card (dom (lru_nodes s)) = length (entries V s)"
  using lru_okD(1,2) [of ops V hash eq s] distinct_card [of "elems V (lru_list s)"] by (simp add: entries_def)

text \<open>What a step does to the state, beside the entries.\<close>

definition cache_inv ::
    "('l, 'h, 'c) intrusive \<Rightarrow> ('l, 'h) container_view \<Rightarrow> ('k \<Rightarrow> size_t) \<Rightarrow> ('k \<Rightarrow> 'k \<Rightarrow> bool) \<Rightarrow> time_point \<Rightarrow> nat \<Rightarrow>
     time_point \<Rightarrow> ('k, 'v, 'l, 'h) lru \<Rightarrow> bool" where
  "cache_inv ops V hash eq timeout n t s \<longleftrightarrow>
     lru_ok ops V hash eq s \<and> by_deadline V (t, s) \<and> lru_timeout s = timeout
     \<and> length (entries V s) \<le> n \<and> unat (h_bucket_count ops (lru_hash s)) \<le> 16 + 2 * n"

lemma cache_invD:
  assumes "cache_inv ops V hash eq timeout n t s"
  shows "lru_ok ops V hash eq s" "by_deadline V (t, s)" "lru_timeout s = timeout"
    "length (entries V s) \<le> n" "unat (h_bucket_count ops (lru_hash s)) \<le> 16 + 2 * n"
  using assms by (simp_all add: cache_inv_def)

lemma cache_inv_later:
  "cache_inv ops V hash eq timeout n t s \<Longrightarrow> sint t \<le> sint now \<Longrightarrow> cache_inv ops V hash eq timeout (Suc n) now s"
  using by_deadline_later [of V t s now] by (auto simp: cache_inv_def)

lemma exec_put:
  assumes c: "boost_contract ops V" "key_eq_ok hash eq" "transp eq" and I: "cache_inv ops V hash eq timeout n t s"
    and t: "sint t \<le> sint now" "time_add now timeout = Inr d" and m: "memory_for ops M" "n < M" "M \<le> 2 ^ 60"
  shows "\<exists>s'. lru_exec ops hash eq now (Put k v) s = Some s' \<and> cache_inv ops V hash eq timeout (Suc n) now s'
    \<and> entries V s' = spec_step eq timeout (entries V s) (now, Put k v)"
proof -
  note D = cache_invD [OF I]
  have small: "unat (h_bucket_count ops (lru_hash s)) * 2 < 2 ^ 64"
    using D(5) m(2,3) by simp
  have some: "list_ex (has_key eq k) (entries V s) \<longleftrightarrow> lru_find ops hash eq k s \<noteq> None"
    using matching_entries [OF c D(1), of k]
    by (cases "lru_find ops hash eq k s") (auto simp: list_ex_iff filter_empty_conv dest: filter_eq_ConsD)
  show ?thesis
  proof (cases "lru_find ops hash eq k s")
    case (Some it)
    then obtain r where "lru_insert ops hash eq now k v s = Inr (Some r, s)"
      using lru_insert_present [OF c(1,2) D(1), of k now v] by auto
    then show ?thesis
      using some Some cache_inv_later [OF I t(1)] by simp
  next
    case None
    have "card (dom (lru_nodes s)) < M"
      using card_nodes [OF D(1)] D(4) m(2) by simp
    then obtain p where p: "a_node ops (dom (lru_nodes s)) = Some p"
      using m(1) unfolding memory_for_def by (metis option.exhaust)
    have "card (dom (lru_buckets s)) < 2"
      using lru_okD(5) [OF D(1)] by simp
    then have b: "a_buckets ops (dom (lru_buckets s)) (h_bucket_count ops (lru_hash s) * 2) \<noteq> None"
      using m(1) by (simp add: memory_for_def)
    let ?e = "\<lparr>deadline = d, node_key = k, node_value = v\<rparr>"
    have tm: "time_add now (lru_timeout s) = Inr d"
      using t(2) D(3) by simp
    obtain r s' where i: "lru_insert ops hash eq now k v s = Inr (r, s')" "lru_ok ops V hash eq s'"
        "entries V s' = entries V s @ [?e]" "r \<noteq> None"
        "unat (h_bucket_count ops (lru_hash s')) \<le> max (unat (h_bucket_count ops (lru_hash s))) (2 * length (entries V s'))"
      using lru_insert_absent [OF c(1,2) D(1) small tm None p, of v] b by blast
    have "lru_step ops V hash eq (t, s) (now, s')"
      by (rule step_insert [OF t(1) small i(1)])
    then have "by_deadline V (now, s')"
      using lru_step_sorted [OF c(1,2) _ D(1,2)] by blast
    moreover have "lru_timeout s' = timeout"
      using lru_insert_timeout [OF c(1,2) D(1) i(1)] D(3) by simp
    moreover have "d = now + timeout"
      using t(2) by (auto simp: time_add_def split: if_splits)
    ultimately show ?thesis
      using i some None D(4,5) by (auto simp: cache_inv_def)
  qed
qed

lemma exec_use:
  assumes c: "boost_contract ops V" "key_eq_ok hash eq" "transp eq" and I: "cache_inv ops V hash eq timeout n t s"
    and t: "sint t \<le> sint now" "time_add now timeout = Inr d"
  shows "\<exists>s'. lru_exec ops hash eq now (Use k) s = Some s' \<and> cache_inv ops V hash eq timeout (Suc n) now s'
    \<and> entries V s' = spec_step eq timeout (entries V s) (now, Use k)"
proof -
  note D = cache_invD [OF I]
  note match = matching_entries [OF c D(1), of k]
  show ?thesis
  proof (cases "lru_find ops hash eq k s")
    case None
    then have "List.find (has_key eq k) (entries V s) = None"
      using match by (simp add: find_None_iff filter_empty_conv)
    then show ?thesis
      using None cache_inv_later [OF I t(1)] by simp
  next
    case (Some it)
    note f = found_listed [OF c(1,2) D(1) Some]
    have tm: "time_add now (lru_timeout s) = Inr d"
      using t(2) D(3) by simp
    obtain s' xs ys e where s': "lru_touch ops now it s = Inr s'" "lru_ok ops V hash eq s'" "lru_nodes s it = Some e"
        "entries V s = xs @ e # ys" "entries V s' = xs @ ys @ [e\<lparr>deadline := d\<rparr>]" "lru_hash s' = lru_hash s"
      using lru_touch_correct [OF c(1) D(1) f(2) tm] by blast
    have "lru_step ops V hash eq (t, s) (now, s')"
      by (rule step_touch [OF t(1) f(2) s'(1)])
    then have "by_deadline V (now, s')"
      using lru_step_sorted [OF c(1,2) _ D(1,2)] by blast
    moreover have "lru_timeout s' = timeout"
      using s'(1) D(3) by (auto simp: lru_touch_def bind_res_Inr split: option.splits)
    moreover have "length (entries V s') \<le> Suc n"
      using D(4) by (simp add: s'(4,5))
    moreover have "filter (has_key eq k) (xs @ e # ys) = [e]" "has_key eq k e"
      using match Some s'(3,4) f(1) by simp_all
    then have "spec_step eq timeout (entries V s) (now, Use k) = xs @ ys @ [e\<lparr>deadline := now + timeout\<rparr>]"
      using find_filter [of "has_key eq k" "entries V s" e] filter_single [of "has_key eq k" xs e ys] s'(4) by simp
    moreover have "d = now + timeout"
      using t(2) by (auto simp: time_add_def split: if_splits)
    ultimately show ?thesis
      using Some s' D(5) by (auto simp: cache_inv_def)
  qed
qed

lemma exec_drop:
  assumes c: "boost_contract ops V" "key_eq_ok hash eq" "transp eq" and I: "cache_inv ops V hash eq timeout n t s"
    and t: "sint t \<le> sint now"
  shows "\<exists>s'. lru_exec ops hash eq now (Drop k) s = Some s' \<and> cache_inv ops V hash eq timeout (Suc n) now s'
    \<and> entries V s' = spec_step eq timeout (entries V s) (now, Drop k)"
proof -
  note D = cache_invD [OF I]
  note match = matching_entries [OF c D(1), of k]
  show ?thesis
  proof (cases "lru_find ops hash eq k s")
    case None
    then have "filter (\<lambda>e. \<not> has_key eq k e) (entries V s) = entries V s"
      using match by (simp add: filter_empty_conv filter_id_conv)
    then show ?thesis
      using None cache_inv_later [OF I t] by simp
  next
    case (Some it)
    note f = found_listed [OF c(1,2) D(1) Some]
    obtain s' xs ys e where s': "lru_erase ops it s = Inr s'" "lru_ok ops V hash eq s'" "lru_nodes s it = Some e"
        "entries V s = xs @ e # ys" "entries V s' = xs @ ys" "lru_timeout s' = lru_timeout s"
        "h_bucket_count ops (lru_hash s') = h_bucket_count ops (lru_hash s)"
      using lru_erase_present [OF c(1) D(1) f(2)] by blast
    have "lru_step ops V hash eq (t, s) (t, s')"
      by (rule step_erase [OF f(2) s'(1)])
    then have "by_deadline V (now, s')"
      using lru_step_sorted [OF c(1,2) _ D(1,2)] by_deadline_later [OF _ t] by blast
    moreover have "filter (has_key eq k) (xs @ e # ys) = [e]" "has_key eq k e"
      using match Some s'(3,4) f(1) by simp_all
    then have "filter (\<lambda>e. \<not> has_key eq k e) (entries V s) = xs @ ys"
      unfolding s'(4) by (rule filter_single)
    ultimately show ?thesis
      using Some s' D(3-5) by (auto simp: cache_inv_def)
  qed
qed

lemma exec_expire:
  assumes c: "boost_contract ops V" "key_eq_ok hash eq" and I: "cache_inv ops V hash eq timeout n t s"
    and t: "sint t \<le> sint now"
  shows "\<exists>s'. lru_exec ops hash eq now Expire s = Some s' \<and> cache_inv ops V hash eq timeout (Suc n) now s'
    \<and> entries V s' = spec_step eq timeout (entries V s) (now, Expire)"
proof -
  note D = cache_invD [OF I]
  obtain r calls s' where s': "lru_clear_expired ops now s = Some (Inr (r, calls, s'))" "lru_ok ops V hash eq s'"
      "entries V s' = dropWhile (expired now) (entries V s)" "lru_timeout s' = lru_timeout s"
      "h_bucket_count ops (lru_hash s') = h_bucket_count ops (lru_hash s)"
    using lru_clear_loop_ok [OF c(1) D(1), of now 0 "[]"] unfolding lru_clear_expired_def by blast
  have "lru_step ops V hash eq (t, s) (now, s')"
    by (rule step_clear [OF t s'(1)])
  then have "by_deadline V (now, s')"
    using lru_step_sorted [OF c _ D(1,2)] by blast
  moreover have "entries V s' = filter (\<lambda>e. \<not> expired now e) (entries V s)"
    using D(2) sorted_dropWhile_filter [of "entries V s" now] s'(3) by (simp add: by_deadline_def)
  moreover have "length (filter (\<lambda>e. \<not> expired now e) (entries V s)) \<le> Suc n"
    using D(4) length_filter_le [of _ "entries V s"] by (meson le_SucI order_trans)
  ultimately show ?thesis
    using s' D(3,5) by (simp add: cache_inv_def lru_clear_expired_quietly_def)
qed

lemma exec_ok:
  assumes c: "boost_contract ops V" "key_eq_ok hash eq" "transp eq" and I: "cache_inv ops V hash eq timeout n t s"
    and t: "sint t \<le> sint now" "time_add now timeout = Inr d" and m: "memory_for ops M" "n < M" "M \<le> 2 ^ 60"
  shows "\<exists>s'. lru_exec ops hash eq now x s = Some s' \<and> cache_inv ops V hash eq timeout (Suc n) now s'
    \<and> entries V s' = spec_step eq timeout (entries V s) (now, x)"
  using exec_put [OF c I t m] exec_use [OF c I t] exec_drop [OF c I t(1)] exec_expire [OF c(1,2) I t(1)]
  by (cases x) simp_all

text \<open>What the observers show of the entries.\<close>

lemma observers:
  assumes "boost_contract ops V"
  shows "lru_size ops s = of_nat (length (entries V s))" "lru_empty ops s \<longleftrightarrow> entries V s = []"
    "map_option (\<lambda>it. the (lru_nodes s it)) (lru_begin ops s) = (case entries V s of [] \<Rightarrow> None | e # es \<Rightarrow> Some e)"
  using assms
  by (auto simp: boost_contract_def list_contract_def lru_size_def lru_empty_def lru_begin_def entries_def
      split: list.splits)

section \<open>Runs\<close>

text \<open>The clock does not go back, and no deadline overflows.\<close>

definition clock_ok :: "time_point \<Rightarrow> time_point \<Rightarrow> (time_point \<times> ('k, 'v) cache_op) list \<Rightarrow> bool" where
  "clock_ok timeout t xs \<longleftrightarrow>
     sorted (map sint (t # map fst xs)) \<and> (\<forall>now \<in> set (map fst xs). \<exists>d. time_add now timeout = Inr d)"

lemma lru_run_ok:
  assumes c: "boost_contract ops V" "key_eq_ok hash eq" "transp eq" and m: "memory_for ops M" "M \<le> 2 ^ 60"
  shows "cache_inv ops V hash eq timeout n t s \<Longrightarrow> clock_ok timeout t xs \<Longrightarrow> n + length xs \<le> M \<Longrightarrow>
    \<exists>s' t'. lru_run ops hash eq xs s = Some s' \<and> cache_inv ops V hash eq timeout (n + length xs) t' s'
      \<and> entries V s' = run (spec_step eq timeout) (entries V s) xs"
proof (induction xs arbitrary: n t s)
  case (Cons a xs)
  obtain now x where a: "a = (now, x)"
    by fastforce
  have t: "sint t \<le> sint now" "clock_ok timeout now xs"
    using Cons.prems(2) a by (auto simp: clock_ok_def)
  obtain d where d: "time_add now timeout = Inr d"
    using Cons.prems(2) a by (auto simp: clock_ok_def)
  have "n < M"
    using Cons.prems(3) by simp
  from exec_ok [OF c Cons.prems(1) t(1) d m(1) this m(2), of x]
  obtain s1 where s1: "lru_exec ops hash eq now x s = Some s1" "cache_inv ops V hash eq timeout (Suc n) now s1"
      "entries V s1 = spec_step eq timeout (entries V s) (now, x)"
    by blast
  show ?case
    using Cons.IH [OF s1(2) t(2)] Cons.prems(3) s1(1,3) a by auto
qed auto

text \<open>C8: any sequence of insertions, uses, removals and expiries of a client on a new cache does what the
  same operations do on a list of entries in the order of their last use: no call throws, faults or
  loops, as long as memory is there and the clock does not go back; afterwards \<open>find\<close> gives, for every
  key, the entry the list has for it, \<open>begin\<close> the one used least recently, and \<open>size\<close> and \<open>empty\<close> those of
  the list.\<close>

theorem lru_refines_ordered_entries:
  assumes "boost_contract ops V" "key_eq_ok hash eq" "transp eq" "memory_for ops M" "M \<le> 2 ^ 60"
    and "lru_new ops timeout = Some s0" "clock_ok timeout t xs" "length xs \<le> M"
  shows "\<exists>s. lru_run ops hash eq xs s0 = Some s \<and> entries V s = run (spec_step eq timeout) [] xs
    \<and> (\<forall>k. map_option (\<lambda>it. the (lru_nodes s it)) (lru_find ops hash eq k s)
          = List.find (has_key eq k) (run (spec_step eq timeout) [] xs))
    \<and> map_option (\<lambda>it. the (lru_nodes s it)) (lru_begin ops s)
        = (case run (spec_step eq timeout) [] xs of [] \<Rightarrow> None | e # es \<Rightarrow> Some e)
    \<and> lru_size ops s = of_nat (length (run (spec_step eq timeout) [] xs))
    \<and> (lru_empty ops s \<longleftrightarrow> run (spec_step eq timeout) [] xs = [])"
proof -
  have "lru_ok ops V hash eq s0" "entries V s0 = []"
    using lru_new_ok [OF assms(1,6)] by blast+
  moreover have "lru_timeout s0 = timeout" "h_bucket_count ops (lru_hash s0) = 16"
    using assms(6) table_lawsD(1) [OF assms(1), of 16] pow2I [of 4]
    by (auto simp: lru_new_def alloc_buckets_def split: option.splits)
  ultimately have I: "cache_inv ops V hash eq timeout 0 t s0" "entries V s0 = []"
    by (simp_all add: cache_inv_def by_deadline_def)
  obtain s t' where s: "lru_run ops hash eq xs s0 = Some s" "cache_inv ops V hash eq timeout (length xs) t' s"
      "entries V s = run (spec_step eq timeout) [] xs"
    using lru_run_ok [OF assms(1-5) I(1) assms(7)] assms(8) I(2) by auto
  have "map_option (\<lambda>it. the (lru_nodes s it)) (lru_find ops hash eq k s) = List.find (has_key eq k) (entries V s)" for k
    using matching_entries [OF assms(1-3) cache_invD(1) [OF s(2)], of k] find_filter [of "has_key eq k" "entries V s"]
      find_None_iff2 [of "has_key eq k" "entries V s"]
    by (cases "lru_find ops hash eq k s") (auto simp: filter_empty_conv)
  then show ?thesis
    using s(1,3) observers [OF assms(1), of s] by simp
qed

text \<open>A run with one entry inserted, used, and left to expire, on the containers of \<open>Lru_Cache\<close> with an
  allocator that finds any free address.\<close>

definition first_free :: "u64 set \<Rightarrow> u64 option" where
  "first_free live = List.find (\<lambda>p. p \<notin> live) [1, 2, 3, 4]"

definition roomy_ops :: "(u64 list, demo_table, size_t) intrusive" where
  "roomy_ops = demo_ops\<lparr>a_node := first_free, a_buckets := (\<lambda>live n. first_free live)\<rparr>"

lemma first_free_room: "card live < 4 \<Longrightarrow> first_free live \<noteq> None"
proof
  assume "card live < 4" "first_free live = None"
  then have "{1, 2, 3, 4} \<subseteq> live"
    by (auto simp: first_free_def split: if_splits)
  then have "card {1, 2, 3, 4 :: u64} \<le> card live"
    by (intro card_mono) auto
  then show False
    using \<open>card live < 4\<close> by simp
qed

lemma first_free_fresh: "first_free live = Some p \<Longrightarrow> p \<notin> live"
  by (auto simp: first_free_def split: if_splits)

lemma roomy_contract: "boost_contract roomy_ops demo_view" "memory_for roomy_ops 4"
  using demo_contract first_free_fresh first_free_room
  by (simp_all add: boost_contract_def list_contract_def table_contract_def alloc_contract_def memory_for_def roomy_ops_def)

theorem lru_refines_ordered_entries_witness:
  "\<exists>s0 s. lru_new roomy_ops 10 = Some s0
    \<and> lru_run roomy_ops of_nat (=) [(5, Put (1 :: nat) (7 :: nat)), (6, Put 2 8), (9, Use 1), (17, Expire)] s0 = Some s
    \<and> entries demo_view s = [\<lparr>deadline = 19, node_key = 1, node_value = 7\<rparr>]"
proof -
  let ?xs = "[(5, Put (1 :: nat) (7 :: nat)), (6, Put 2 8), (9, Use 1), (17, Expire)]"
  obtain s0 :: "(nat, nat, u64 list, demo_table) lru" where s0: "lru_new roomy_ops 10 = Some s0"
    by (simp add: lru_new_def alloc_buckets_def roomy_ops_def first_free_def)
  have "clock_ok 10 0 ?xs"
    by (simp add: clock_ok_def time_add_def)
  then obtain s where s: "lru_run roomy_ops of_nat (=) ?xs s0 = Some s"
      "entries demo_view s = run (spec_step (=) 10) [] ?xs"
    using lru_refines_ordered_entries [OF roomy_contract(1) demo_key _ roomy_contract(2) _ s0, of 0 ?xs] by auto
  have "run (spec_step (=) 10) [] ?xs = [\<lparr>deadline = 19, node_key = 1, node_value = 7\<rparr>]"
    by (simp add: has_key_def expired_def)
  then show ?thesis
    using s0 s by metis
qed

end
