(* ===== verification/Mempool.thy ===== *)
theory Mempool
  imports Prelude
begin

text \<open>
  \<^verbatim>\<open>src/mempool.{h,cpp}\<close>: the pool that carves power-of-two blocks from one memory area and keeps
  them, per size class, on a used and a free list. Block headers lie in a typed heap by address; the
  word after a block's payload, which repeats the checksum, lies in \<open>tails\<close>. Address 0 is never a
  header, so following a null link is \<open>Undefined\<close>. The block managers are the array at the start of
  the pool object: manager \<open>i\<close> has the address \<open>this + 40 * i\<close>.
\<close>

section \<open>Headers and lists\<close>

record block_header =
  hdr_mgr :: u64
  hdr_prev :: u64
  hdr_next :: u64
  hdr_sum :: u64

type_synonym header_heap = "u64 \<Rightarrow> block_header option"

definition calc_checksum :: "u64 \<Rightarrow> block_header \<Rightarrow> u64" where
  "calc_checksum this b = hdr_mgr b XOR this"

definition check_header :: "u64 \<Rightarrow> block_header \<Rightarrow> bool" where
  "check_header this b \<longleftrightarrow> hdr_sum b = calc_checksum this b"

record block_list =
  bl_head :: u64
  bl_length :: size_t

definition bl_empty :: "block_list \<Rightarrow> bool" where
  "bl_empty l \<longleftrightarrow> bl_head l = 0"

definition set_prev :: "u64 \<Rightarrow> u64 \<Rightarrow> header_heap \<Rightarrow> header_heap res" where
  "set_prev a v h = (case h a of None \<Rightarrow> Inl Undefined | Some b \<Rightarrow> Inr (h(a \<mapsto> b\<lparr>hdr_prev := v\<rparr>)))"

definition set_next :: "u64 \<Rightarrow> u64 \<Rightarrow> header_heap \<Rightarrow> header_heap res" where
  "set_next a v h = (case h a of None \<Rightarrow> Inl Undefined | Some b \<Rightarrow> Inr (h(a \<mapsto> b\<lparr>hdr_next := v\<rparr>)))"

definition bl_pop :: "block_list \<Rightarrow> header_heap \<Rightarrow> (u64 \<times> block_list \<times> header_heap) res" where
  "bl_pop l h =
     (case h (bl_head l) of
        None \<Rightarrow> Inl Undefined
      | Some b \<Rightarrow>
          bind_res (if hdr_next b \<noteq> 0 then set_prev (hdr_next b) 0 h else Inr h) (\<lambda>h.
            Inr (bl_head l, \<lparr>bl_head = hdr_next b, bl_length = bl_length l - 1\<rparr>, h)))"

definition bl_push :: "u64 \<Rightarrow> block_list \<Rightarrow> header_heap \<Rightarrow> (block_list \<times> header_heap) res" where
  "bl_push node l h =
     bind_res (set_prev node 0 h) (\<lambda>h.
     bind_res (set_next node (bl_head l) h) (\<lambda>h.
     bind_res (if bl_head l \<noteq> 0 then set_prev (bl_head l) node h else Inr h) (\<lambda>h.
       Inr (\<lparr>bl_head = node, bl_length = bl_length l + 1\<rparr>, h))))"

definition bl_detach :: "u64 \<Rightarrow> block_list \<Rightarrow> header_heap \<Rightarrow> (block_list \<times> header_heap) res" where
  "bl_detach node l h =
     (case h node of
        None \<Rightarrow> Inl Undefined
      | Some b \<Rightarrow>
          if bl_head l = node \<and> hdr_prev b = 0 then bind_res (bl_pop l h) (\<lambda>(_, l, h). Inr (l, h))
          else bind_res (set_next (hdr_prev b) (hdr_next b) h) (\<lambda>h.
               bind_res (set_prev (hdr_next b) (hdr_prev b) h) (\<lambda>h.
                 Inr (l\<lparr>bl_length := bl_length l - 1\<rparr>, h))))"

section \<open>The pool\<close>

record block_manager =
  block_size :: u32
  free_list :: block_list
  used_list :: block_list

record mempool =
  pool_this :: u64
  managers :: "block_manager list"
  pool_beg :: u64
  pool_end :: u64
  pool_cur :: u64
  headers :: header_heap
  tails :: "u64 \<Rightarrow> u64 option"

definition sizeof_block_header :: size_t where
  "sizeof_block_header = 32"

definition get_impl_size :: "block_manager \<Rightarrow> size_t" where
  "get_impl_size m = sizeof_block_header + ucast (block_size m) + 8"

definition mgr_addr :: "mempool \<Rightarrow> nat \<Rightarrow> u64" where
  "mgr_addr p i = pool_this p + 40 * of_nat i"

definition mgr_index :: "mempool \<Rightarrow> u64 \<Rightarrow> nat option" where
  "mgr_index p a = List.find (\<lambda>i. mgr_addr p i = a) [0..<length (managers p)]"

definition free_size :: "mempool \<Rightarrow> size_t" where
  "free_size p = pool_end p - pool_cur p"

definition pool_init :: "block_manager list \<Rightarrow> block_manager list" where
  "pool_init ms = map (\<lambda>(i, m). m\<lparr>block_size := ucast (push_bit i (8 :: size_t))\<rparr>) (enumerate 0 ms)"

definition pool_new :: "u64 \<Rightarrow> u64 \<Rightarrow> u64 \<Rightarrow> mempool" where
  "pool_new this b e =
     \<lparr>pool_this = this,
      managers = pool_init (replicate 29 \<lparr>block_size = 0, free_list = \<lparr>bl_head = 0, bl_length = 0\<rparr>,
        used_list = \<lparr>bl_head = 0, bl_length = 0\<rparr>\<rparr>),
      pool_beg = b, pool_end = e, pool_cur = b, headers = Map.empty, tails = Map.empty\<rparr>"

definition align8 :: "size_t \<Rightarrow> size_t" where
  "align8 n = (n + 7) AND NOT 7"

text \<open>\<^verbatim>\<open>8 << i\<close> is an \<^verbatim>\<open>int\<close>: it is shifted at 32 bits and sign-extended for the comparison.\<close>

definition class_bound :: "nat \<Rightarrow> size_t" where
  "class_bound i = scast (push_bit i (8 :: u32))"

definition find_block_manager :: "size_t \<Rightarrow> size_t" where
  "find_block_manager n =
     (case List.find (\<lambda>i. n < class_bound i) [0..<29] of Some i \<Rightarrow> of_nat i | None \<Rightarrow> - 1)"

definition alloc_exist :: "nat \<Rightarrow> mempool \<Rightarrow> (u64 \<times> mempool) res" where
  "alloc_exist i p =
     (let m = managers p ! i in
      bind_res (bl_pop (free_list m) (headers p)) (\<lambda>(block, fl, h).
      bind_res (bl_push block (used_list m) h) (\<lambda>(ul, h).
        Inr (block + sizeof_block_header,
             p\<lparr>managers := (managers p)[i := m\<lparr>free_list := fl, used_list := ul\<rparr>], headers := h\<rparr>))))"

definition alloc_new :: "nat \<Rightarrow> mempool \<Rightarrow> (u64 \<times> mempool) res" where
  "alloc_new i p =
     (let m = managers p ! i; impl_size = get_impl_size m in
      if impl_size \<le> free_size p then
        let block = pool_cur p; cur = block + impl_size;
            h = (headers p)(block \<mapsto> \<lparr>hdr_mgr = mgr_addr p i, hdr_prev = 0, hdr_next = 0, hdr_sum = 0\<rparr>)
        in bind_res (bl_push block (used_list m) h) (\<lambda>(ul, h).
           case h block of
             None \<Rightarrow> Inl Undefined
           | Some b \<Rightarrow>
               let sum = calc_checksum block b
               in Inr (block + sizeof_block_header,
                    p\<lparr>managers := (managers p)[i := m\<lparr>used_list := ul\<rparr>], pool_cur := cur,
                      headers := h(block \<mapsto> b\<lparr>hdr_sum := sum\<rparr>), tails := (tails p)(cur - 8 \<mapsto> sum)\<rparr>))
      else Inr (0, p))"

definition pool_alloc :: "size_t \<Rightarrow> mempool \<Rightarrow> (u64 \<times> mempool) res" where
  "pool_alloc n p =
     (let n = align8 n; idx = find_block_manager n in
      if idx \<noteq> - 1 then
        if bl_empty (free_list (managers p ! unat idx)) then alloc_new (unat idx) p else alloc_exist (unat idx) p
      else Inr (0, p))"

text \<open>Reading a header or a trailing word where there is none is undefined.\<close>

definition pool_free :: "u64 \<Rightarrow> mempool \<Rightarrow> mempool res" where
  "pool_free ptr p =
     (let block = ptr - sizeof_block_header in
      case headers p block of
        None \<Rightarrow> Inl Undefined
      | Some b \<Rightarrow>
          if check_header block b then
            (case mgr_index p (hdr_mgr b) of
               None \<Rightarrow> Inl Undefined
             | Some i \<Rightarrow>
                 let m = managers p ! i in
                 (case tails p (ptr + ucast (block_size m)) of
                    None \<Rightarrow> Inl Undefined
                  | Some t \<Rightarrow>
                      if hdr_sum b = t then
                        bind_res (bl_detach block (used_list m) (headers p)) (\<lambda>(ul, h).
                        bind_res (bl_push block (free_list m) h) (\<lambda>(fl, h).
                          Inr (p\<lparr>managers := (managers p)[i := m\<lparr>free_list := fl, used_list := ul\<rparr>],
                                 headers := h\<rparr>)))
                      else Inr p))
          else Inr p)"

section \<open>Size classes\<close>

lemma class_bound_small:
  assumes "i < 28"
  shows "class_bound i = 2 ^ (i + 3)"
proof -
  have "\<forall>i \<in> set [0..<28]. class_bound i = 2 ^ (i + 3)"
    by code_simp
  then show ?thesis
    using assms by simp
qed

lemma class_bound_last: "class_bound 28 = 0xFFFFFFFF80000000"
  by code_simp


lemma unat_class_bound:
  assumes "i < 29"
  shows "unat (class_bound i) = (if i = 28 then 2 ^ 64 - 2 ^ 31 else 2 ^ (i + 3))"
proof (cases "i = 28")
  case True
  then show ?thesis
    by (simp add: class_bound_last)
next
  case False
  then have "i < 28"
    using assms by simp
  then show ?thesis
    using unat_pow2 [of "i + 3"] by (simp add: class_bound_small)
qed

lemma find_block_manager_cases:
  obtains (found) i where "i < 29" "find_block_manager n = of_nat i" "n < class_bound i"
      "\<forall>j < i. class_bound j \<le> n" "find_block_manager n \<noteq> - 1"
    | (none) "find_block_manager n = - 1" "\<forall>j < 29. class_bound j \<le> n"
proof (cases "List.find (\<lambda>i. n < class_bound i) [0..<29]")
  case None
  then have "\<forall>j < 29. class_bound j \<le> n"
    by (auto simp: find_None_iff not_less) (metis leD)
  then show ?thesis
    using none None by (simp add: find_block_manager_def)
next
  case (Some i)
  then have i: "i < 29" "n < class_bound i" "\<forall>j < i. class_bound j \<le> n"
    by (auto simp: find_Some_iff not_less)
  have "of_nat i \<noteq> (- 1 :: size_t)"
  proof
    assume "of_nat i = (- 1 :: size_t)"
    then have "unat (of_nat i :: size_t) = unat (- 1 :: size_t)"
      by simp
    then show False
      using i(1) by (simp add: unat_of_nat64 unsigned_minus_1_eq_mask mask_eq_exp_minus_1)
  qed
  then show ?thesis
    using found [of i] i Some by (simp add: find_block_manager_def)
qed

lemma unat_align8:
  assumes "unat n + 7 < 2 ^ 64"
  shows "unat n \<le> unat (align8 n)" "unat (align8 n) = (unat n + 7) div 8 * 8"
proof -
  have n7: "unat (n + 7) = unat n + 7"
    using assms by (simp add: unat_word_ariths)
  have "(n + 7) AND NOT 7 = push_bit 3 (drop_bit 3 (n + 7))"
  proof (rule bit_word_eqI)
    fix j
    assume "j < LENGTH(64)"
    have "bit (7 :: size_t) j \<longleftrightarrow> j < 3"
      using bit_mask_iff [of 3 j, where ?'a = size_t] \<open>j < LENGTH(64)\<close> by (auto simp: mask_eq_exp_minus_1)
    then show "bit ((n + 7) AND NOT 7) j = bit (push_bit 3 (drop_bit 3 (n + 7))) j"
      using \<open>j < LENGTH(64)\<close> by (cases "j < 3") (auto simp: bit_simps)
  qed
  then have "unat (align8 n) = unat (drop_bit 3 (n + 7)) * 8 mod 2 ^ 64"
    by (simp add: align8_def push_bit_eq_mult unat_word_ariths)
  moreover have "unat (drop_bit 3 (n + 7)) = (unat n + 7) div 8"
    by (simp add: drop_bit_eq_div unat_div_distrib n7)
  moreover have "(unat n + 7) div 8 * 8 < 2 ^ 64"
    using assms by linarith
  ultimately show "unat (align8 n) = (unat n + 7) div 8 * 8"
    by simp
  then show "unat n \<le> unat (align8 n)"
    by linarith
qed


text \<open>For a request (rounded up to eight bytes) below \<open>2\<close> GiB the pool picks the smallest class whose
  blocks are strictly larger, or the last class, whose blocks have \<open>2\<close> GiB, for requests of
  \<open>1\<close> GiB and more; but \<^verbatim>\<open>8 << 28\<close> overflows \<^verbatim>\<open>int\<close>, so larger requests, up to almost the whole
  address range, are also sent to the last class, whose blocks are too small for them.\<close>

theorem find_block_manager_spec:
  "(unat n < 2 ^ 31 \<longrightarrow> (\<exists>i < 29. find_block_manager n = of_nat i \<and> unat n < 2 ^ (i + 3)
      \<and> (\<forall>j < i. j < 28 \<longrightarrow> 2 ^ (j + 3) \<le> unat n)))
    \<and> (2 ^ 31 < unat n \<and> unat n < 2 ^ 64 - 2 ^ 31 \<longrightarrow> find_block_manager n = 28 \<and> 2 ^ (28 + 3) < unat n)"
proof (intro conjI [OF impI impI])
  assume n: "unat n < 2 ^ 31"
  show "\<exists>i < 29. find_block_manager n = of_nat i \<and> unat n < 2 ^ (i + 3)
      \<and> (\<forall>j < i. j < 28 \<longrightarrow> 2 ^ (j + 3) \<le> unat n)"
  proof (cases rule: find_block_manager_cases [of n])
    case (found i)
    have "unat n < 2 ^ (i + 3)"
    proof (cases "i = 28")
      case True
      then show ?thesis
        using n by simp
    next
      case False
      then show ?thesis
        using found(1,3) unat_class_bound [of i] by (simp add: word_less_nat_alt)
    qed
    moreover have "2 ^ (j + 3) \<le> unat n" if "j < i" "j < 28" for j
      using found(1,4) that unat_class_bound [of j] by (auto simp: word_le_nat_alt)
    ultimately show ?thesis
      using found(1,2) by blast
  next
    case none
    then have "class_bound 28 \<le> n"
      by simp
    then show ?thesis
      using n unat_class_bound [of 28] by (simp add: word_le_nat_alt)
  qed
next
  assume "2 ^ 31 < unat n \<and> unat n < 2 ^ 64 - 2 ^ 31"
  then have n: "2 ^ 31 < unat n" "unat n < 2 ^ 64 - 2 ^ 31"
    by simp_all
  have small: "class_bound j \<le> n" if "j < 28" for j
  proof -
    have "(2 :: nat) ^ (j + 3) \<le> 2 ^ 31"
      using that by (intro power_increasing) auto
    then show ?thesis
      using that n(1) unat_class_bound [of j] by (simp add: word_le_nat_alt)
  qed
  show "find_block_manager n = 28 \<and> 2 ^ (28 + 3) < unat n"
  proof (cases rule: find_block_manager_cases [of n])
    case (found i)
    have "i = 28"
      using found(1,3) small [of i] by (cases "i < 28") auto
    then show ?thesis
      using found(2) n(1) by simp
  next
    case none
    then have "class_bound 28 \<le> n"
      by simp
    then show ?thesis
      using n(2) unat_class_bound [of 28] by (simp add: word_le_nat_alt)
  qed
qed

section \<open>Doubly linked lists\<close>

text \<open>The nodes of a list with their links; \<open>core\<close> is the part of the headers that links do not touch.\<close>

fun dll :: "header_heap \<Rightarrow> u64 \<Rightarrow> u64 list \<Rightarrow> u64 \<Rightarrow> bool" where
  "dll h p [] nx \<longleftrightarrow> True"
| "dll h p (x # xs) nx \<longleftrightarrow>
     (\<exists>b. h x = Some b \<and> hdr_prev b = p \<and> hdr_next b = (case xs of [] \<Rightarrow> nx | y # _ \<Rightarrow> y)) \<and> dll h x xs nx"

definition core :: "header_heap \<Rightarrow> u64 \<Rightarrow> (u64 \<times> u64) option" where
  "core h a = map_option (\<lambda>b. (hdr_mgr b, hdr_sum b)) (h a)"

definition list_ok :: "header_heap \<Rightarrow> block_list \<Rightarrow> u64 list \<Rightarrow> bool" where
  "list_ok h l xs \<longleftrightarrow> dll h 0 xs 0 \<and> distinct xs \<and> 0 \<notin> set xs
     \<and> bl_head l = (case xs of [] \<Rightarrow> 0 | x # _ \<Rightarrow> x) \<and> bl_length l = of_nat (length xs)"

lemma dll_frame: "(\<And>x. x \<in> set xs \<Longrightarrow> h' x = h x) \<Longrightarrow> dll h' p xs nx \<longleftrightarrow> dll h p xs nx"
  by (induction xs arbitrary: p) auto

lemma list_ok_frame: "(\<And>x. x \<in> set xs \<Longrightarrow> h' x = h x) \<Longrightarrow> list_ok h' l xs \<longleftrightarrow> list_ok h l xs"
  by (simp add: list_ok_def cong: dll_frame)

lemma dll_append:
  "dll h p (xs @ ys) nx \<longleftrightarrow>
     dll h p xs (case ys of [] \<Rightarrow> nx | y # _ \<Rightarrow> y) \<and> dll h (if xs = [] then p else last xs) ys nx"
  by (induction xs arbitrary: p) (auto split: list.splits)

lemma core_upd: "h a = Some b \<Longrightarrow> hdr_mgr b' = hdr_mgr b \<Longrightarrow> hdr_sum b' = hdr_sum b \<Longrightarrow> core (h(a \<mapsto> b')) = core h"
  by (auto simp: core_def fun_eq_iff)

lemma bl_push_ok:
  assumes "list_ok h l xs" "node \<notin> set xs" "node \<noteq> 0" "h node = Some b"
  shows "\<exists>l' h'. bl_push node l h = Inr (l', h') \<and> list_ok h' l' (node # xs) \<and> core h' = core h
    \<and> (\<forall>x. x \<notin> set (node # xs) \<longrightarrow> h' x = h x)"
proof (cases xs)
  case Nil
  let ?h = "h(node \<mapsto> b\<lparr>hdr_prev := 0, hdr_next := 0\<rparr>)"
  have "bl_push node l h = Inr (\<lparr>bl_head = node, bl_length = bl_length l + 1\<rparr>, ?h)"
    using assms Nil by (simp add: bl_push_def set_prev_def set_next_def list_ok_def)
  moreover have "list_ok ?h \<lparr>bl_head = node, bl_length = bl_length l + 1\<rparr> [node]"
    using assms Nil by (simp add: list_ok_def)
  moreover have "core ?h = core h"
    using assms(4) by (auto simp: core_def fun_eq_iff)
  ultimately show ?thesis
    using Nil by auto
next
  case (Cons x ys)
  then obtain c where c: "h x = Some c" "hdr_prev c = 0" "x \<noteq> 0" "x \<noteq> node"
    using assms(1,2) by (auto simp: list_ok_def)
  let ?h = "h(node \<mapsto> b\<lparr>hdr_prev := 0, hdr_next := x\<rparr>, x \<mapsto> c\<lparr>hdr_prev := node\<rparr>)"
  have push: "bl_push node l h = Inr (\<lparr>bl_head = node, bl_length = bl_length l + 1\<rparr>, ?h)"
    using assms(1,4) Cons c by (auto simp: bl_push_def set_prev_def set_next_def list_ok_def)
  have "dll ?h x ys 0 \<longleftrightarrow> dll h x ys 0"
    using assms(1,2) Cons by (intro dll_frame) (auto simp: list_ok_def)
  then have "list_ok ?h \<lparr>bl_head = node, bl_length = bl_length l + 1\<rparr> (node # xs)"
    using assms(1-3) Cons c by (auto simp: list_ok_def)
  moreover have "core ?h = core h"
    using assms(4) c by (auto simp: core_def fun_eq_iff)
  ultimately show ?thesis
    using push Cons by auto
qed

lemma bl_pop_ok:
  assumes "list_ok h l (x # xs)"
  shows "\<exists>l' h'. bl_pop l h = Inr (x, l', h') \<and> list_ok h' l' xs \<and> core h' = core h
    \<and> (\<forall>y. y \<notin> set xs \<longrightarrow> h' y = h y)"
proof (cases xs)
  case Nil
  then show ?thesis
    using assms by (auto simp: bl_pop_def list_ok_def)
next
  case (Cons y ys)
  then obtain b c where b: "h x = Some b" "hdr_next b = y" and c: "h y = Some c" "y \<noteq> 0" "y \<noteq> x"
    using assms by (auto simp: list_ok_def)
  let ?h = "h(y \<mapsto> c\<lparr>hdr_prev := 0\<rparr>)"
  have "bl_pop l h = Inr (x, \<lparr>bl_head = y, bl_length = bl_length l - 1\<rparr>, ?h)"
    using assms Cons b c by (auto simp: bl_pop_def set_prev_def list_ok_def)
  moreover have "dll ?h y ys 0 \<longleftrightarrow> dll h y ys 0"
    using assms Cons by (intro dll_frame) (auto simp: list_ok_def)
  then have "list_ok ?h \<lparr>bl_head = y, bl_length = bl_length l - 1\<rparr> xs"
    using assms Cons c by (auto simp: list_ok_def)
  moreover have "core ?h = core h"
    using c by (auto simp: core_def fun_eq_iff)
  ultimately show ?thesis
    using Cons by auto
qed

text \<open>Detaching works for the head and for every node that has a successor.\<close>

lemma bl_detach_ok:
  assumes "list_ok h l (xs @ n # ys)" "xs = [] \<or> ys \<noteq> []"
  shows "\<exists>l' h'. bl_detach n l h = Inr (l', h') \<and> list_ok h' l' (xs @ ys) \<and> core h' = core h
    \<and> (\<forall>x. x \<notin> set (xs @ ys) \<longrightarrow> h' x = h x)"
proof (cases xs)
  case Nil
  then have "list_ok h l (n # ys)"
    using assms(1) by simp
  moreover obtain b where "h n = Some b" "hdr_prev b = 0" "bl_head l = n"
    using assms(1) Nil by (auto simp: list_ok_def)
  ultimately show ?thesis
    using bl_pop_ok [of h l n ys] Nil by (auto simp: bl_detach_def)
next
  case (Cons z zs)
  then obtain y ws where ys: "ys = y # ws"
    using assms(2) by (cases ys) auto
  obtain as q where xs: "xs = as @ [q]"
    using Cons by (metis neq_Nil_conv rev_exhaust)
  have d: "distinct (as @ q # n # y # ws)" "0 \<notin> set (as @ q # n # y # ws)" "dll h 0 (as @ q # n # y # ws) 0"
    using assms(1) by (auto simp: list_ok_def xs ys)
  then obtain b bq c where n: "h n = Some b" "hdr_prev b = q" "hdr_next b = y"
    and q: "h q = Some bq" and y: "h y = Some c"
    by (auto simp: dll_append)
  let ?h = "h(q \<mapsto> bq\<lparr>hdr_next := y\<rparr>, y \<mapsto> c\<lparr>hdr_prev := q\<rparr>)"
  have detach: "bl_detach n l h = Inr (l\<lparr>bl_length := bl_length l - 1\<rparr>, ?h)"
    using n q y d by (auto simp: bl_detach_def set_next_def set_prev_def)
  have "dll ?h 0 as q \<longleftrightarrow> dll h 0 as q" "dll ?h y ws 0 \<longleftrightarrow> dll h y ws 0"
    using d(1) by (intro dll_frame; auto)+
  moreover have "dll h 0 as q" "hdr_prev bq = (if as = [] then 0 else last as)"
      "dll h y ws 0" "hdr_next c = (case ws of [] \<Rightarrow> 0 | w # _ \<Rightarrow> w)"
    using d(3) q y by (simp_all add: dll_append)
  moreover have "q \<noteq> y"
    using d(1) by simp
  ultimately have "dll ?h 0 (as @ q # y # ws) 0"
    by (simp add: dll_append)
  moreover have "bl_head l = (case as @ q # y # ws of [] \<Rightarrow> 0 | x # _ \<Rightarrow> x)"
    using assms(1) by (cases as) (simp_all add: list_ok_def xs)
  moreover have "bl_length l = of_nat (length (as @ q # n # y # ws))"
    using assms(1) by (simp only: list_ok_def xs ys append_assoc append.simps)
  moreover have "xs @ ys = as @ q # y # ws"
    by (simp add: xs ys)
  ultimately have "list_ok ?h (l\<lparr>bl_length := bl_length l - 1\<rparr>) (xs @ ys)"
    using d(1,2) by (simp only: list_ok_def) simp
  moreover have "core ?h = core h"
    using q y d(1) by (auto simp: core_def fun_eq_iff)
  ultimately show ?thesis
    using detach by (auto simp: xs ys)
qed

text \<open>The last of several nodes has no successor, and its null link is followed.\<close>

lemma bl_detach_last:
  assumes "list_ok h l (xs @ [n])" "xs \<noteq> []" "h 0 = None"
  shows "bl_detach n l h = Inl Undefined"
proof -
  obtain as q where xs: "xs = as @ [q]"
    using assms(2) by (metis rev_exhaust)
  have "dll h 0 (as @ [q, n]) 0" "q \<noteq> n" "q \<noteq> 0"
    using assms(1) by (auto simp: list_ok_def xs)
  then obtain b bq where "h n = Some b" "hdr_prev b = q" "hdr_next b = 0" "h q = Some bq"
    by (auto simp: dll_append)
  then show ?thesis
    using \<open>q \<noteq> n\<close> \<open>q \<noteq> 0\<close> assms(3) by (simp add: bl_detach_def set_next_def set_prev_def)
qed


section \<open>The pool invariant\<close>

definition shape_ok :: "mempool \<Rightarrow> bool" where
  "shape_ok p \<longleftrightarrow>
     length (managers p) = 29 \<and> (\<forall>i < 29. block_size (managers p ! i) = 2 ^ (i + 3))
     \<and> 0 < unat (pool_beg p) \<and> unat (pool_beg p) \<le> unat (pool_cur p) \<and> unat (pool_cur p) \<le> unat (pool_end p)"

text \<open>Block \<open>b\<close> of class \<open>i\<close>, by its header fields and its trailing word.\<close>

definition block_at :: "mempool \<Rightarrow> u64 \<Rightarrow> nat \<Rightarrow> bool" where
  "block_at p b i \<longleftrightarrow> i < 29 \<and> core (headers p) b = Some (mgr_addr p i, mgr_addr p i XOR b)
     \<and> tails p (b + 32 + 2 ^ (i + 3)) = Some (mgr_addr p i XOR b)"

definition extent :: "nat \<Rightarrow> nat" where
  "extent i = 40 + 2 ^ (i + 3)"

definition geometry_ok :: "mempool \<Rightarrow> bool" where
  "geometry_ok p \<longleftrightarrow>
     (\<forall>b. core (headers p) b \<noteq> None \<longrightarrow>
        (\<exists>i. block_at p b i \<and> unat (pool_beg p) \<le> unat b \<and> unat b + extent i \<le> unat (pool_cur p)))
     \<and> (\<forall>b b' i j. block_at p b i \<longrightarrow> block_at p b' j \<longrightarrow> b \<noteq> b' \<longrightarrow>
          unat b + extent i \<le> unat b' \<or> unat b' + extent j \<le> unat b)"

definition class_blocks :: "mempool \<Rightarrow> nat \<Rightarrow> u64 set" where
  "class_blocks p i = {b. \<exists>s. core (headers p) b = Some (mgr_addr p i, s)}"

definition lists_ok :: "(nat \<Rightarrow> u64 list) \<Rightarrow> (nat \<Rightarrow> u64 list) \<Rightarrow> mempool \<Rightarrow> bool" where
  "lists_ok U F p \<longleftrightarrow> (\<forall>i < 29.
     list_ok (headers p) (used_list (managers p ! i)) (U i)
     \<and> list_ok (headers p) (free_list (managers p ! i)) (F i)
     \<and> set (U i) \<inter> set (F i) = {} \<and> set (U i) \<union> set (F i) = class_blocks p i)"

definition pool_ok :: "(nat \<Rightarrow> u64 list) \<Rightarrow> (nat \<Rightarrow> u64 list) \<Rightarrow> mempool \<Rightarrow> bool" where
  "pool_ok U F p \<longleftrightarrow> shape_ok p \<and> geometry_ok p \<and> lists_ok U F p"

lemma mgr_addr_inj:
  assumes "mgr_addr p i = mgr_addr p j" "i < 29" "j < 29"
  shows "i = j"
proof -
  have n: "unat (40 * of_nat k :: u64) = 40 * k" if "k < 29" for k
  proof -
    have "40 * of_nat k = (of_nat (40 * k) :: u64)"
      by simp
    moreover have "unat (of_nat (40 * k) :: u64) = 40 * k"
      using that unfolding unat_of_nat64 by (intro mod_less) simp
    ultimately show ?thesis
      by (simp only:)
  qed
  have "40 * of_nat i = (40 * of_nat j :: u64)"
    using assms(1) unfolding mgr_addr_def by (rule add_left_imp_eq)
  then have "unat (40 * of_nat i :: u64) = unat (40 * of_nat j :: u64)"
    by (rule arg_cong)
  then show ?thesis
    unfolding n [OF assms(2)] n [OF assms(3)] by simp
qed

lemma mgr_index_addr:
  assumes "shape_ok p" "i < 29"
  shows "mgr_index p (mgr_addr p i) = Some i"
proof -
  have "List.find (\<lambda>j. mgr_addr p j = mgr_addr p i) [0..<29] = Some i"
    unfolding find_Some_iff
  proof (intro exI [of _ i] conjI allI impI)
    fix j
    assume "j < i"
    then show "mgr_addr p ([0..<29] ! j) \<noteq> mgr_addr p i"
      using mgr_addr_inj [of p j i] assms(2) by auto
  qed (use assms(2) in simp_all)
  then show ?thesis
    using assms(1) by (simp add: mgr_index_def shape_ok_def)
qed

lemma geometry_core:
  assumes "core (headers p') = core (headers p)" "tails p' = tails p" "pool_this p' = pool_this p"
    "pool_beg p' = pool_beg p" "pool_cur p' = pool_cur p"
  shows "geometry_ok p' = geometry_ok p" "block_at p' = block_at p" "class_blocks p' = class_blocks p"
proof -
  show b: "block_at p' = block_at p"
    using assms by (simp add: fun_eq_iff block_at_def mgr_addr_def)
  show "geometry_ok p' = geometry_ok p"
    using assms b by (simp add: geometry_ok_def)
  show "class_blocks p' = class_blocks p"
    using assms by (simp add: fun_eq_iff class_blocks_def mgr_addr_def)
qed

lemma class_disjoint:
  "i < 29 \<Longrightarrow> j < 29 \<Longrightarrow> i \<noteq> j \<Longrightarrow> class_blocks p i \<inter> class_blocks p j = {}"
  using mgr_addr_inj [of p i j] by (auto simp: class_blocks_def)

lemma no_null_header:
  assumes "pool_ok U F p"
  shows "headers p 0 = None"
proof (rule ccontr)
  assume "headers p 0 \<noteq> None"
  then have "core (headers p) 0 \<noteq> None"
    by (simp add: core_def)
  then show False
    using assms by (force simp: pool_ok_def geometry_ok_def shape_ok_def)
qed

lemma pool_okD:
  assumes "pool_ok U F p" "i < 29"
  shows "list_ok (headers p) (used_list (managers p ! i)) (U i)"
    "list_ok (headers p) (free_list (managers p ! i)) (F i)"
    "set (U i) \<inter> set (F i) = {}" "set (U i) \<union> set (F i) = class_blocks p i"
    "length (managers p) = 29" "block_size (managers p ! i) = 2 ^ (i + 3)"
  using assms by (simp_all add: pool_ok_def lists_ok_def shape_ok_def)

text \<open>Relinking the lists of one class changes nothing else.\<close>

lemma relink_ok:
  assumes ok: "pool_ok U F p" and i: "i < 29"
    and new: "list_ok h ul us" "list_ok h fl fs" "set us \<inter> set fs = {}" "set us \<union> set fs = set (U i) \<union> set (F i)"
    and h: "core h = core (headers p)" "\<And>x. x \<notin> set (U i) \<union> set (F i) \<Longrightarrow> h x = headers p x"
  shows "pool_ok (U(i := us)) (F(i := fs))
    (p\<lparr>managers := (managers p)[i := (managers p ! i)\<lparr>free_list := fl, used_list := ul\<rparr>], headers := h\<rparr>)"
    (is "pool_ok _ _ ?p")
proof -
  have sh: "shape_ok p" and li: "lists_ok U F p"
    using ok by (simp_all add: pool_ok_def)
  have len: "length (managers p) = 29"
    using sh by (simp add: shape_ok_def)
  have "shape_ok ?p"
    using sh i by (auto simp: shape_ok_def nth_list_update)
  moreover have "geometry_ok ?p" and cb: "class_blocks ?p = class_blocks p"
    using ok h(1) geometry_core [of ?p p] by (simp_all add: pool_ok_def)
  moreover have "lists_ok (U(i := us)) (F(i := fs)) ?p"
    unfolding lists_ok_def
  proof (intro allI impI)
    fix j :: nat
    assume j: "j < 29"
    show "list_ok (headers ?p) (used_list (managers ?p ! j)) ((U(i := us)) j)
        \<and> list_ok (headers ?p) (free_list (managers ?p ! j)) ((F(i := fs)) j)
        \<and> set ((U(i := us)) j) \<inter> set ((F(i := fs)) j) = {}
        \<and> set ((U(i := us)) j) \<union> set ((F(i := fs)) j) = class_blocks ?p j"
    proof (cases "j = i")
      case True
      then show ?thesis
        using new li i len cb by (simp add: lists_ok_def)
    next
      case False
      have "set (U j) \<union> set (F j) = class_blocks p j" "set (U i) \<union> set (F i) = class_blocks p i"
        using li i j by (simp_all add: lists_ok_def)
      then have out: "x \<notin> set (U i) \<union> set (F i)" if "x \<in> set (U j) \<union> set (F j)" for x
        using that class_disjoint [OF j i False, of p] by auto
      have "list_ok h l (U j) = list_ok (headers p) l (U j)" "list_ok h l (F j) = list_ok (headers p) l (F j)" for l
        using out by (auto intro!: list_ok_frame h(2))
      then show ?thesis
        using False li j cb by (simp add: lists_ok_def)
    qed
  qed
  ultimately show ?thesis
    by (simp add: pool_ok_def)
qed

lemma alloc_exist_ok:
  assumes ok: "pool_ok U F p" and i: "i < 29" and F: "F i = b # fs"
  shows "\<exists>p'. alloc_exist i p = Inr (b + 32, p') \<and> pool_ok (U(i := b # U i)) (F(i := fs)) p'
    \<and> pool_cur p' = pool_cur p \<and> block_at p' = block_at p"
proof -
  let ?m = "managers p ! i"
  have l: "list_ok (headers p) (used_list ?m) (U i)" "list_ok (headers p) (free_list ?m) (b # fs)"
      "set (U i) \<inter> set (F i) = {}"
    using pool_okD [OF ok i] F by simp_all
  obtain fl h where pop: "bl_pop (free_list ?m) (headers p) = Inr (b, fl, h)" "list_ok h fl fs"
      "core h = core (headers p)" "\<forall>y. y \<notin> set fs \<longrightarrow> h y = headers p y"
    using bl_pop_ok [OF l(2)] by blast
  have bd: "b \<notin> set (U i)" "b \<noteq> 0" "b \<notin> set fs" "distinct fs"
    using l F by (auto simp: list_ok_def)
  obtain hb where hb: "h b = Some hb"
    using l(2) pop(4) bd(3) by (auto simp: list_ok_def)
  have "list_ok h (used_list ?m) (U i)"
    using l(1,3) F pop(4) by (subst list_ok_frame [of _ _ "headers p"]) auto
  from bl_push_ok [where h = h, OF this bd(1,2) hb]
  obtain ul h' where push: "bl_push b (used_list ?m) h = Inr (ul, h')" "list_ok h' ul (b # U i)"
      "core h' = core h" "\<forall>x. x \<notin> set (b # U i) \<longrightarrow> h' x = h x"
    by blast
  have fs: "list_ok h' fl fs"
    using pop(2) l(3) F bd(3) push(4) by (subst list_ok_frame [of _ _ h]) auto
  let ?p = "p\<lparr>managers := (managers p)[i := ?m\<lparr>free_list := fl, used_list := ul\<rparr>], headers := h'\<rparr>"
  have "pool_ok (U(i := b # U i)) (F(i := fs)) ?p"
    by (rule relink_ok [OF ok i push(2) fs]) (use l(3) F bd pop push in auto)
  moreover have "block_at ?p = block_at p"
    using push(3) pop(3) by (intro geometry_core(2)) simp_all
  ultimately show ?thesis
    using pop(1) push(1) by (intro exI [of _ ?p]) (simp add: alloc_exist_def sizeof_block_header_def)
qed


text \<open>Carving a new block at the end of the used part of the area.\<close>

lemma ucast_block_size:
  assumes "i < 29"
  shows "ucast (2 ^ (i + 3) :: u32) = (2 ^ (i + 3) :: u64)"
proof -
  have "\<forall>i \<in> set [0..<29]. ucast (2 ^ (i + 3) :: u32) = (2 ^ (i + 3) :: u64)"
    by code_simp
  then show ?thesis
    using assms by simp
qed

lemma unat_extent:
  assumes "i < 29"
  shows "unat (40 + 2 ^ (i + 3) :: u64) = extent i" "unat (32 + 2 ^ (i + 3) :: u64) = extent i - 8"
proof -
  have "(2 :: nat) ^ (i + 3) \<le> 2 ^ 31"
    using assms by (intro power_increasing) auto
  then have small: "40 + (2 :: nat) ^ (i + 3) < 2 ^ 64"
    by (rule order.strict_trans1 [OF add_left_mono]) simp
  have "(40 + 2 ^ (i + 3) :: u64) = of_nat (40 + 2 ^ (i + 3))" "(32 + 2 ^ (i + 3) :: u64) = of_nat (32 + 2 ^ (i + 3))"
    by simp_all
  moreover have "unat (of_nat (40 + 2 ^ (i + 3)) :: u64) = 40 + 2 ^ (i + 3)"
      "unat (of_nat (32 + 2 ^ (i + 3)) :: u64) = 32 + 2 ^ (i + 3)"
    unfolding unat_of_nat64 using small by (intro mod_less; linarith)+
  ultimately show "unat (40 + 2 ^ (i + 3) :: u64) = extent i" "unat (32 + 2 ^ (i + 3) :: u64) = extent i - 8"
    by (simp_all only: extent_def)
qed

lemma get_impl_size_eq: "pool_ok U F p \<Longrightarrow> i < 29 \<Longrightarrow> get_impl_size (managers p ! i) = 40 + 2 ^ (i + 3)"
  by (simp add: get_impl_size_def sizeof_block_header_def pool_okD(6) ucast_block_size)

definition links :: "header_heap \<Rightarrow> u64 \<Rightarrow> (u64 \<times> u64) option" where
  "links h a = map_option (\<lambda>b. (hdr_prev b, hdr_next b)) (h a)"

lemma dll_links: "links h' = links h \<Longrightarrow> dll h' p xs nx \<longleftrightarrow> dll h p xs nx"
proof (induction xs arbitrary: p)
  case (Cons x xs)
  have "links h' x = links h x"
    using Cons.prems by simp
  then have "(\<exists>b. h' x = Some b \<and> hdr_prev b = u \<and> hdr_next b = v) \<longleftrightarrow>
      (\<exists>b. h x = Some b \<and> hdr_prev b = u \<and> hdr_next b = v)" for u v
    by (auto simp: links_def map_option_case split: option.splits)
  then show ?case
    using Cons by simp
qed simp

lemma list_ok_links: "links h' = links h \<Longrightarrow> list_ok h' l xs \<longleftrightarrow> list_ok h l xs"
  using dll_links [of h' h 0 xs 0] by (simp add: list_ok_def)

lemma cur_fresh:
  assumes "geometry_ok p"
  shows "core (headers p) (pool_cur p) = None"
proof (rule ccontr)
  assume "core (headers p) (pool_cur p) \<noteq> None"
  then obtain i where "unat (pool_cur p) + extent i \<le> unat (pool_cur p)"
    using assms unfolding geometry_ok_def by blast
  then show False
    by (simp add: extent_def)
qed

lemma geometry_extend:
  assumes ok: "geometry_ok p" "shape_ok p" and i: "i < 29"
    and room: "unat (pool_cur p) + extent i \<le> unat (pool_end p)"
    and c: "core (headers p') = (core (headers p))(pool_cur p \<mapsto> (mgr_addr p i, mgr_addr p i XOR pool_cur p))"
    and p': "tails p' = (tails p)(pool_cur p + 32 + 2 ^ (i + 3) \<mapsto> mgr_addr p i XOR pool_cur p)"
      "pool_this p' = pool_this p" "pool_beg p' = pool_beg p"
      "unat (pool_cur p') = unat (pool_cur p) + extent i"
  shows "geometry_ok p' \<and> (\<forall>b j. block_at p' b j \<longleftrightarrow> block_at p b j \<or> b = pool_cur p \<and> j = i)"
proof -
  let ?b = "pool_cur p"
  have mgr: "mgr_addr p' = mgr_addr p"
    using p'(2) by (simp add: fun_eq_iff mgr_addr_def)
  have old: "\<exists>j. block_at p b j \<and> unat (pool_beg p) \<le> unat b \<and> unat b + extent j \<le> unat ?b"
    if "core (headers p) b \<noteq> None" for b
    using ok(1) that by (auto simp: geometry_ok_def)
  have tail: "unat (b + 32 + 2 ^ (j + 3)) = unat b + extent j - 8" if "j < 29" "unat b + extent j < 2 ^ 64" for b :: u64 and j
  proof -
    have "unat (b + (32 + 2 ^ (j + 3))) = (unat b + (extent j - 8)) mod 2 ^ 64"
      using that(1) by (simp add: unat_word_ariths(1) [of b] unat_extent)
    then show ?thesis
      using that(2) by (simp add: add.assoc extent_def)
  qed
  have end64: "unat ?b + extent i < 2 ^ 64"
    using room unat_less_2p64 [of "pool_end p"] by linarith
  have fresh: "core (headers p) ?b = None"
    by (rule cur_fresh [OF ok(1)])
  have at: "block_at p' b j \<longleftrightarrow> block_at p b j \<or> b = ?b \<and> j = i" for b j
  proof (cases "b = ?b")
    case True
    then show ?thesis
      using fresh i mgr_addr_inj [of p i j] by (auto simp: block_at_def c p' mgr)
  next
    case False
    show ?thesis
    proof (cases "core (headers p) b")
      case None
      then show ?thesis
        using False by (simp add: block_at_def c)
    next
      case (Some v)
      then obtain k where k: "block_at p b k" "unat b + extent k \<le> unat ?b"
        using old [of b] by auto
      have "unat (b + 32 + 2 ^ (k + 3)) \<noteq> unat (?b + 32 + 2 ^ (i + 3))"
        using tail [of k b] tail [OF i end64] k end64 by (simp add: block_at_def extent_def)
      then have ne: "b + 32 + 2 ^ (k + 3) \<noteq> ?b + 32 + 2 ^ (i + 3)"
        by (rule contrapos_nn) (rule arg_cong)
      have "block_at p' b j \<longleftrightarrow> j = k \<and> block_at p' b k" "block_at p b j \<longleftrightarrow> j = k \<and> block_at p b k"
        using k(1) False mgr_addr_inj [of p k j] by (auto simp: block_at_def c mgr)
      moreover have "block_at p' b k"
        using k(1) False ne by (simp add: block_at_def c p' mgr)
      ultimately show ?thesis
        using False k(1) by simp
    qed
  qed
  have le: "unat b + extent j \<le> unat ?b" if "block_at p b j" for b j
  proof -
    have "core (headers p) b \<noteq> None"
      using that by (simp add: block_at_def)
    then obtain k where "block_at p b k" "unat b + extent k \<le> unat ?b"
      using old by blast
    then show ?thesis
      using that mgr_addr_inj [of p k j] by (auto simp: block_at_def)
  qed
  have "\<exists>j. block_at p' b j \<and> unat (pool_beg p') \<le> unat b \<and> unat b + extent j \<le> unat (pool_cur p')"
    if "core (headers p') b \<noteq> None" for b
  proof (cases "b = ?b")
    case True
    then show ?thesis
      using ok(2) p' at by (auto simp: shape_ok_def)
  next
    case False
    then have "core (headers p) b \<noteq> None"
      using that by (simp add: c)
    then obtain j where "block_at p b j" "unat (pool_beg p) \<le> unat b" "unat b + extent j \<le> unat ?b"
      using old by blast
    then show ?thesis
      using p' at by (auto intro!: exI [of _ j])
  qed
  moreover have "unat b + extent j \<le> unat b' \<or> unat b' + extent k \<le> unat b"
    if "block_at p' b j" "block_at p' b' k" "b \<noteq> b'" for b b' j k
    using that le ok(1) unfolding at geometry_ok_def by blast
  ultimately show ?thesis
    using at by (simp add: geometry_ok_def)
qed

lemma alloc_new_room:
  assumes ok: "pool_ok U F p" and i: "i < 29"
  shows "get_impl_size (managers p ! i) \<le> free_size p \<longleftrightarrow> unat (pool_cur p) + extent i \<le> unat (pool_end p)"
proof -
  have le: "unat (pool_cur p) \<le> unat (pool_end p)"
    using ok by (simp add: pool_ok_def shape_ok_def)
  then have "unat (free_size p) = unat (pool_end p) - unat (pool_cur p)"
    by (simp add: free_size_def unat_sub word_le_nat_alt)
  then show ?thesis
    using le by (simp add: get_impl_size_eq [OF ok i] word_le_nat_alt unat_extent [OF i]) linarith
qed

lemma alloc_new_ok:
  assumes ok: "pool_ok U F p" and i: "i < 29"
    and room: "unat (pool_cur p) + extent i \<le> unat (pool_end p)"
  shows "\<exists>p'. alloc_new i p = Inr (pool_cur p + 32, p') \<and> pool_ok (U(i := pool_cur p # U i)) F p'
    \<and> (\<forall>b j. block_at p' b j \<longleftrightarrow> block_at p b j \<or> b = pool_cur p \<and> j = i)
    \<and> pool_cur p' = pool_cur p + (40 + 2 ^ (i + 3)) \<and> pool_end p' = pool_end p"
proof -
  let ?b = "pool_cur p" and ?m = "managers p ! i" and ?a = "mgr_addr p i"
  note D = pool_okD [OF ok]
  have sh: "shape_ok p" and geo: "geometry_ok p" and li: "lists_ok U F p"
    using ok by (simp_all add: pool_ok_def)
  have b0: "?b \<noteq> 0"
    using sh by (auto simp: shape_ok_def)
  have "core (headers p) ?b = None"
    by (rule cur_fresh [OF geo])
  then have hb: "headers p ?b = None"
    by (simp add: core_def)
  have nb: "?b \<notin> class_blocks p j" for j
    using \<open>core (headers p) ?b = None\<close> by (simp add: class_blocks_def)
  then have new: "?b \<notin> set (U j)" "?b \<notin> set (F j)" if "j < 29" for j
    using D(4) [OF that] by blast+
  let ?h = "(headers p)(?b \<mapsto> \<lparr>hdr_mgr = ?a, hdr_prev = 0, hdr_next = 0, hdr_sum = 0\<rparr>)"
  have "list_ok ?h (used_list ?m) (U i)"
    using D(1) [OF i] new(1) [OF i] by (subst list_ok_frame [of _ _ "headers p"]) auto
  from bl_push_ok [where h = ?h, OF this new(1) [OF i] b0]
  obtain ul h where push: "bl_push ?b (used_list ?m) ?h = Inr (ul, h)" "list_ok h ul (?b # U i)"
      "core h = core ?h" "\<forall>x. x \<notin> set (?b # U i) \<longrightarrow> h x = ?h x"
    by auto
  obtain x where x: "h ?b = Some x" "hdr_mgr x = ?a"
    using fun_cong [OF push(3), of ?b] by (auto simp: core_def)
  let ?h' = "h(?b \<mapsto> x\<lparr>hdr_sum := ?a XOR ?b\<rparr>)"
  have c: "core ?h' = (core (headers p))(?b \<mapsto> (?a, ?a XOR ?b))"
    using push(3) x by (auto simp: fun_eq_iff core_def split: if_splits)
  have "links ?h' = links h"
    using x(1) by (auto simp: links_def fun_eq_iff)
  then have ul: "list_ok ?h' ul (?b # U i)"
    using push(2) list_ok_links by blast
  let ?cur = "?b + (40 + 2 ^ (i + 3))"
  let ?p = "p\<lparr>managers := (managers p)[i := ?m\<lparr>used_list := ul\<rparr>], pool_cur := ?cur, headers := ?h',
      tails := (tails p)(?b + 32 + 2 ^ (i + 3) \<mapsto> ?a XOR ?b)\<rparr>"
  have cur: "unat ?cur = unat ?b + extent i"
  proof -
    have "unat ?cur = (unat ?b + extent i) mod 2 ^ 64"
      by (simp only: unat_word_ariths(1) [of ?b] unat_extent [OF i]) simp
    then show ?thesis
      using room unat_less_2p64 [of "pool_end p"] by simp
  qed
  have alloc: "alloc_new i p = Inr (?b + 32, ?p)"
    using alloc_new_room [OF ok i] room push(1) x
    by (simp add: alloc_new_def Let_def get_impl_size_eq [OF ok i] sizeof_block_header_def
        calc_checksum_def algebra_simps)
  have shape: "shape_ok ?p"
    using sh i cur room by (auto simp: shape_ok_def nth_list_update)
  have g: "geometry_ok ?p \<and> (\<forall>b j. block_at ?p b j \<longleftrightarrow> block_at p b j \<or> b = ?b \<and> j = i)"
    by (rule geometry_extend [OF geo sh i room]) (simp_all add: c cur)
  have cb: "class_blocks ?p j = (if j = i then insert ?b (class_blocks p j) else class_blocks p j)" if "j < 29" for j
  proof -
    have "mgr_addr ?p = mgr_addr p" "core (headers ?p) = (core (headers p))(?b \<mapsto> (?a, ?a XOR ?b))"
      using c by (simp_all add: fun_eq_iff mgr_addr_def)
    then show ?thesis
      using mgr_addr_inj [of p i j] i that nb [of j]
      unfolding class_blocks_def by (auto split: if_splits)
  qed
  have "lists_ok (U(i := ?b # U i)) F ?p"
    unfolding lists_ok_def
  proof (intro allI impI)
    fix j :: nat
    assume j: "j < 29"
    have out: "?h' y = headers p y" if "y \<noteq> ?b" "y \<notin> set (U i)" for y
      using push(4) that by simp
    have fr: "list_ok ?h' l (F j) = list_ok (headers p) l (F j)" for l
    proof (rule list_ok_frame)
      fix y
      assume y: "y \<in> set (F j)"
      then have "y \<notin> set (U i)"
        using D(3,4) [OF j] D(4) [OF i] class_disjoint [OF j i, of p] by (cases "j = i") auto
      then show "?h' y = headers p y"
        using y new(2) [OF j] out by metis
    qed
    show "list_ok (headers ?p) (used_list (managers ?p ! j)) ((U(i := ?b # U i)) j)
        \<and> list_ok (headers ?p) (free_list (managers ?p ! j)) (F j)
        \<and> set ((U(i := ?b # U i)) j) \<inter> set (F j) = {}
        \<and> set ((U(i := ?b # U i)) j) \<union> set (F j) = class_blocks ?p j"
    proof (cases "j = i")
      case True
      then show ?thesis
        using ul fr D(2-5) [OF i] i new(2) [OF i] cb [OF i] by simp
    next
      case False
      have "list_ok ?h' l (U j) = list_ok (headers p) l (U j)" for l
      proof (rule list_ok_frame)
        fix y
        assume y: "y \<in> set (U j)"
        then have "y \<notin> set (U i)"
          using D(4) [OF j] D(4) [OF i] class_disjoint [OF j i False, of p] by auto
        then show "?h' y = headers p y"
          using y new(1) [OF j] out by metis
      qed
      then show ?thesis
        using False fr D(1-4) [OF j] cb [OF j] by simp
    qed
  qed
  then show ?thesis
    using alloc shape g by (intro exI [of _ ?p]) (simp add: pool_ok_def)
qed


text \<open>Giving a block back.\<close>

lemma block_of_used:
  assumes ok: "pool_ok U F p" and "i < 29" "b \<in> set (U i)"
  shows "block_at p b i" "\<exists>h. headers p b = Some h \<and> hdr_mgr h = mgr_addr p i \<and> hdr_sum h = mgr_addr p i XOR b"
proof -
  have "b \<in> class_blocks p i"
    using pool_okD(4) [OF ok assms(2)] assms(3) by blast
  then have c: "\<exists>s. core (headers p) b = Some (mgr_addr p i, s)"
    by (simp add: class_blocks_def)
  then obtain k where k: "block_at p b k"
    using ok unfolding pool_ok_def geometry_ok_def by blast
  then have "mgr_addr p k = mgr_addr p i" "k < 29"
    using c by (auto simp: block_at_def)
  then have "k = i"
    using assms(2) by (intro mgr_addr_inj)
  then show "block_at p b i"
    using k by simp
  then show "\<exists>h. headers p b = Some h \<and> hdr_mgr h = mgr_addr p i \<and> hdr_sum h = mgr_addr p i XOR b"
    by (auto simp: block_at_def core_def)
qed

lemma pool_free_eq:
  assumes ok: "pool_ok U F p" and i: "i < 29" and b: "block_at p b i"
  shows "pool_free (b + 32) p =
    bind_res (bl_detach b (used_list (managers p ! i)) (headers p)) (\<lambda>(ul, h).
    bind_res (bl_push b (free_list (managers p ! i)) h) (\<lambda>(fl, h).
      Inr (p\<lparr>managers := (managers p)[i := (managers p ! i)\<lparr>free_list := fl, used_list := ul\<rparr>], headers := h\<rparr>)))"
proof -
  obtain h where h: "headers p b = Some h" "hdr_mgr h = mgr_addr p i" "hdr_sum h = mgr_addr p i XOR b"
    using b by (auto simp: block_at_def core_def)
  have "tails p (b + 32 + ucast (block_size (managers p ! i))) = Some (mgr_addr p i XOR b)"
    using b by (simp add: block_at_def pool_okD(6) [OF ok i] ucast_block_size [OF i])
  moreover have "mgr_index p (mgr_addr p i) = Some i"
    using ok i by (intro mgr_index_addr) (simp_all add: pool_ok_def)
  ultimately show ?thesis
    using h by (simp add: pool_free_def sizeof_block_header_def check_header_def calc_checksum_def Let_def)
qed

lemma pool_free_ok:
  assumes ok: "pool_ok U F p" and i: "i < 29" and U: "U i = xs @ b # ys" and side: "xs = [] \<or> ys \<noteq> []"
  shows "\<exists>p'. pool_free (b + 32) p = Inr p' \<and> pool_ok (U(i := xs @ ys)) (F(i := b # F i)) p'
    \<and> block_at p' = block_at p"
proof -
  let ?m = "managers p ! i"
  note D = pool_okD [OF ok i]
  have bU: "b \<in> set (U i)"
    using U by simp
  have lU: "list_ok (headers p) (used_list ?m) (xs @ b # ys)"
    using D(1) U by simp
  obtain ul h where det: "bl_detach b (used_list ?m) (headers p) = Inr (ul, h)" "list_ok h ul (xs @ ys)"
      "core h = core (headers p)" "\<forall>x. x \<notin> set (xs @ ys) \<longrightarrow> h x = headers p x"
    using bl_detach_ok [OF lU side] by blast
  have bd: "b \<notin> set (xs @ ys)" "b \<noteq> 0" "b \<notin> set (F i)"
    using lU D(3) U by (auto simp: list_ok_def)
  obtain hb where "headers p b = Some hb"
    using block_of_used(2) [OF ok i bU] by blast
  then have hb: "h b = Some hb"
    using det(4) bd(1) by simp
  have "list_ok h (free_list ?m) (F i)"
    using D(2,3) U det(4) by (subst list_ok_frame [of _ _ "headers p"]) auto
  from bl_push_ok [where h = h, OF this bd(3,2) hb]
  obtain fl h' where push: "bl_push b (free_list ?m) h = Inr (fl, h')" "list_ok h' fl (b # F i)"
      "core h' = core h" "\<forall>x. x \<notin> set (b # F i) \<longrightarrow> h' x = h x"
    by blast
  have us: "list_ok h' ul (xs @ ys)"
    using det(2) D(3) U bd(1) push(4) by (subst list_ok_frame [of _ _ h]) auto
  let ?p = "p\<lparr>managers := (managers p)[i := ?m\<lparr>free_list := fl, used_list := ul\<rparr>], headers := h'\<rparr>"
  have "pool_ok (U(i := xs @ ys)) (F(i := b # F i)) ?p"
    by (rule relink_ok [OF ok i us push(2)]) (use D(3) U bd det push in auto)
  moreover have "block_at ?p = block_at p"
    using push(3) det(3) by (intro geometry_core(2)) simp_all
  ultimately show ?thesis
    using pool_free_eq [OF ok i block_of_used(1) [OF ok i bU]] det(1) push(1)
    by (intro exI [of _ ?p]) simp
qed

lemma pool_free_last:
  assumes ok: "pool_ok U F p" and i: "i < 29" and U: "U i = xs @ [b]" and "xs \<noteq> []"
  shows "pool_free (b + 32) p = Inl Undefined"
proof -
  have "list_ok (headers p) (used_list (managers p ! i)) (xs @ [b])"
    using pool_okD(1) [OF ok i] U by simp
  then have "bl_detach b (used_list (managers p ! i)) (headers p) = Inl Undefined"
    by (rule bl_detach_last) (rule assms(4), rule no_null_header [OF ok])
  then show ?thesis
    using pool_free_eq [OF ok i block_of_used(1) [OF ok i]] U by simp
qed

section \<open>Allocation\<close>

lemma pool_new_ok:
  assumes "0 < unat b" "unat b \<le> unat e"
  shows "pool_ok (\<lambda>_. []) (\<lambda>_. []) (pool_new this b e)"
proof -
  have "\<forall>i \<in> set [0..<29]. ucast (push_bit i (8 :: size_t)) = (2 ^ (i + 3) :: u32)"
    by code_simp
  then have "shape_ok (pool_new this b e)"
    using assms by (simp add: shape_ok_def pool_new_def pool_init_def nth_enumerate_eq)
  then show ?thesis
    by (simp add: pool_ok_def geometry_ok_def lists_ok_def list_ok_def class_blocks_def block_at_def
        core_def pool_new_def pool_init_def nth_enumerate_eq)
qed

text \<open>What an allocation of at most 2 GiB (rounded up) does, from any well-formed pool.\<close>

lemma pool_alloc_cases:
  assumes ok: "pool_ok U F p" and n: "unat n + 7 < 2 ^ 31"
  obtains (reuse) i b fs p' where "i < 29" "unat n \<le> 2 ^ (i + 3)" "F i = b # fs"
      "pool_alloc n p = Inr (b + 32, p')" "pool_ok (U(i := b # U i)) (F(i := fs)) p'"
      "block_at p' = block_at p"
    | (carve) i p' where "i < 29" "unat n \<le> 2 ^ (i + 3)" "F i = []"
      "unat (pool_cur p) + extent i \<le> unat (pool_end p)"
      "pool_alloc n p = Inr (pool_cur p + 32, p')" "pool_ok (U(i := pool_cur p # U i)) F p'"
      "\<forall>b j. block_at p' b j \<longleftrightarrow> block_at p b j \<or> b = pool_cur p \<and> j = i"
    | (full) i where "i < 29" "find_block_manager (align8 n) = of_nat i" "F i = []"
      "unat (pool_end p) < unat (pool_cur p) + extent i" "pool_alloc n p = Inr (0, p)"
proof -
  have al: "unat n \<le> unat (align8 n)" "unat (align8 n) < 2 ^ 31"
    using n unat_align8 [of n] div_times_less_eq_dividend [of "unat n + 7" 8] by simp_all
  show ?thesis
  proof (cases rule: find_block_manager_cases [of "align8 n"])
    case none
    then have "class_bound 28 \<le> align8 n"
      by simp
    then show ?thesis
      using al(2) unat_class_bound [of 28] by (simp add: word_le_nat_alt)
  next
    case (found i)
    have size: "unat n \<le> 2 ^ (i + 3)"
      using found(1,3) al unat_class_bound [of i] by (cases "i = 28") (simp_all add: word_less_nat_alt)
    have idx: "unat (of_nat i :: size_t) = i"
      using found(1) by (simp add: unat_of_nat64)
    have fl: "bl_empty (free_list (managers p ! i)) \<longleftrightarrow> F i = []"
      using pool_okD(2) [OF ok found(1)] by (auto simp: list_ok_def bl_empty_def split: list.splits)
    show ?thesis
    proof (cases "F i")
      case (Cons b fs)
      then show ?thesis
        using reuse [of i b fs] alloc_exist_ok [OF ok found(1) Cons] found(1,2,5) size idx fl
        by (auto simp: pool_alloc_def Let_def)
    next
      case Nil
      then have eq: "pool_alloc n p = alloc_new i p"
        using found(2,5) idx fl by (simp add: pool_alloc_def Let_def)
      show ?thesis
      proof (cases "unat (pool_cur p) + extent i \<le> unat (pool_end p)")
        case True
        then show ?thesis
          using carve [of i] alloc_new_ok [OF ok found(1) True] found(1) size Nil eq by auto
      next
        case False
        then have "alloc_new i p = Inr (0, p)"
          using alloc_new_room [OF ok found(1)] by (simp add: alloc_new_def Let_def)
        then show ?thesis
          using full [of i] found(1,2) Nil False eq by auto
      qed
    qed
  qed
qed

section \<open>Reachable pools\<close>

text \<open>
  The states of a pool under a client that allocates, and frees in any order pointers it holds, as
  long as no call is undefined behaviour; \<open>live\<close> are the pointers it holds with the sizes it asked for.
\<close>

inductive pool_reachable :: "u64 \<Rightarrow> u64 \<Rightarrow> u64 \<Rightarrow> mempool \<Rightarrow> (u64 \<Rightarrow> size_t option) \<Rightarrow> bool"
  for this b e where
  fresh_pool: "0 < unat b \<Longrightarrow> unat b \<le> unat e \<Longrightarrow> pool_reachable this b e (pool_new this b e) Map.empty"
| client_alloc: "pool_reachable this b e p live \<Longrightarrow> unat n + 7 < 2 ^ 31 \<Longrightarrow> pool_alloc n p = Inr (q, p') \<Longrightarrow>
    live' = (if q = 0 then live else live(q \<mapsto> n)) \<Longrightarrow> pool_reachable this b e p' live'"
| client_free: "pool_reachable this b e p live \<Longrightarrow> live q \<noteq> None \<Longrightarrow> pool_free q p = Inr p' \<Longrightarrow>
    pool_reachable this b e p' (live(q := None))"

definition held_by_client :: "(nat \<Rightarrow> u64 list) \<Rightarrow> mempool \<Rightarrow> (u64 \<Rightarrow> size_t option) \<Rightarrow> bool" where
  "held_by_client U p live \<longleftrightarrow> (\<forall>q n. live q = Some n \<longrightarrow>
     (\<exists>i < 29. q - 32 \<in> set (U i) \<and> unat n \<le> 2 ^ (i + 3)))"


lemma held_by_clientD:
  "held_by_client U p live \<Longrightarrow> live q = Some n \<Longrightarrow> \<exists>i < 29. q - 32 \<in> set (U i) \<and> unat n \<le> 2 ^ (i + 3)"
  by (simp add: held_by_client_def)

lemma used_unique:
  assumes ok: "pool_ok U F p" and "i < 29" "j < 29" "b \<in> set (U i)" "b \<in> set (U j)"
  shows "i = j"
  using pool_okD(4) [OF ok assms(2)] pool_okD(4) [OF ok assms(3)] class_disjoint [OF assms(2,3), of p] assms(4,5)
  by blast

lemma free_not_used:
  assumes ok: "pool_ok U F p" and "i < 29" "j < 29" "b \<in> set (F i)"
  shows "b \<notin> set (U j)"
  using pool_okD(3,4) [OF ok assms(2)] pool_okD(4) [OF ok assms(3)] class_disjoint [OF assms(2,3), of p] assms(4)
  by blast

lemma pool_reachable_ok:
  assumes "pool_reachable this b e p live"
  shows "\<exists>U F. pool_ok U F p \<and> held_by_client U p live"
  using assms
proof (induction rule: pool_reachable.induct)
  case fresh_pool
  then show ?case
    using pool_new_ok [OF fresh_pool] by (fastforce simp: held_by_client_def)
next
  case (client_alloc p live n q p' live')
  then obtain U F where ok: "pool_ok U F p" and held: "held_by_client U p live"
    by blast
  have grow: "held_by_client (U(i := c # U i)) p'' live'" if "i < 29" "unat n \<le> 2 ^ (i + 3)" "q = c + 32" for i c p''
    using held that client_alloc.hyps(4) by (auto simp: held_by_client_def) (metis list.set_intros(2))+
  show ?case
    using ok client_alloc.hyps(2)
  proof (cases rule: pool_alloc_cases)
    case (reuse i c fs p'')
    then show ?thesis
      using client_alloc.hyps(3) grow [of i c p'] by auto
  next
    case (carve i p'')
    then show ?thesis
      using client_alloc.hyps(3) grow [of i "pool_cur p" p'] by auto
  next
    case (full i)
    then show ?thesis
      using client_alloc.hyps(3,4) ok held by auto
  qed
next
  case (client_free p live q p')
  then obtain U F where ok: "pool_ok U F p" and held: "held_by_client U p live"
    by blast
  obtain i where i: "i < 29" "q - 32 \<in> set (U i)"
    using held client_free.hyps(2) by (auto simp: held_by_client_def)
  then obtain xs ys where U: "U i = xs @ (q - 32) # ys"
    by (auto simp: in_set_conv_decomp)
  have side: "xs = [] \<or> ys \<noteq> []"
    using pool_free_last [OF ok i(1), of xs "q - 32"] U client_free.hyps(3) by auto
  have p': "pool_ok (U(i := xs @ ys)) (F(i := (q - 32) # F i)) p'"
    using pool_free_ok [OF ok i(1) U side] client_free.hyps(3) by auto
  have "held_by_client (U(i := xs @ ys)) p' (live(q := None))"
    unfolding held_by_client_def
  proof (intro allI impI)
    fix r n
    assume "(live(q := None)) r = Some n"
    then have r: "live r = Some n" "r \<noteq> q"
      by (auto split: if_splits)
    then obtain j where j: "j < 29" "r - 32 \<in> set (U j)" "unat n \<le> 2 ^ (j + 3)"
      using held by (auto simp: held_by_client_def)
    then have "r - 32 \<in> set ((U(i := xs @ ys)) j)"
      using U r(2) by auto
    then show "\<exists>k < 29. r - 32 \<in> set ((U(i := xs @ ys)) k) \<and> unat n \<le> 2 ^ (k + 3)"
      using j by blast
  qed
  then show ?case
    using p' by blast
qed

lemma block_bounds:
  assumes ok: "pool_ok U F p" and "i < 29" "b \<in> set (U i) \<union> set (F i)"
  shows "unat (pool_beg p) \<le> unat b" "unat b + extent i \<le> unat (pool_end p)" "unat (b + 32) = unat b + 32"
    "block_at p b i"
proof -
  have "b \<in> class_blocks p i"
    using pool_okD(4) [OF ok assms(2)] assms(3) by blast
  then have c: "\<exists>s. core (headers p) b = Some (mgr_addr p i, s)"
    by (simp add: class_blocks_def)
  then obtain k where k: "block_at p b k" "unat (pool_beg p) \<le> unat b" "unat b + extent k \<le> unat (pool_cur p)"
    using ok unfolding pool_ok_def geometry_ok_def by blast
  have "mgr_addr p k = mgr_addr p i" "k < 29"
    using c k(1) by (auto simp: block_at_def)
  then have "k = i"
    using assms(2) by (intro mgr_addr_inj)
  then show "unat (pool_beg p) \<le> unat b" "unat b + extent i \<le> unat (pool_end p)" "block_at p b i"
    using k ok by (auto simp: pool_ok_def shape_ok_def)
  then have "unat b + 32 < 2 ^ 64"
    using unat_less_2p64 [of "pool_end p"] by (simp add: extent_def)
  then show "unat (b + 32) = unat b + 32"
    by (simp add: unat_word_ariths)
qed

lemma live_block_bounds:
  assumes ok: "pool_ok U F p" and held: "held_by_client U p live" and l: "live q = Some n"
  shows "unat (pool_beg p) + 32 \<le> unat q" "unat q + unat n + 8 \<le> unat (pool_end p)"
    "headers p h \<noteq> None \<Longrightarrow> unat h + 32 \<le> unat q \<or> unat q + unat n + 8 \<le> unat h"
proof -
  obtain i where i: "i < 29" "q - 32 \<in> set (U i)" "unat n \<le> 2 ^ (i + 3)"
    using held_by_clientD [OF held l] by blast
  note B = block_bounds [OF ok i(1), of "q - 32"]
  have q: "unat q = unat (q - 32) + 32"
    using B(3) i by simp
  show "unat (pool_beg p) + 32 \<le> unat q" "unat q + unat n + 8 \<le> unat (pool_end p)"
    using B(1-3) i by (simp_all add: extent_def)
  show "unat h + 32 \<le> unat q \<or> unat q + unat n + 8 \<le> unat h" if "headers p h \<noteq> None"
  proof (cases "h = q - 32")
    case False
    have "core (headers p) h \<noteq> None"
      using that by (simp add: core_def)
    then obtain j where "block_at p h j"
      using ok unfolding pool_ok_def geometry_ok_def by blast
    then have "unat (q - 32) + extent i \<le> unat h \<or> unat h + extent j \<le> unat (q - 32)"
      using ok B(4) i(2) False unfolding pool_ok_def geometry_ok_def by (metis UnI1)
    then show ?thesis
      using q i(3) by (simp add: extent_def) linarith
  qed (use q in simp)
qed

lemma live_blocks_apart:
  assumes ok: "pool_ok U F p" and held: "held_by_client U p live" and l: "live q = Some n" "live q' = Some n'" "q \<noteq> q'"
  shows "unat (pool_beg p) + 32 \<le> unat q" "unat q + unat n + 8 \<le> unat (pool_end p)"
    "unat q + unat n + 8 \<le> unat q' - 32 \<or> unat q' + unat n' + 8 \<le> unat q - 32"
proof -
  show "unat (pool_beg p) + 32 \<le> unat q" "unat q + unat n + 8 \<le> unat (pool_end p)"
    by (rule live_block_bounds [OF ok held l(1)])+
  obtain i where i: "i < 29" "q - 32 \<in> set (U i)" "unat n \<le> 2 ^ (i + 3)"
    using held_by_clientD [OF held l(1)] by blast
  obtain j where j: "j < 29" "q' - 32 \<in> set (U j)" "unat n' \<le> 2 ^ (j + 3)"
    using held_by_clientD [OF held l(2)] by blast
  note B = block_bounds [OF ok i(1), of "q - 32"] and B' = block_bounds [OF ok j(1), of "q' - 32"]
  have "unat (q - 32) + extent i \<le> unat (q' - 32) \<or> unat (q' - 32) + extent j \<le> unat (q - 32)"
    using ok B(4) B'(4) i(2) j(2) l(3) unfolding pool_ok_def geometry_ok_def
    by (metis UnI1 diff_add_cancel)
  then show "unat q + unat n + 8 \<le> unat q' - 32 \<or> unat q' + unat n' + 8 \<le> unat q - 32"
    using B(1-3) B'(1-3) i j by (simp add: extent_def) linarith
qed


lemma pool_alloc_result:
  assumes ok: "pool_ok U F p" and held: "held_by_client U p live" and n: "unat n + 7 < 2 ^ 31"
  shows "\<exists>q p'. pool_alloc n p = Inr (q, p')
    \<and> (q = 0 \<longrightarrow> p' = p \<and> bl_empty (free_list (managers p ! unat (find_block_manager (align8 n))))
        \<and> unat (pool_end p) - unat (pool_cur p) < extent (unat (find_block_manager (align8 n))))
    \<and> (q \<noteq> 0 \<longrightarrow> live q = None)"
proof -
  have fresh: "live (c + 32) = None" if "\<forall>j < 29. c \<notin> set (U j)" for c
    using held_by_clientD [OF held, of "c + 32"] that by (cases "live (c + 32)") auto
  show ?thesis
    using ok n
  proof (cases rule: pool_alloc_cases)
    case (reuse i c fs p')
    have "c \<in> set (F i)"
      using reuse(3) by simp
    then have "c + 32 \<noteq> 0" "\<forall>j < 29. c \<notin> set (U j)"
      using block_bounds(3) [OF ok reuse(1), of c] free_not_used [OF ok reuse(1)] by auto
    then show ?thesis
      using reuse(4) fresh by auto
  next
    case (carve i p')
    have "pool_cur p \<in> set ((U(i := pool_cur p # U i)) i)"
      by simp
    then have "unat (pool_cur p + 32) = unat (pool_cur p) + 32"
      using block_bounds(3) [OF carve(6,1), of "pool_cur p"] by blast
    then have "pool_cur p + 32 \<noteq> 0"
      by auto
    moreover have "core (headers p) (pool_cur p) = None"
      using ok by (intro cur_fresh) (simp add: pool_ok_def)
    then have "pool_cur p \<notin> class_blocks p j" for j
      by (simp add: class_blocks_def)
    then have "\<forall>j < 29. pool_cur p \<notin> set (U j)"
      using pool_okD(4) [OF ok] by blast
    ultimately show ?thesis
      using carve(5) fresh by auto
  next
    case (full i)
    have "bl_empty (free_list (managers p ! i))"
      using pool_okD(2) [OF ok full(1)] full(3) by (simp add: bl_empty_def list_ok_def)
    then show ?thesis
      using full by (auto simp: unat_of_nat64 extent_def)
  qed
qed

text \<open>C28: in a pool over an area that does not start at null, reached by requests of at most \<open>2 ^ 31 - 8\<close> bytes, an allocation of at most \<open>2 ^ 31 - 8\<close>
  bytes never faults; it returns null, and changes nothing, only if the size class has no free block
  and the rest of the area is too small for one; otherwise the pointer it returns is not one the
  client holds. (Up to there the requests, rounded up to a multiple of 8, are below the largest class.)\<close>

theorem mempool_alloc_correct:
  assumes "pool_reachable this b e p live" "unat n + 7 < 2 ^ 31"
  shows "\<exists>q p'. pool_alloc n p = Inr (q, p')
    \<and> (q = 0 \<longrightarrow> p' = p \<and> bl_empty (free_list (managers p ! unat (find_block_manager (align8 n))))
        \<and> unat (pool_end p) - unat (pool_cur p) < extent (unat (find_block_manager (align8 n))))
    \<and> (q \<noteq> 0 \<longrightarrow> live q = None)"
proof -
  obtain U F where "pool_ok U F p" "held_by_client U p live"
    using pool_reachable_ok [OF assms(1)] by blast
  then show ?thesis
    using assms(2) by (rule pool_alloc_result)
qed

text \<open>C29: freeing puts a block back on its free list, and the next allocation from its class gets it; but
  freeing the block that was handed out first, while another block of its class is in use, follows
  a null pointer, and so does freeing a block twice in a row.\<close>

theorem mempool_free_correct:
  assumes "pool_ok U F p" "i < 29" "U i = xs @ b # ys"
  shows "(if xs \<noteq> [] \<and> ys = [] then pool_free (b + 32) p = Inl Undefined
    else \<exists>p'. pool_free (b + 32) p = Inr p' \<and> pool_ok (U(i := xs @ ys)) (F(i := b # F i)) p'
      \<and> (\<exists>p''. alloc_exist i p' = Inr (b + 32, p''))
      \<and> pool_free (b + 32) p' = Inl Undefined)"
proof (cases "xs \<noteq> [] \<and> ys = []")
  case True
  then show ?thesis
    using pool_free_last [OF assms(1,2), of xs b] assms(3) by simp
next
  case False
  then obtain p' where p': "pool_free (b + 32) p = Inr p'" "pool_ok (U(i := xs @ ys)) (F(i := b # F i)) p'"
    using pool_free_ok [OF assms] by auto
  have "\<exists>p''. alloc_exist i p' = Inr (b + 32, p'')"
    using alloc_exist_ok [OF p'(2) assms(2), of b "F i"] by auto
  moreover have "pool_free (b + 32) p' = Inl Undefined"
  proof -
    note D = pool_okD [OF p'(2) assms(2)]
    have bF: "b \<in> set ((F(i := b # F i)) i)"
      by simp
    have l: "list_ok (headers p') (free_list (managers p' ! i)) (b # F i)"
      using D(2) by simp
    then obtain h where h: "headers p' b = Some h" "hdr_prev h = 0" "b \<noteq> 0"
      by (auto simp: list_ok_def)
    have "b \<notin> set (xs @ ys)"
      using free_not_used [OF p'(2) assms(2) assms(2) bF] by simp
    then have "bl_head (used_list (managers p' ! i)) \<noteq> b"
      using D(1) h(3) by (cases "xs @ ys") (auto simp: list_ok_def)
    then have "bl_detach b (used_list (managers p' ! i)) (headers p') = Inl Undefined"
      using h no_null_header [OF p'(2)] by (simp add: bl_detach_def set_next_def)
    then show ?thesis
      using pool_free_eq [OF p'(2) assms(2)] block_bounds(4) [OF p'(2) assms(2), of b] bF by simp
  qed
  ultimately show ?thesis
    using p' False by auto
qed


section \<open>A concrete pool\<close>

text \<open>Two allocations of one class from an area of 8 KiB.\<close>

lemma small_pool:
  obtains p1 p2 where "pool_reachable 64 4096 12288 p2 [4128 \<mapsto> 5, 4184 \<mapsto> 6]"
    "pool_ok ((\<lambda>_. [])(1 := [4152, 4096])) (\<lambda>_. []) p2"
    "pool_alloc 5 (pool_new 64 4096 12288) = Inr (4128, p1)" "pool_alloc 5 p1 = Inr (4184, p2)"
proof -
  let ?p = "pool_new 64 4096 12288"
  have ok: "pool_ok (\<lambda>_. []) (\<lambda>_. []) ?p"
    by (rule pool_new_ok) simp_all
  have f: "find_block_manager (align8 5) = 1" "find_block_manager (align8 6) = 1"
    by code_simp+
  have al: "pool_alloc n q = alloc_new 1 q" if "pool_ok U (\<lambda>_. []) q" "find_block_manager (align8 n) = 1" for n q U
    using that pool_okD(2) [OF that(1), of 1] by (simp add: pool_alloc_def bl_empty_def list_ok_def)
  obtain p1 where p1: "alloc_new 1 ?p = Inr (4128, p1)" "pool_ok ((\<lambda>_. [])(1 := [4096])) (\<lambda>_. []) p1"
      "pool_cur p1 = 4152" "pool_end p1 = 12288"
    using alloc_new_ok [OF ok, of 1] by (auto simp: pool_new_def extent_def)
  obtain p2 where p2: "alloc_new 1 p1 = Inr (4184, p2)" "pool_ok ((\<lambda>_. [])(1 := [4152, 4096])) (\<lambda>_. []) p2"
    using alloc_new_ok [OF p1(2), of 1] p1(3,4) by (auto simp: extent_def)
  have "pool_reachable 64 4096 12288 ?p Map.empty"
    by (rule fresh_pool) simp_all
  then have "pool_reachable 64 4096 12288 p1 [4128 \<mapsto> 5]"
    by (rule client_alloc [where n = 5 and q = 4128]) (use al [OF ok f(1)] p1(1) in simp_all)
  then have "pool_reachable 64 4096 12288 p2 [4128 \<mapsto> 5, 4184 \<mapsto> 6]"
    by (rule client_alloc [where n = 6 and q = 4184]) (use al [OF p1(2) f(2)] p2(1) in simp_all)
  then show ?thesis
    using that p2 p1(1) al [OF ok f(1)] al [OF p1(2) f(1)] by simp
qed


theorem mempool_alloc_correct_witness:
  "\<exists>q p'. pool_alloc 5 (pool_new 64 4096 12288) = Inr (q, p')"
  using mempool_alloc_correct [OF fresh_pool, of 4096 12288 5 64] by auto

theorem mempool_free_correct_witness:
  "\<exists>p. pool_free (4096 + 32) p = Inl Undefined \<and> (\<exists>p'. pool_free (4152 + 32) p = Inr p')"
proof -
  obtain p where p: "pool_ok ((\<lambda>_. [])(1 := [4152, 4096])) (\<lambda>_. []) p"
    using small_pool by metis
  have "pool_free (4096 + 32) p = Inl Undefined"
    using mempool_free_correct [OF p, of 1 "[4152]" 4096 "[]"] by simp
  moreover have "\<exists>p'. pool_free (4152 + 32) p = Inr p'"
    using mempool_free_correct [OF p, of 1 "[]" 4152 "[4096]"] by auto
  ultimately show ?thesis
    by blast
qed

theorem find_block_manager_spec_witness:
  "find_block_manager 24 = 2 \<and> find_block_manager 0xC0000000 = 28 \<and> 2 ^ (28 + 3) < unat (0xC0000000 :: size_t)"
proof -
  have "unat (0xC0000000 :: size_t) = 0xC0000000"
    by simp
  then have "find_block_manager 0xC0000000 = 28 \<and> 2 ^ (28 + 3) < unat (0xC0000000 :: size_t)"
    using find_block_manager_spec [of "0xC0000000"] by simp
  moreover have "find_block_manager 24 = 2"
    by code_simp
  ultimately show ?thesis
    by blast
qed

end
