(* ===== verification/Pooled_Objects.thy ===== *)
theory Pooled_Objects
  imports Allocator Mempool
begin

text \<open>
  The allocator of \<^verbatim>\<open>src/allocator.h\<close> on the pool of \<^verbatim>\<open>src/mempool.cpp\<close>: arrays of objects the way a
  container keeps them. An array is allocated, its objects are constructed one after the other; later
  they are destroyed in the same order and the storage is given back.
\<close>

section \<open>Arrays\<close>

definition pool_allocator :: "mempool allocator" where
  "pool_allocator = \<lparr>alloc = pool_alloc, dealloc = pool_free\<rparr>"

fun construct_all :: "size_t \<Rightarrow> u64 \<Rightarrow> 'v list \<Rightarrow> 'v objects \<Rightarrow> 'v objects" where
  "construct_all sizeof p [] st = st"
| "construct_all sizeof p (v # vs) st = construct_all sizeof (p + sizeof) vs (construct sizeof p v st)"

fun destroy_all :: "size_t \<Rightarrow> u64 \<Rightarrow> nat \<Rightarrow> 'v objects \<Rightarrow> 'v objects res" where
  "destroy_all sizeof p 0 st = Inr st"
| "destroy_all sizeof p (Suc n) st = bind_res (destroy p st) (destroy_all sizeof (p + sizeof) n)"

definition new_array :: "size_t \<Rightarrow> 'v list \<Rightarrow> mempool \<Rightarrow> 'v objects \<Rightarrow> (u64 \<times> mempool \<times> 'v objects) res" where
  "new_array sizeof vs p st =
     bind_res (allocate sizeof pool_allocator (of_nat (length vs)) p) (\<lambda>(q, p).
       Inr (q, p, if q = 0 then st else construct_all sizeof q vs st))"

definition delete_array :: "size_t \<Rightarrow> u64 \<Rightarrow> nat \<Rightarrow> mempool \<Rightarrow> 'v objects \<Rightarrow> (mempool \<times> 'v objects) res" where
  "delete_array sizeof q n p st =
     bind_res (destroy_all sizeof q n st) (\<lambda>st.
     bind_res (deallocate pool_allocator q (of_nat n) p) (\<lambda>p. Inr (p, st)))"

text \<open>A client that makes and deletes arrays, each of less than 2 GiB, as long as no call is undefined
  behaviour; \<open>arrays\<close> are those it holds.\<close>

inductive arrays_reachable ::
    "u64 \<Rightarrow> u64 \<Rightarrow> u64 \<Rightarrow> size_t \<Rightarrow> mempool \<Rightarrow> (u64 \<Rightarrow> 'v list option) \<Rightarrow> 'v objects \<Rightarrow> bool"
  for this b e sizeof where
  no_arrays: "0 < unat b \<Longrightarrow> unat b \<le> unat e \<Longrightarrow>
    arrays_reachable this b e sizeof (pool_new this b e) Map.empty Map.empty"
| make_array: "arrays_reachable this b e sizeof p arrays st \<Longrightarrow> length vs * unat sizeof + 7 < 2 ^ 31 \<Longrightarrow>
    new_array sizeof vs p st = Inr (q, p', st') \<Longrightarrow>
    arrays_reachable this b e sizeof p' (if q = 0 then arrays else arrays(q \<mapsto> vs)) st'"
| drop_array: "arrays_reachable this b e sizeof p arrays st \<Longrightarrow> arrays q = Some vs \<Longrightarrow>
    delete_array sizeof q (length vs) p st = Inr (p', st') \<Longrightarrow>
    arrays_reachable this b e sizeof p' (arrays(q := None)) st'"

section \<open>Objects of an array\<close>

definition slot :: "size_t \<Rightarrow> u64 \<Rightarrow> nat \<Rightarrow> u64" where
  "slot sizeof q i = q + of_nat i * sizeof"

definition in_array :: "size_t \<Rightarrow> u64 \<Rightarrow> nat \<Rightarrow> u64 \<Rightarrow> bool" where
  "in_array sizeof q n a \<longleftrightarrow> (\<exists>i < n. a = slot sizeof q i)"

definition fits_at :: "size_t \<Rightarrow> u64 \<Rightarrow> nat \<Rightarrow> bool" where
  "fits_at sizeof q n \<longleftrightarrow> sizeof \<noteq> 0 \<and> unat q + n * unat sizeof < 2 ^ 64"

lemma unat_slot:
  assumes "fits_at sizeof q n" "i < n"
  shows "unat (slot sizeof q i) = unat q + i * unat sizeof"
proof -
  have "i * unat sizeof \<le> n * unat sizeof"
    using assms(2) by simp
  then have "unat q + i * unat sizeof < 2 ^ 64"
    using assms(1) unfolding fits_at_def by linarith
  moreover have "unat (slot sizeof q i) = (unat q + i * unat sizeof) mod 2 ^ 64"
    by (simp add: slot_def unat_word_ariths unat_of_nat64 mod_simps)
  ultimately show ?thesis
    by simp
qed

text \<open>Objects of which the one ends before the other begins do not overlap.\<close>

lemma apart_not_overlaps:
  assumes "unat a + unat sizeof \<le> unat p" "unat p + unat sizeof \<le> 2 ^ 64"
  shows "\<not> overlaps sizeof a p" "\<not> overlaps sizeof p a"
proof -
  have "unat (p - a) = unat p - unat a"
    using assms(1) by (intro unat_sub) (simp add: word_le_nat_alt)
  then have 1: "\<not> p - a < sizeof"
    using assms(1) by (simp add: word_less_nat_alt)
  have "\<not> a - p < sizeof"
  proof (cases "sizeof = 0")
    case False
    then have "a < p"
      using assms(1) unat_gt_0 [of sizeof] by (simp add: word_less_nat_alt)
    then have "unat (a - p) = 2 ^ 64 + unat a - unat p"
      by (simp add: unat_sub_if_size word_less_nat_alt word_size)
    then show ?thesis
      using assms by (simp add: word_less_nat_alt)
  qed simp
  then show "\<not> overlaps sizeof a p" "\<not> overlaps sizeof p a"
    using 1 by (simp_all add: overlaps_def)
qed

lemma slots_apart:
  assumes f: "fits_at sizeof q n" and "i < n" "j < n" "i \<noteq> j"
  shows "\<not> overlaps sizeof (slot sizeof q i) (slot sizeof q j)"
proof -
  have ap: "\<not> overlaps sizeof (slot sizeof q i) (slot sizeof q j) \<and> \<not> overlaps sizeof (slot sizeof q j) (slot sizeof q i)"
    if "i < j" "j < n" for i j
  proof -
    have "Suc i * unat sizeof \<le> j * unat sizeof" "Suc j * unat sizeof \<le> n * unat sizeof"
      using that by (intro mult_le_mono1; simp)+
    then have "unat (slot sizeof q i) + unat sizeof \<le> unat (slot sizeof q j)"
        "unat (slot sizeof q j) + unat sizeof \<le> 2 ^ 64"
      using unat_slot [OF f, of i] unat_slot [OF f that(2)] that f by (simp_all add: fits_at_def)
    then show ?thesis
      using apart_not_overlaps by blast
  qed
  show ?thesis
    using ap [of i j] ap [of j i] assms(2-4) by (cases "i < j") auto
qed

lemma slot_inj:
  assumes f: "fits_at sizeof q n" and "i < n" "j < n" "slot sizeof q i = slot sizeof q j"
  shows "i = j"
proof (rule ccontr)
  assume "i \<noteq> j"
  then have "\<not> overlaps sizeof (slot sizeof q i) (slot sizeof q i)"
    using slots_apart [OF assms(1-3)] assms(4) by simp
  then show False
    using f by (simp add: overlaps_def fits_at_def word_neq_0_conv)
qed

lemma slot_Suc: "slot sizeof (q + sizeof) i = slot sizeof q (Suc i)"
  by (simp add: slot_def algebra_simps)

lemma slot_0 [simp]: "slot sizeof q 0 = q"
  by (simp add: slot_def)

lemma in_array_Suc: "in_array sizeof q (Suc n) a \<longleftrightarrow> a = q \<or> in_array sizeof (q + sizeof) n a"
  unfolding in_array_def slot_Suc using less_Suc_eq_0_disj by (auto simp: less_Suc_eq_0_disj)

text \<open>The objects of the arrays held, and no others.\<close>

definition holds_arrays :: "size_t \<Rightarrow> (u64 \<Rightarrow> 'v list option) \<Rightarrow> 'v objects \<Rightarrow> bool" where
  "holds_arrays sizeof arrays st \<longleftrightarrow>
     (\<forall>q vs i. arrays q = Some vs \<longrightarrow> i < length vs \<longrightarrow> st (slot sizeof q i) = Some (vs ! i))
     \<and> (\<forall>a. st a \<noteq> None \<longrightarrow> (\<exists>q vs. arrays q = Some vs \<and> in_array sizeof q (length vs) a))"

lemma construct_all_other:
  "(\<And>i. i < length vs \<Longrightarrow> a \<noteq> slot sizeof q i \<and> \<not> overlaps sizeof a (slot sizeof q i)) \<Longrightarrow>
    construct_all sizeof q vs st a = st a"
proof (induction vs arbitrary: q st)
  case (Cons v vs)
  have "construct_all sizeof (q + sizeof) vs (construct sizeof q v st) a = construct sizeof q v st a"
    using Cons.prems [of "Suc _"] by (intro Cons.IH) (simp add: slot_Suc)
  then show ?case
    using Cons.prems [of 0] by (simp add: construct_def)
qed simp

lemma construct_all_some: "construct_all sizeof q vs st a \<noteq> None \<Longrightarrow> in_array sizeof q (length vs) a \<or> st a \<noteq> None"
proof (induction vs arbitrary: q st)
  case (Cons v vs)
  then show ?case
    using Cons.IH [of "q + sizeof" "construct sizeof q v st"] by (auto simp: in_array_Suc construct_def split: if_splits)
qed simp

lemma construct_all_slot:
  "(\<And>i j. i < length vs \<Longrightarrow> j < length vs \<Longrightarrow> i \<noteq> j \<Longrightarrow>
      slot sizeof q i \<noteq> slot sizeof q j \<and> \<not> overlaps sizeof (slot sizeof q i) (slot sizeof q j)) \<Longrightarrow>
    i < length vs \<Longrightarrow> construct_all sizeof q vs st (slot sizeof q i) = Some (vs ! i)"
proof (induction vs arbitrary: q st i)
  case (Cons v vs)
  show ?case
  proof (cases i)
    case 0
    have "construct_all sizeof (q + sizeof) vs (construct sizeof q v st) q = construct sizeof q v st q"
      using Cons.prems(1) [of 0 "Suc _"] by (intro construct_all_other) (simp add: slot_Suc)
    then show ?thesis
      using 0 by (simp add: construct_def)
  next
    case (Suc k)
    then show ?thesis
      using Cons.IH [of "q + sizeof" k] Cons.prems(1) [of "Suc _" "Suc _"] Cons.prems(2) by (simp add: slot_Suc)
  qed
qed simp

lemma destroy_all_effect:
  "destroy_all sizeof q n st = Inr st' \<Longrightarrow> st' a = (if in_array sizeof q n a then None else st a)"
proof (induction n arbitrary: q st)
  case 0
  then show ?case
    by (simp add: in_array_def)
next
  case (Suc n)
  then obtain st1 where st1: "destroy q st = Inr st1" "destroy_all sizeof (q + sizeof) n st1 = Inr st'"
    by (auto simp: bind_res_Inr)
  then show ?case
    using Suc.IH [OF st1(2)] by (auto simp: destroy_def in_array_Suc split: option.splits)
qed

section \<open>Arrays do not disturb each other\<close>

definition bytes_of :: "size_t \<Rightarrow> (u64 \<Rightarrow> 'v list option) \<Rightarrow> u64 \<Rightarrow> size_t option" where
  "bytes_of sizeof arrays q = map_option (\<lambda>vs. of_nat (length vs) * sizeof) (arrays q)"

definition arrays_ok :: "u64 \<Rightarrow> u64 \<Rightarrow> u64 \<Rightarrow> size_t \<Rightarrow> mempool \<Rightarrow> (u64 \<Rightarrow> 'v list option) \<Rightarrow> 'v objects \<Rightarrow> bool" where
  "arrays_ok this b e sizeof p arrays st \<longleftrightarrow>
     pool_reachable this b e p (bytes_of sizeof arrays) \<and> holds_arrays sizeof arrays st
     \<and> (\<forall>q vs. arrays q = Some vs \<longrightarrow> length vs * unat sizeof + 7 < 2 ^ 31)"

lemma unat_bytes: "length vs * unat sizeof + 7 < 2 ^ 31 \<Longrightarrow> unat (of_nat (length vs) * sizeof :: size_t) = length vs * unat sizeof"
  by (simp add: unat_word_ariths unat_of_nat64 mod_simps)

text \<open>In a pool, what two arrays occupy.\<close>

lemma array_fits:
  assumes r: "pool_reachable this b e p (bytes_of sizeof arrays)" and nz: "sizeof \<noteq> 0"
    and a: "arrays q = Some vs" and len: "length vs * unat sizeof + 7 < 2 ^ 31"
  shows "fits_at sizeof q (length vs)"
proof -
  obtain U F where ok: "pool_ok U F p" and held: "held_by_client U p (bytes_of sizeof arrays)"
    using pool_reachable_ok [OF r] by blast
  have "unat q + length vs * unat sizeof + 8 \<le> unat (pool_end p)"
    using live_block_bounds(2) [OF ok held, of q] a unat_bytes [OF len] by (simp add: bytes_of_def)
  then show ?thesis
    using nz unat_less_2p64 [of "pool_end p"] by (simp add: fits_at_def)
qed

lemma arrays_apart:
  assumes r: "pool_reachable this b e p (bytes_of sizeof arrays)" and nz: "sizeof \<noteq> 0"
    and a: "arrays q = Some vs" "arrays q' = Some vs'" "q \<noteq> q'"
    and len: "length vs * unat sizeof + 7 < 2 ^ 31" "length vs' * unat sizeof + 7 < 2 ^ 31"
    and i: "i < length vs" "j < length vs'"
  shows "slot sizeof q i \<noteq> slot sizeof q' j" "\<not> overlaps sizeof (slot sizeof q i) (slot sizeof q' j)"
proof -
  obtain U F where ok: "pool_ok U F p" and held: "held_by_client U p (bytes_of sizeof arrays)"
    using pool_reachable_ok [OF r] by blast
  have l: "bytes_of sizeof arrays q = Some (of_nat (length vs) * sizeof)" "bytes_of sizeof arrays q' = Some (of_nat (length vs') * sizeof)"
    using a(1,2) by (simp_all add: bytes_of_def)
  note A = live_blocks_apart(3) [OF ok held l a(3), unfolded unat_bytes [OF len(1)] unat_bytes [OF len(2)]]
  note f = array_fits [OF r nz a(1) len(1)] array_fits [OF r nz a(2) len(2)]
  have "Suc i * unat sizeof \<le> length vs * unat sizeof" "Suc j * unat sizeof \<le> length vs' * unat sizeof"
    using i by (intro mult_le_mono1; simp)+
  moreover have "unat q + length vs * unat sizeof < 2 ^ 64" "unat q' + length vs' * unat sizeof < 2 ^ 64"
    using f by (simp_all add: fits_at_def)
  ultimately have "unat (slot sizeof q i) + unat sizeof \<le> unat (slot sizeof q' j)
        \<and> unat (slot sizeof q' j) + unat sizeof \<le> 2 ^ 64
      \<or> unat (slot sizeof q' j) + unat sizeof \<le> unat (slot sizeof q i)
        \<and> unat (slot sizeof q i) + unat sizeof \<le> 2 ^ 64"
    using A unfolding unat_slot [OF f(1) i(1)] unat_slot [OF f(2) i(2)] mult_Suc by linarith
  then show "\<not> overlaps sizeof (slot sizeof q i) (slot sizeof q' j)"
    using apart_not_overlaps by blast
  then show "slot sizeof q i \<noteq> slot sizeof q' j"
    using nz by (auto simp: overlaps_def word_neq_0_conv)
qed

lemma make_array_ok:
  assumes J: "arrays_ok this b e sizeof p arrays st" and nz: "sizeof \<noteq> 0"
    and len: "length vs * unat sizeof + 7 < 2 ^ 31" and new: "new_array sizeof vs p st = Inr (q, p', st')"
  shows "arrays_ok this b e sizeof p' (if q = 0 then arrays else arrays(q \<mapsto> vs)) st'"
proof -
  let ?n = "of_nat (length vs) * sizeof" and ?arrays = "if q = 0 then arrays else arrays(q \<mapsto> vs)"
  have al: "pool_alloc ?n p = Inr (q, p')" and st': "st' = (if q = 0 then st else construct_all sizeof q vs st)"
    using new by (auto simp: new_array_def allocate_def pool_allocator_def bind_res_Inr)
  have R: "pool_reachable this b e p (bytes_of sizeof arrays)" and H: "holds_arrays sizeof arrays st"
    and L: "\<And>q vs. arrays q = Some vs \<Longrightarrow> length vs * unat sizeof + 7 < 2 ^ 31"
    using J by (auto simp: arrays_ok_def)
  have "unat ?n + 7 < 2 ^ 31"
    using len unat_bytes [OF len] by simp
  then have R': "pool_reachable this b e p' (bytes_of sizeof ?arrays)"
    by (rule client_alloc [OF R _ al]) (auto simp: bytes_of_def fun_eq_iff)
  show ?thesis
  proof (cases "q = 0")
    case True
    then show ?thesis
      using R' H L st' by (simp add: arrays_ok_def)
  next
    case False
    let ?A = "arrays(q \<mapsto> vs)"
    have R2: "pool_reachable this b e p' (bytes_of sizeof ?A)"
      using R' False by simp
    obtain U F where "pool_ok U F p" "held_by_client U p (bytes_of sizeof arrays)"
      using pool_reachable_ok [OF R] by blast
    then have fresh: "arrays q = None"
      using pool_alloc_result [of U F p "bytes_of sizeof arrays" ?n] al False \<open>unat ?n + 7 < 2 ^ 31\<close>
      by (simp add: bytes_of_def)
    have f: "fits_at sizeof q (length vs)"
      by (rule array_fits [OF R2 nz _ len]) simp
    have own: "construct_all sizeof q vs st (slot sizeof q i) = Some (vs ! i)" if "i < length vs" for i
      using slot_inj [OF f] slots_apart [OF f] that by (intro construct_all_slot) auto
    have other: "construct_all sizeof q vs st (slot sizeof q' i) = Some (vs' ! i)"
      if "arrays q' = Some vs'" "i < length vs'" for q' vs' i
    proof -
      have "q' \<noteq> q"
        using that(1) fresh by auto
      then have "construct_all sizeof q vs st (slot sizeof q' i) = st (slot sizeof q' i)"
        using arrays_apart [OF R2 nz, of q' vs' q vs i] that L [OF that(1)] len by (intro construct_all_other) auto
      then show ?thesis
        using H that by (simp add: holds_arrays_def)
    qed
    have "holds_arrays sizeof ?A (construct_all sizeof q vs st)"
      unfolding holds_arrays_def
    proof (intro conjI allI impI)
      fix q' vs' i
      assume "?A q' = Some vs'" "i < length vs'"
      then show "construct_all sizeof q vs st (slot sizeof q' i) = Some (vs' ! i)"
        using own other by (auto split: if_splits)
    next
      fix a
      assume "construct_all sizeof q vs st a \<noteq> None"
      then show "\<exists>q' vs'. ?A q' = Some vs' \<and> in_array sizeof q' (length vs') a"
        using H fresh construct_all_some [of sizeof q vs st a]
        by (cases "in_array sizeof q (length vs) a") (auto simp: holds_arrays_def, metis option.distinct(1))
    qed
    then show ?thesis
      using False R2 L len st' by (auto simp: arrays_ok_def)
  qed
qed

lemma drop_array_ok:
  assumes J: "arrays_ok this b e sizeof p arrays st" and nz: "sizeof \<noteq> 0"
    and a: "arrays q = Some vs" and del: "delete_array sizeof q (length vs) p st = Inr (p', st')"
  shows "arrays_ok this b e sizeof p' (arrays(q := None)) st'"
proof -
  have fr: "pool_free q p = Inr p'" and st': "destroy_all sizeof q (length vs) st = Inr st'"
    using del by (auto simp: delete_array_def deallocate_def pool_allocator_def bind_res_Inr)
  have R: "pool_reachable this b e p (bytes_of sizeof arrays)" and H: "holds_arrays sizeof arrays st"
    and L: "\<And>q vs. arrays q = Some vs \<Longrightarrow> length vs * unat sizeof + 7 < 2 ^ 31"
    using J by (auto simp: arrays_ok_def)
  have "pool_reachable this b e p' ((bytes_of sizeof arrays)(q := None))"
    by (rule client_free [OF R _ fr]) (simp add: bytes_of_def a)
  moreover have "(bytes_of sizeof arrays)(q := None) = bytes_of sizeof (arrays(q := None))"
    by (auto simp: bytes_of_def fun_eq_iff)
  moreover have "holds_arrays sizeof (arrays(q := None)) st'"
    unfolding holds_arrays_def
  proof (intro conjI allI impI)
    fix q' vs' i
    assume q': "(arrays(q := None)) q' = Some vs'" "i < length vs'"
    then have l: "arrays q' = Some vs'" "q' \<noteq> q"
      by (auto split: if_splits)
    then have "\<not> in_array sizeof q (length vs) (slot sizeof q' i)"
      using arrays_apart(1) [OF R nz l(1) a l(2) L [OF l(1)] L [OF a] q'(2)] by (auto simp: in_array_def)
    then show "st' (slot sizeof q' i) = Some (vs' ! i)"
      using destroy_all_effect [OF st'] H l(1) q'(2) by (simp add: holds_arrays_def)
  next
    fix x
    assume "st' x \<noteq> None"
    then have x: "st x \<noteq> None" "\<not> in_array sizeof q (length vs) x"
      using destroy_all_effect [OF st', of x] by (auto split: if_splits)
    then obtain q' vs' where "arrays q' = Some vs'" "in_array sizeof q' (length vs') x"
      using H by (auto simp: holds_arrays_def)
    then show "\<exists>q' vs'. (arrays(q := None)) q' = Some vs' \<and> in_array sizeof q' (length vs') x"
      using x(2) a by (intro exI [of _ q'] exI [of _ vs']) auto
  qed
  ultimately show ?thesis
    using L by (auto simp: arrays_ok_def)
qed

lemma arrays_reachable_ok:
  assumes "arrays_reachable this b e sizeof p arrays st" "sizeof \<noteq> 0"
  shows "arrays_ok this b e sizeof p arrays st"
  using assms(1)
proof (induction rule: arrays_reachable.induct)
  case no_arrays
  then have "pool_reachable this b e (pool_new this b e) Map.empty"
    by (rule fresh_pool)
  then show ?case
    by (simp add: arrays_ok_def holds_arrays_def bytes_of_def [abs_def])
next
  case (make_array p arrays st vs q p' st')
  then show ?case
    by (intro make_array_ok [OF _ assms(2)])
next
  case (drop_array p arrays st q vs p' st')
  then show ?case
    by (intro drop_array_ok [OF _ assms(2)])
qed

text \<open>C9: containers that keep their arrays in a pool through the allocator do not disturb each other. Let the
  pool's area not start at null, the value type not have size 0, let every array have at most \<open>2 ^ 31 - 8\<close> bytes, and let no call have been
  undefined behaviour; then every object of an array a client holds has the value it was constructed
  with, although construction ends the life of whatever object's bytes it reuses; the only objects
  there are belong to arrays the client holds; and the bytes of each array lie in the pool's area, clear
  of the bytes of every other array and of every block header of the pool.\<close>

theorem pooled_arrays_keep_values:
  assumes "arrays_reachable this b e sizeof p arrays st" "sizeof \<noteq> 0"
  shows "(\<forall>q vs i. arrays q = Some vs \<longrightarrow> i < length vs \<longrightarrow> st (slot sizeof q i) = Some (vs ! i))
    \<and> (\<forall>a. st a \<noteq> None \<longrightarrow> (\<exists>q vs. arrays q = Some vs \<and> in_array sizeof q (length vs) a))
    \<and> (\<forall>q vs. arrays q = Some vs \<longrightarrow>
         unat (pool_beg p) + 32 \<le> unat q \<and> unat q + length vs * unat sizeof \<le> unat (pool_end p)
         \<and> (\<forall>q' vs'. arrays q' = Some vs' \<longrightarrow> q \<noteq> q' \<longrightarrow>
              unat q + length vs * unat sizeof \<le> unat q' \<or> unat q' + length vs' * unat sizeof \<le> unat q)
         \<and> (\<forall>h. headers p h \<noteq> None \<longrightarrow> unat h + 32 \<le> unat q \<or> unat q + length vs * unat sizeof \<le> unat h))"
proof -
  have J: "arrays_ok this b e sizeof p arrays st"
    by (rule arrays_reachable_ok [OF assms])
  then have R: "pool_reachable this b e p (bytes_of sizeof arrays)"
    by (simp add: arrays_ok_def)
  obtain U F where ok: "pool_ok U F p" and held: "held_by_client U p (bytes_of sizeof arrays)"
    using pool_reachable_ok [OF R] by blast
  have l: "bytes_of sizeof arrays q = Some (of_nat (length vs) * sizeof)"
      "unat (of_nat (length vs) * sizeof :: size_t) = length vs * unat sizeof" if "arrays q = Some vs" for q vs
    using that J unat_bytes [of vs sizeof] by (auto simp: bytes_of_def arrays_ok_def)
  have "unat (pool_beg p) + 32 \<le> unat q \<and> unat q + length vs * unat sizeof \<le> unat (pool_end p)
         \<and> (\<forall>h. headers p h \<noteq> None \<longrightarrow> unat h + 32 \<le> unat q \<or> unat q + length vs * unat sizeof \<le> unat h)"
    if "arrays q = Some vs" for q vs
    using live_block_bounds [OF ok held l(1) [OF that], unfolded l(2) [OF that]] by fastforce
  moreover have "unat q + length vs * unat sizeof \<le> unat q' \<or> unat q' + length vs' * unat sizeof \<le> unat q"
    if "arrays q = Some vs" "arrays q' = Some vs'" "q \<noteq> q'" for q vs q' vs'
    using live_blocks_apart(3) [OF ok held l(1) [OF that(1)] l(1) [OF that(2)] that(3), unfolded l(2) [OF that(1)] l(2) [OF that(2)]]
    by linarith
  ultimately show ?thesis
    using J by (simp add: arrays_ok_def holds_arrays_def)
qed

theorem pooled_arrays_keep_values_witness:
  "\<exists>p st. arrays_reachable 64 4096 12288 5 p [4128 \<mapsto> [True], 4184 \<mapsto> [False]] st
    \<and> st 4128 = Some True \<and> st 4184 = Some False"
proof -
  obtain p1 p2 where p: "pool_alloc 5 (pool_new 64 4096 12288) = Inr (4128, p1)" "pool_alloc 5 p1 = Inr (4184, p2)"
    using small_pool by metis
  have "arrays_reachable 64 4096 12288 5 (pool_new 64 4096 12288) Map.empty (Map.empty :: bool objects)"
    by (rule no_arrays) simp_all
  then have "arrays_reachable 64 4096 12288 5 p1 [4128 \<mapsto> [True]] (construct 5 4128 True Map.empty)"
    using make_array [of 64 4096 12288 5 "pool_new 64 4096 12288" Map.empty Map.empty "[True]" 4128 p1] p(1)
    by (simp add: new_array_def allocate_def pool_allocator_def)
  then have R: "arrays_reachable 64 4096 12288 5 p2 [4128 \<mapsto> [True], 4184 \<mapsto> [False]]
      (construct 5 4184 False (construct 5 4128 True Map.empty))"
    using make_array [of 64 4096 12288 5 p1 "[4128 \<mapsto> [True]]" "construct 5 4128 True Map.empty" "[False]" 4184 p2] p(2)
    by (simp add: new_array_def allocate_def pool_allocator_def)
  have n: "(5 :: size_t) \<noteq> 0"
    by simp
  note K = pooled_arrays_keep_values [OF R n, THEN conjunct1, rule_format]
  show ?thesis
    using R K [of 4128 "[True]" 0] K [of 4184 "[False]" 0] by auto
qed

end
