(* ===== verification/File_Descriptor.thy ===== *)
theory File_Descriptor
  imports Posix
begin

text \<open>
  \<^verbatim>\<open>src/file_descriptor.h\<close>: the owner of a file descriptor. The value of an object is its \<^verbatim>\<open>fd_\<close>, -1
  when it owns none. The members come first, then programs that work on several objects at once,
  with assignment between an object and itself.
\<close>

section \<open>Members\<close>

definition fd_default :: int where
  "fd_default = - 1"

definition fd_of_int :: "int \<Rightarrow> int" where
  "fd_of_int n = n"

definition fd_copy :: "os \<Rightarrow> int \<Rightarrow> trace \<Rightarrow> int \<times> trace" where
  "fd_copy os other tr =
     (if other = - 1 then (- 1, tr) else let (r, tr) = syscall os (Dup_fd other) tr in (rv r, tr))"

text \<open>Moves return the new value of the target and of the source.\<close>

definition fd_move :: "int \<Rightarrow> int \<times> int" where
  "fd_move other = (other, - 1)"

definition fd_destroy :: "os \<Rightarrow> int \<Rightarrow> trace \<Rightarrow> trace" where
  "fd_destroy os fd tr = (if 0 \<le> fd then snd (syscall os (Close fd) tr) else tr)"

definition fd_close :: "os \<Rightarrow> int \<Rightarrow> trace \<Rightarrow> int \<times> trace" where
  "fd_close os fd tr = (- 1, snd (syscall os (Close fd) tr))"

definition fd_release :: "int \<Rightarrow> int \<times> int" where
  "fd_release fd = (fd, - 1)"

definition fd_clone :: "os \<Rightarrow> int \<Rightarrow> trace \<Rightarrow> int \<times> trace" where
  "fd_clone os fd tr =
     (if fd = - 1 then (fd_default, tr)
      else let (r, tr) = syscall os (Dup_fd fd) tr in (fd_of_int (rv r), tr))"

definition o_nonblock :: int where
  "o_nonblock = 2048"

definition fd_set_nonblocking :: "os \<Rightarrow> int \<Rightarrow> trace \<Rightarrow> bool \<times> trace" where
  "fd_set_nonblocking os fd tr =
     (if fd < 0 then (False, tr)
      else let (ret, tr) = syscall os (Get_flags fd) tr in
        if rv ret < 0 then (False, tr)
        else let (r, tr) = syscall os (Set_flags fd (rv ret OR o_nonblock)) tr in (rv r = 0, tr))"

definition fd_valid :: "int \<Rightarrow> bool" where
  "fd_valid fd \<longleftrightarrow> fd \<noteq> - 1"

definition fd_less :: "int \<Rightarrow> int \<Rightarrow> bool" where
  "fd_less a b \<longleftrightarrow> a < b"

text \<open>Assignment to a different object.\<close>

definition fd_move_assign :: "os \<Rightarrow> int \<Rightarrow> int \<Rightarrow> trace \<Rightarrow> int \<times> int \<times> trace" where
  "fd_move_assign os this other tr =
     (let tr = (if 0 \<le> this then snd (syscall os (Close this) tr) else tr) in (other, - 1, tr))"

definition fd_copy_assign :: "os \<Rightarrow> int \<Rightarrow> int \<Rightarrow> trace \<Rightarrow> int \<times> trace" where
  "fd_copy_assign os this other tr =
     (let (tmp, tr) = fd_clone os other tr;
          (this, tmp, tr) = fd_move_assign os this tmp tr
      in (this, fd_destroy os tmp tr))"

section \<open>Programs over several objects\<close>

text \<open>
  Objects are slots of a list, \<open>None\<close> once destroyed; \<open>raw\<close> are the descriptors the program holds as
  plain integers. Using a destroyed object is undefined.
\<close>

record fd_world =
  objects :: "int option list"
  raw :: "int multiset"
  calls :: trace

datatype fd_op =
    Adopt int
  | Copy_new nat
  | Move_new nat
  | Destroy nat
  | Close_op nat
  | Release nat
  | Clone_new nat
  | Copy_to nat nat
  | Move_to nat nat
  | Nonblock nat

definition object :: "fd_world \<Rightarrow> nat \<Rightarrow> int res" where
  "object w x = (if x < length (objects w) then
     (case objects w ! x of None \<Rightarrow> Inl Undefined | Some v \<Rightarrow> Inr v) else Inl Undefined)"

definition set_object :: "nat \<Rightarrow> int option \<Rightarrow> fd_world \<Rightarrow> fd_world" where
  "set_object x v w = w\<lparr>objects := (objects w)[x := v]\<rparr>"

definition new_object :: "int \<Rightarrow> fd_world \<Rightarrow> fd_world" where
  "new_object v w = w\<lparr>objects := objects w @ [Some v]\<rparr>"

fun fd_exec :: "os \<Rightarrow> fd_world \<Rightarrow> fd_op \<Rightarrow> fd_world res" where
  "fd_exec os w (Adopt n) =
     (if 0 \<le> n \<and> n \<notin># raw w then Inl Undefined
      else Inr (new_object (fd_of_int n) (w\<lparr>raw := raw w - {#n#}\<rparr>)))"
| "fd_exec os w (Copy_new y) =
     bind_res (object w y) (\<lambda>v. let (fd, tr) = fd_copy os v (calls w)
       in Inr (new_object fd (w\<lparr>calls := tr\<rparr>)))"
| "fd_exec os w (Move_new y) =
     bind_res (object w y) (\<lambda>v. let (fd, v') = fd_move v in Inr (new_object fd (set_object y (Some v') w)))"
| "fd_exec os w (Destroy x) =
     bind_res (object w x) (\<lambda>v. Inr (set_object x None (w\<lparr>calls := fd_destroy os v (calls w)\<rparr>)))"
| "fd_exec os w (Close_op x) =
     bind_res (object w x) (\<lambda>v. let (v', tr) = fd_close os v (calls w)
       in Inr (set_object x (Some v') (w\<lparr>calls := tr\<rparr>)))"
| "fd_exec os w (Release x) =
     bind_res (object w x) (\<lambda>v. let (fd, v') = fd_release v
       in Inr (set_object x (Some v') (w\<lparr>raw := (if 0 \<le> fd then add_mset fd (raw w) else raw w)\<rparr>)))"
| "fd_exec os w (Clone_new y) =
     bind_res (object w y) (\<lambda>v. let (fd, tr) = fd_clone os v (calls w)
       in Inr (new_object fd (w\<lparr>calls := tr\<rparr>)))"
| "fd_exec os w (Copy_to x y) =
     bind_res (object w x) (\<lambda>this. bind_res (object w y) (\<lambda>other.
       if x = y then Inr w
       else let (this', tr) = fd_copy_assign os this other (calls w)
            in Inr (set_object x (Some this') (w\<lparr>calls := tr\<rparr>))))"
| "fd_exec os w (Move_to x y) =
     bind_res (object w x) (\<lambda>this. bind_res (object w y) (\<lambda>other.
       if x = y then Inr w
       else let (this', other', tr) = fd_move_assign os this other (calls w)
            in Inr (set_object x (Some this') (set_object y (Some other') (w\<lparr>calls := tr\<rparr>)))))"
| "fd_exec os w (Nonblock x) =
     bind_res (object w x) (\<lambda>v. Inr (w\<lparr>calls := snd (fd_set_nonblocking os v (calls w))\<rparr>))"

section \<open>Ownership\<close>

definition owned1 :: "int option \<Rightarrow> int multiset" where
  "owned1 v = (case v of None \<Rightarrow> {#} | Some fd \<Rightarrow> if 0 \<le> fd then {#fd#} else {#})"

definition owned :: "int option list \<Rightarrow> int multiset" where
  "owned vs = sum_list (map owned1 vs)"

lemma owned_append [simp]: "owned (vs @ [v]) = owned vs + owned1 v"
  by (simp add: owned_def)

lemma owned_update: "x < length vs \<Longrightarrow> owned (vs[x := v]) + owned1 (vs ! x) = owned vs + owned1 v"
proof (induction vs arbitrary: x)
  case (Cons u us)
  then show ?case
    by (cases x) (auto simp: owned_def algebra_simps)
qed simp

lemma owned_member: "x < length vs \<Longrightarrow> owned1 (vs ! x) \<subseteq># owned vs"
proof (induction vs arbitrary: x)
  case (Cons u us)
  then show ?case
    by (cases x) (auto simp: owned_def intro: subset_mset.order_trans [OF Cons.IH])
qed simp

lemma owned1_simps [simp]:
  "owned1 None = {#}" "0 \<le> fd \<Longrightarrow> owned1 (Some fd) = {#fd#}" "fd < 0 \<Longrightarrow> owned1 (Some fd) = {#}"
  by (simp_all add: owned1_def)

text \<open>The descriptors open are exactly those of the objects and the plain ones, and nothing was closed
  that was not open.\<close>

definition fd_ok :: "fd_world \<Rightarrow> bool" where
  "fd_ok w \<longleftrightarrow> held (calls w) = owned (objects w) + raw w \<and> closes_ok (calls w)"

lemma object_Inr: "object w x = Inr v \<longleftrightarrow> x < length (objects w) \<and> objects w ! x = Some v"
  by (auto simp: object_def split: option.splits)

lemma owned_replace:
  assumes "object w x = Inr v"
  shows "owned ((objects w)[x := u]) = owned (objects w) - owned1 (Some v) + owned1 u"
    "owned1 (Some v) \<subseteq># owned (objects w)"
proof -
  have "owned ((objects w)[x := u]) + owned1 (Some v) = owned (objects w) + owned1 u"
    using owned_update [of x "objects w" u] assms by (simp add: object_Inr)
  moreover show "owned1 (Some v) \<subseteq># owned (objects w)"
    using owned_member [of x "objects w"] assms by (auto simp: object_Inr)
  ultimately show "owned ((objects w)[x := u]) = owned (objects w) - owned1 (Some v) + owned1 u"
    by (metis add_diff_cancel_right' subset_mset.add_diff_assoc2)
qed

text \<open>Closing an open descriptor, or no descriptor at all.\<close>

lemma held_close: "held (snd (syscall os (Close fd) tr)) = held tr - {#fd#}"
  by (simp add: syscall_eq held_snoc)

lemma closes_ok_close:
  "closes_ok tr \<Longrightarrow> owned1 (Some fd) \<subseteq># held tr \<Longrightarrow> closes_ok (snd (syscall os (Close fd) tr))"
  by (auto simp: syscall_eq closes_ok_snoc)

lemma diff_negative: "fd < 0 \<Longrightarrow> held tr - {#fd#} = held tr"
  by (metis diff_single_trivial held_nonneg not_less)

lemma held_minus_owned1: "held tr - {#fd#} = held tr - owned1 (Some fd)"
  by (cases "0 \<le> fd") (simp_all add: diff_negative)

lemma held_dup: "held (snd (syscall os (Dup_fd fd) tr)) = held tr + owned1 (Some (rv (fst (syscall os (Dup_fd fd) tr))))"
  by (simp add: syscall_eq held_snoc owned1_def)

lemma closes_ok_dup: "closes_ok (snd (syscall os (Dup_fd fd) tr)) = closes_ok tr"
  by (simp add: syscall_eq closes_ok_snoc)

lemma fd_copy_held:
  "fd_copy os v tr = (fd, tr') \<Longrightarrow> held tr' = held tr + owned1 (Some fd) \<and> closes_ok tr' = closes_ok tr"
  by (auto simp: fd_copy_def syscall_eq held_snoc closes_ok_snoc owned1_def Let_def split: if_splits)

lemma fd_clone_held:
  "fd_clone os v tr = (fd, tr') \<Longrightarrow> held tr' = held tr + owned1 (Some fd) \<and> closes_ok tr' = closes_ok tr"
  by (auto simp: fd_clone_def fd_default_def fd_of_int_def syscall_eq held_snoc closes_ok_snoc owned1_def Let_def
      split: if_splits)

lemma fd_destroy_held:
  assumes "closes_ok tr" "owned1 (Some v) \<subseteq># held tr"
  shows "held (fd_destroy os v tr) = held tr - owned1 (Some v) \<and> closes_ok (fd_destroy os v tr)"
  using assms by (cases "0 \<le> v") (simp_all add: fd_destroy_def held_close closes_ok_close)

lemma held_destroy: "held (fd_destroy os v tr) = held tr - owned1 (Some v)"
  by (cases "0 \<le> v") (simp_all add: fd_destroy_def held_close)

lemma fd_nonblock_held:
  "held (snd (fd_set_nonblocking os v tr)) = held tr"
  "closes_ok (snd (fd_set_nonblocking os v tr)) = closes_ok tr"
  by (auto simp: fd_set_nonblocking_def dest!: syscall_held split: prod.splits)


lemma fd_move_assign_held:
  assumes "fd_move_assign os this other tr = (this', other', tr')" "closes_ok tr" "owned1 (Some this) \<subseteq># held tr"
  shows "this' = other" "other' = - 1" "held tr' = held tr - owned1 (Some this)" "closes_ok tr'"
  using assms fd_destroy_held [of tr this os] by (auto simp: fd_move_assign_def fd_destroy_def)

lemma fd_copy_assign_held:
  assumes "fd_copy_assign os this other tr = (this', tr')" "closes_ok tr" "owned1 (Some this) \<subseteq># held tr"
  shows "held tr' = held tr - owned1 (Some this) + owned1 (Some this')" "closes_ok tr'"
proof -
  obtain c tr1 where c: "fd_clone os other tr = (c, tr1)"
    by fastforce
  obtain a b tr2 where m: "fd_move_assign os this c tr1 = (a, b, tr2)"
    by (cases "fd_move_assign os this c tr1")
  have h1: "held tr1 = held tr + owned1 (Some c)" "closes_ok tr1"
    using fd_clone_held [OF c] assms(2) by simp_all
  then have sub: "owned1 (Some this) \<subseteq># held tr1"
    using assms(3) by (simp add: subset_mset.add_increasing2)
  note mv = fd_move_assign_held [OF m h1(2) sub]
  have "this' = a" "tr' = tr2"
    using assms(1) c m mv(2) by (auto simp: fd_copy_assign_def fd_destroy_def)
  then show "held tr' = held tr - owned1 (Some this) + owned1 (Some this')" "closes_ok tr'"
    using mv h1(1) assms(3) by simp_all
qed

lemma owned_pop:
  assumes "object w x = Inr v" "held tr = owned (objects w) + m"
  shows "owned1 (Some v) \<subseteq># held tr"
  using owned_replace(2) [OF assms(1)] assms(2) by (simp add: subset_mset.add_increasing2)

lemma owned_without:
  assumes "object w x = Inr v"
  shows "owned (objects w) + m - owned1 (Some v) = owned ((objects w)[x := None]) + m"
  using owned_replace(1) [OF assms, of None] subset_mset.add_diff_assoc2 [OF owned_replace(2) [OF assms], of m]
  by simp

lemma owned_set:
  assumes "object w x = Inr v"
  shows "owned ((objects w)[x := u]) = owned ((objects w)[x := None]) + owned1 u"
  using owned_replace(1) [OF assms, of u] owned_replace(1) [OF assms, of None] by simp

lemma fd_exec_ok:
  assumes "fd_ok w" "fd_exec os w e = Inr w'"
  shows "fd_ok w'"
proof -
  have h: "held (calls w) = owned (objects w) + raw w" and cl: "closes_ok (calls w)"
    using assms(1) by (simp_all add: fd_ok_def)
  show ?thesis
  proof (cases e)
    case (Adopt n)
    then have w': "w' = new_object n (w\<lparr>raw := raw w - {#n#}\<rparr>)" and n: "n < 0 \<or> n \<in># raw w"
      using assms(2) by (auto simp: fd_of_int_def split: if_splits)
    have r: "raw w - {#n#} + owned1 (Some n) = raw w"
    proof (cases "0 \<le> n")
      case True
      then show ?thesis
        using n by simp
    next
      case False
      then have "n \<notin># raw w"
        using h held_nonneg [of n "calls w"] by auto
      then show ?thesis
        using False by (simp add: diff_single_trivial)
    qed
    have "held (calls w) = owned (objects w) + owned1 (Some n) + (raw w - {#n#})"
      using h r by (metis add.assoc add.commute)
    then show ?thesis
      using cl by (simp add: w' fd_ok_def new_object_def)
  next
    case (Copy_new y)
    then obtain v where w': "w' = new_object (fst (fd_copy os v (calls w))) (w\<lparr>calls := snd (fd_copy os v (calls w))\<rparr>)"
      using assms(2) by (auto simp: bind_res_Inr split_beta Let_def)
    show ?thesis
      using fd_copy_held [of os v "calls w" "fst (fd_copy os v (calls w))" "snd (fd_copy os v (calls w))"] h cl
      by (simp add: w' fd_ok_def new_object_def)
  next
    case (Clone_new y)
    then obtain v where w': "w' = new_object (fst (fd_clone os v (calls w))) (w\<lparr>calls := snd (fd_clone os v (calls w))\<rparr>)"
      using assms(2) by (auto simp: bind_res_Inr split_beta Let_def)
    show ?thesis
      using fd_clone_held [of os v "calls w" "fst (fd_clone os v (calls w))" "snd (fd_clone os v (calls w))"] h cl
      by (simp add: w' fd_ok_def new_object_def)
  next
    case (Move_new y)
    then obtain v where v: "object w y = Inr v" and w': "w' = new_object v (set_object y (Some (- 1)) w)"
      using assms(2) by (auto simp: bind_res_Inr fd_move_def)
    show ?thesis
      using h cl owned_replace(1) [OF v, of "Some (- 1)"] subset_mset.diff_add [OF owned_replace(2) [OF v]]
      by (simp add: w' fd_ok_def new_object_def set_object_def)
  next
    case (Destroy x)
    then obtain v where v: "object w x = Inr v"
      and w': "w' = set_object x None (w\<lparr>calls := fd_destroy os v (calls w)\<rparr>)"
      using assms(2) by (auto simp: bind_res_Inr)
    show ?thesis
      using fd_destroy_held [OF cl owned_pop [OF v h], of os] h owned_without [OF v]
      by (simp add: w' fd_ok_def set_object_def)
  next
    case (Close_op x)
    then obtain v where v: "object w x = Inr v"
      and w': "w' = set_object x (Some (- 1)) (w\<lparr>calls := snd (syscall os (Close v) (calls w))\<rparr>)"
      using assms(2) by (auto simp: bind_res_Inr fd_close_def)
    have "held (snd (syscall os (Close v) (calls w))) = held (calls w) - owned1 (Some v)"
      unfolding held_close by (rule held_minus_owned1)
    then show ?thesis
      using closes_ok_close [OF cl owned_pop [OF v h], of os] h owned_without [OF v] owned_set [OF v, of "Some (- 1)"]
      by (simp add: w' fd_ok_def set_object_def)
  next
    case (Release x)
    then obtain v where v: "object w x = Inr v"
      and w': "w' = set_object x (Some (- 1)) (w\<lparr>raw := (if 0 \<le> v then add_mset v (raw w) else raw w)\<rparr>)"
      using assms(2) by (auto simp: bind_res_Inr fd_release_def)
    show ?thesis
      using h cl owned_replace(1) [OF v, of "Some (- 1)"] owned_replace(2) [OF v]
      by (cases "0 \<le> v") (auto simp: w' fd_ok_def set_object_def)
  next
    case (Copy_to x y)
    then obtain this other where o: "object w x = Inr this" "object w y = Inr other"
      using assms(2) by (auto simp: bind_res_Inr)
    obtain this' tr where c: "fd_copy_assign os this other (calls w) = (this', tr)"
      by fastforce
    show ?thesis
      using Copy_to assms o c h cl fd_copy_assign_held [OF c cl owned_pop [OF o(1) h]]
        owned_without [OF o(1)] owned_set [OF o(1), of "Some this'"]
      by (auto simp: fd_ok_def set_object_def add.assoc add.commute split: if_splits)
  next
    case (Move_to x y)
    then obtain this other where o: "object w x = Inr this" "object w y = Inr other"
      using assms(2) by (auto simp: bind_res_Inr)
    obtain this' other' tr where c: "fd_move_assign os this other (calls w) = (this', other', tr)"
      by (cases "fd_move_assign os this other (calls w)")
    show ?thesis
    proof (cases "x = y")
      case True
      then show ?thesis
        using Move_to assms o by simp
    next
      case False
      let ?w = "set_object y (Some (- 1)) (w\<lparr>calls := tr\<rparr>)"
      have w': "w' = set_object x (Some other) ?w"
        using Move_to False assms(2) o c fd_move_assign_held [OF c cl owned_pop [OF o(1) h]] by simp
      have ox: "object ?w x = Inr this"
        using o(1) False by (simp add: object_Inr set_object_def)
      have "owned ((objects w)[y := Some (- 1)]) + owned1 (Some other) = owned (objects w)"
        using owned_update [of y "objects w" "Some (- 1)"] o(2) by (simp add: object_Inr)
      moreover have "owned ((objects w)[y := Some (- 1), x := Some other]) + owned1 (Some this)
          = owned ((objects w)[y := Some (- 1)]) + owned1 (Some other)"
        using owned_update [of x "(objects w)[y := Some (- 1)]" "Some other"] o(1) False
        by (simp add: object_Inr)
      moreover have "held tr + owned1 (Some this) = owned (objects w) + raw w"
        using fd_move_assign_held(3) [OF c cl owned_pop [OF o(1) h]] h
          subset_mset.diff_add [OF owned_pop [OF o(1) h]] by simp
      ultimately have "held tr + owned1 (Some this)
          = owned ((objects w)[y := Some (- 1), x := Some other]) + raw w + owned1 (Some this)"
        by (metis add.assoc add.commute)
      then have "held tr = owned ((objects w)[y := Some (- 1), x := Some other]) + raw w"
        by (rule add_right_imp_eq)
      then show ?thesis
        using fd_move_assign_held(4) [OF c cl owned_pop [OF o(1) h]]
        by (simp add: w' fd_ok_def set_object_def)
    qed
  next
    case (Nonblock x)
    then show ?thesis
      using assms(2) h cl by (auto simp: bind_res_Inr fd_ok_def fd_nonblock_held)
  qed
qed

interpretation fdo: checked_steps "fd_exec os" fd_ok for os
  by unfold_locales (rule fd_exec_ok)

text \<open>C15: whatever program of constructions, moves, copies, assignments (to itself too), releases, closes
  and destructions runs, and whatever the kernel answers, at every point the descriptors open are
  exactly those owned by the objects and those held as plain integers, each by one owner, and no
  descriptor is ever closed that is not open: there is no leak and no double close.\<close>

theorem file_descriptor_ownership:
  assumes "fd_ok w" "run_res (fd_exec os) w es = Inr w'"
  shows "held (calls w') = owned (objects w') + raw w' \<and> closes_ok (calls w')"
  using fdo.run_keeps [OF assms] by (simp add: fd_ok_def)

definition kernel_42 :: os where
  "kernel_42 tr c = \<lparr>rv = 42, err = 0, ptr = 0, bytes = [], evs = [], ino = 0\<rparr>"

definition one_socket :: fd_world where
  "one_socket = \<lparr>objects = [], raw = {#7#}, calls = [(Socket_new True, kernel_42 [] Epoll_create\<lparr>rv := 7\<rparr>)]\<rparr>"

text \<open>Descriptor 7 is adopted, duplicated as 42, closed by the first object and 42 is released.\<close>

theorem file_descriptor_ownership_witness:
  "\<exists>w. run_res (fd_exec kernel_42) one_socket [Adopt 7, Copy_new 0, Destroy 0, Release 1] = Inr w
    \<and> raw w = {#42#} \<and> held (calls w) = {#42#} \<and> closes_ok (calls w)"
proof -
  have ok: "fd_ok one_socket"
    by (simp add: fd_ok_def owned_def one_socket_def held_def closes_ok_def)
  have "\<exists>w. run_res (fd_exec kernel_42) one_socket [Adopt 7, Copy_new 0, Destroy 0, Release 1] = Inr w
      \<and> objects w = [None, Some (- 1)] \<and> raw w = {#42#}"
    by (simp add: one_socket_def new_object_def set_object_def object_def fd_destroy_def fd_of_int_def
        fd_copy_def fd_release_def syscall_eq kernel_42_def)
  then obtain w where w: "run_res (fd_exec kernel_42) one_socket [Adopt 7, Copy_new 0, Destroy 0, Release 1] = Inr w"
      "objects w = [None, Some (- 1)]" "raw w = {#42#}"
    by blast
  then show ?thesis
    using file_descriptor_ownership [OF ok w(1)] by (auto simp: owned_def)
qed

end
