(* ===== verification/Tcp_Server.thy ===== *)
theory Tcp_Server
  imports File_Descriptor Utility
begin

text \<open>
  \<^verbatim>\<open>src/tcp_server.{h,cpp}\<close>: opening a listening socket and accepting connections. The local object
  \<^verbatim>\<open>sock\<close> of each function is destroyed on every path out of it. \<^verbatim>\<open>on_accept\<close> is virtual: it is a
  parameter that says whether the handler keeps the connection or leaves it to be closed.
\<close>

section \<open>Listening\<close>

definition htonl :: "u32 \<Rightarrow> u32" where
  "htonl w = reverse_byte_order32 w"

definition htons :: "16 word \<Rightarrow> 16 word" where
  "htons w = push_bit 8 w OR drop_bit 8 w"

text \<open>The common end of both functions: bind, listen, give the descriptor away.\<close>

definition bind_and_listen :: "os \<Rightarrow> int \<Rightarrow> sock_addr \<Rightarrow> trace \<Rightarrow> int \<times> trace" where
  "bind_and_listen os sock addr tr =
     (let (b, tr) = syscall os (Bind sock addr) tr in
      if rv b \<noteq> 0 then (- 1, fd_destroy os sock tr)
      else let (l, tr) = syscall os (Listen sock 1024) tr in
        if rv l \<noteq> 0 then (- 1, fd_destroy os sock tr)
        else let (r, sock) = fd_release sock in (r, fd_destroy os sock tr))"

definition listen_ip :: "os \<Rightarrow> u32 \<Rightarrow> 16 word \<Rightarrow> trace \<Rightarrow> int \<times> trace" where
  "listen_ip os ip port tr =
     (let (s, tr) = syscall os (Socket_new False) tr; sock = fd_of_int (rv s) in
      if \<not> fd_valid sock then (- 1, fd_destroy os sock tr)
      else let (ok, tr) = fd_set_nonblocking os sock tr in
        if \<not> ok then (- 1, fd_destroy os sock tr)
        else bind_and_listen os sock (Inet_addr (htonl ip) (htons port)) tr)"

text \<open>\<^verbatim>\<open>sun_path\<close> has 108 bytes, the terminator included, and is filled with \<^verbatim>\<open>strcpy\<close>.\<close>

definition sun_path_size :: nat where
  "sun_path_size = 108"

definition listen_unix :: "os \<Rightarrow> cstring \<Rightarrow> trace \<Rightarrow> (int \<times> trace) res" where
  "listen_unix os unix_path tr =
     (let (s, tr) = syscall os (Socket_new True) tr; sock = fd_of_int (rv s) in
      if \<not> fd_valid sock then Inr (- 1, fd_destroy os sock tr)
      else let (ok, tr) = fd_set_nonblocking os sock tr in
        if \<not> ok then Inr (- 1, fd_destroy os sock tr)
        else let (u, tr) = syscall os (Unlink unix_path) tr in
          if rv u \<noteq> 0 \<and> err u \<noteq> enoent then Inr (- 1, fd_destroy os sock tr)
          else if sun_path_size \<le> length unix_path then Inl Undefined
          else Inr (bind_and_listen os sock (Unix_addr unix_path) tr))"

section \<open>Accepting\<close>

partial_function (option) server_on_read ::
    "os \<Rightarrow> (int \<Rightarrow> u8 list \<Rightarrow> bool) \<Rightarrow> int \<Rightarrow> (int \<times> u8 list) list \<Rightarrow> trace \<Rightarrow>
     ((int \<times> u8 list) list \<times> trace \<times> fault option) option" where
  "server_on_read os keeps fd acc tr =
     (let (r, tr) = syscall os (Accept fd) tr; sock = fd_of_int (rv r) in
      if fd_valid sock then
        server_on_read os keeps fd (acc @ [(sock, bytes r)])
          (if keeps sock (bytes r) then tr else fd_destroy os sock tr)
      else if err r = eagain then Some (acc, tr, None)
      else Some (acc, tr, Some (System_error (err r))))"

declare server_on_read.simps [code]

section \<open>No descriptor is lost\<close>

definition own :: "int \<Rightarrow> int multiset" where
  "own fd = owned1 (Some fd)"

lemma own_neg [simp]: "own (- 1) = {#}"
  by (simp add: own_def)

lemma own_destroy:
  "held tr' = held tr + own fd \<Longrightarrow> closes_ok tr' \<Longrightarrow>
    held (fd_destroy os fd tr') = held tr \<and> closes_ok (fd_destroy os fd tr')"
  using fd_destroy_held [of tr' fd os] by (simp add: own_def)

lemma own_syscall:
  assumes "syscall os c tr = (r, tr')" "old_fd c = {#}"
  shows "held tr' = held tr + new_fd c (rv r)" "closes_ok tr' \<longleftrightarrow> closes_ok tr"
proof -
  have "c \<noteq> Close fd" for fd
    using assms(2) by auto
  then show "held tr' = held tr + new_fd c (rv r)" "closes_ok tr' \<longleftrightarrow> closes_ok tr"
    using syscall_held [OF assms(1)] assms(2) by auto
qed

lemma bind_and_listen_held:
  assumes "bind_and_listen os sock addr tr' = (r, tr'')" "held tr' = held tr + own sock" "closes_ok tr'"
  shows "held tr'' = held tr + own r \<and> closes_ok tr''"
proof -
  obtain b tr1 where b: "syscall os (Bind sock addr) tr' = (b, tr1)"
    by fastforce
  obtain l tr2 where l: "syscall os (Listen sock 1024) tr1 = (l, tr2)"
    by fastforce
  have h1: "held tr1 = held tr + own sock" "closes_ok tr1"
    using own_syscall [OF b] assms(2,3) by simp_all
  have h2: "held tr2 = held tr + own sock" "closes_ok tr2"
    using own_syscall [OF l] h1 by simp_all
  show ?thesis
    using assms(1) b l own_destroy [OF h1, of os] own_destroy [OF h2, of os] h2
    by (auto simp: bind_and_listen_def fd_release_def fd_destroy_def [of os "- 1"] split: if_splits)
qed

lemma nonblock_keeps:
  assumes "fd_set_nonblocking os fd tr' = (ok, tr'')" "held tr' = held tr + own fd" "closes_ok tr'"
  shows "held tr'' = held tr + own fd" "closes_ok tr''"
  using fd_nonblock_held [of os fd tr'] assms by simp_all

lemma socket_own:
  assumes "syscall os (Socket_new u) tr = (s, tr')" "closes_ok tr"
  shows "held tr' = held tr + own (rv s)" "closes_ok tr'"
  using own_syscall [OF assms(1)] assms(2) by (simp_all add: own_def owned1_def not_less)

text \<open>Whatever the kernel answers, \<open>listen\<close> on an address either returns -1 and has closed what it
  opened, or returns a descriptor, which is then the only one it opened; it never closes a
  descriptor that is not open.\<close>

theorem listen_ip_no_leak:
  assumes "closes_ok tr" "listen_ip os ip port tr = (r, tr')"
  shows "held tr' = held tr + (if r < 0 then {#} else {#r#}) \<and> closes_ok tr'"
proof -
  obtain s tr1 where s: "syscall os (Socket_new False) tr = (s, tr1)"
    by fastforce
  obtain ok tr2 where n: "fd_set_nonblocking os (rv s) tr1 = (ok, tr2)"
    by fastforce
  note h1 = socket_own [OF s assms(1)]
  note h2 = nonblock_keeps [OF n h1]
  have "held tr' = held tr + own r \<and> closes_ok tr'"
    using assms(2) s n own_destroy [OF h1, of os] own_destroy [OF h2, of os] bind_and_listen_held [OF _ h2]
    by (auto simp: listen_ip_def fd_of_int_def Let_def split: if_splits)
  then show ?thesis
    by (simp add: own_def owned1_def)
qed

lemma listen_unix_held:
  assumes "closes_ok tr"
  shows "(case listen_unix os path tr of
      Inl e \<Rightarrow> e = Undefined \<and> 108 \<le> length path
    | Inr (r, tr') \<Rightarrow> held tr' = held tr + own r \<and> closes_ok tr' \<and> (108 \<le> length path \<longrightarrow> r = - 1))"
proof -
  obtain s tr1 where s: "syscall os (Socket_new True) tr = (s, tr1)"
    by fastforce
  obtain ok tr2 where n: "fd_set_nonblocking os (rv s) tr1 = (ok, tr2)"
    by fastforce
  obtain u tr3 where u: "syscall os (Unlink path) tr2 = (u, tr3)"
    by fastforce
  obtain r4 tr4 where b: "bind_and_listen os (rv s) (Unix_addr path) tr3 = (r4, tr4)"
    by fastforce
  note h1 = socket_own [OF s assms]
  note h2 = nonblock_keeps [OF n h1]
  have h3: "held tr3 = held tr + own (rv s)" "closes_ok tr3"
    using own_syscall [OF u] h2 by simp_all
  have "listen_unix os path tr \<in> {Inr (- 1, fd_destroy os (rv s) tr1), Inr (- 1, fd_destroy os (rv s) tr2),
      Inr (- 1, fd_destroy os (rv s) tr3)} \<or>
    listen_unix os path tr = (if 108 \<le> length path then Inl Undefined else Inr (r4, tr4))"
    using s n u b by (auto simp: listen_unix_def fd_of_int_def sun_path_size_def Let_def)
  then show ?thesis
    using own_destroy [OF h1, of os] own_destroy [OF h2, of os] own_destroy [OF h3, of os]
      bind_and_listen_held [OF b h3]
    by (auto simp: own_def owned1_def not_less split: if_splits)
qed

lemma listen_unix_overruns:
  "listen_unix os path tr = Inl Undefined \<longleftrightarrow>
     108 \<le> length path
     \<and> rv (os tr (Socket_new True)) \<noteq> - 1
     \<and> (case fd_set_nonblocking os (rv (os tr (Socket_new True)))
            (tr @ [(Socket_new True, os tr (Socket_new True))]) of
          (ok, tr') \<Rightarrow> ok \<and> (rv (os tr' (Unlink path)) = 0 \<or> err (os tr' (Unlink path)) = enoent))"
  by (auto simp: listen_unix_def syscall_eq fd_of_int_def fd_valid_def sun_path_size_def Let_def split: prod.splits)

text \<open>C34: \<open>listen\<close> on a Unix socket overruns the address on the stack exactly if the path has 108 bytes or more,
  the socket could be made and made non-blocking, and the old file was removed or was not there. In
  every other case it either returns a negative number and has closed what it opened, or returns a
  descriptor, which is then the only one it opened; it never closes a descriptor that is not open. With
  a path of 108 bytes or more it returns, if at all, -1.\<close>

theorem listen_unix_no_leak:
  assumes "closes_ok tr"
  shows "(listen_unix os path tr = Inl Undefined \<longleftrightarrow>
      108 \<le> length path
      \<and> rv (os tr (Socket_new True)) \<noteq> - 1
      \<and> (case fd_set_nonblocking os (rv (os tr (Socket_new True)))
             (tr @ [(Socket_new True, os tr (Socket_new True))]) of
           (ok, tr') \<Rightarrow> ok \<and> (rv (os tr' (Unlink path)) = 0 \<or> err (os tr' (Unlink path)) = enoent)))
    \<and> (case listen_unix os path tr of
      Inl e \<Rightarrow> e = Undefined
    | Inr (r, tr') \<Rightarrow> held tr' = held tr + (if r < 0 then {#} else {#r#}) \<and> closes_ok tr'
        \<and> (108 \<le> length path \<longrightarrow> r = - 1))"
  using listen_unix_held [OF assms, of path os] listen_unix_overruns [of os path tr]
  by (cases "listen_unix os path tr") (auto simp: own_def owned1_def split: if_splits)

section \<open>What listening asks of the kernel\<close>

text \<open>When \<open>listen\<close> on an address succeeds, it has made exactly these calls, in this order: create the
  socket, read its flags, set them with \<^verbatim>\<open>O_NONBLOCK\<close> added, bind it to the address and port in
  network byte order, listen with a backlog of 1024.\<close>

theorem listen_ip_calls:
  assumes "listen_ip os ip port tr = (r, tr')" "0 \<le> r"
  shows "\<exists>flags. map fst tr' = map fst tr @ [Socket_new False, Get_flags r,
    Set_flags r (flags OR o_nonblock), Bind r (Inet_addr (htonl ip) (htons port)), Listen r 1024]"
  using assms
  by (auto simp: listen_ip_def bind_and_listen_def fd_set_nonblocking_def fd_release_def fd_destroy_def
      fd_of_int_def syscall_eq Let_def split: if_splits)


section \<open>The accept loop\<close>

definition accepts :: "trace \<Rightarrow> nat" where
  "accepts tr = length (filter (\<lambda>(c, r). case c of Accept _ \<Rightarrow> rv r \<noteq> - 1 | _ \<Rightarrow> False) tr)"

text \<open>The kernel hands out at most \<open>k\<close> connections over the life of the trace.\<close>

definition backlog_bound :: "os \<Rightarrow> int \<Rightarrow> nat \<Rightarrow> bool" where
  "backlog_bound os fd k \<longleftrightarrow> (\<forall>tr. k \<le> accepts tr \<longrightarrow> rv (os tr (Accept fd)) = - 1)"

definition kept :: "(int \<Rightarrow> u8 list \<Rightarrow> bool) \<Rightarrow> (int \<times> u8 list) list \<Rightarrow> int multiset" where
  "kept keeps conns = sum_list (map (\<lambda>(fd, addr). if keeps fd addr then own fd else {#}) conns)"

lemma accepts_snoc: "accepts (tr @ [(c, r)]) = accepts tr + (case c of Accept _ \<Rightarrow> if rv r \<noteq> - 1 then 1 else 0 | _ \<Rightarrow> 0)"
  by (auto simp: accepts_def split: call.splits)

lemma accepts_destroy: "accepts (fd_destroy os fd tr) = accepts tr"
  by (simp add: fd_destroy_def syscall_eq accepts_snoc)

lemma server_on_read_ok:
  assumes "backlog_bound os fd k" "closes_ok tr"
  shows "\<exists>new tr' e. server_on_read os keeps fd acc tr = Some (acc @ new, tr', e)
    \<and> held tr' = held tr + kept keeps new \<and> closes_ok tr' \<and> accepts tr' = accepts tr + length new
    \<and> (e = None \<or> (\<exists>n. n \<noteq> eagain \<and> e = Some (System_error n)))"
  using assms(2)
proof (induction "k - accepts tr" arbitrary: tr acc rule: less_induct)
  case less
  obtain r tr1 where a: "syscall os (Accept fd) tr = (r, tr1)"
    by fastforce
  have r: "r = os tr (Accept fd)" "tr1 = tr @ [(Accept fd, r)]"
    using a by (auto simp: syscall_eq)
  have h: "held tr1 = held tr + own (rv r)" "closes_ok tr1"
    using own_syscall [OF a] less.prems by (simp_all add: own_def owned1_def not_less)
  show ?case
  proof (cases "rv r = - 1")
    case True
    then show ?thesis
      using h a r(2) by (subst server_on_read.simps)
        (auto simp: fd_of_int_def fd_valid_def Let_def kept_def accepts_snoc intro!: exI [of _ "[]"])
  next
    case False
    define tr2 where "tr2 = (if keeps (rv r) (bytes r) then tr1 else fd_destroy os (rv r) tr1)"
    have lt: "accepts tr < k"
      using assms(1) False r(1) by (auto simp: backlog_bound_def not_le [symmetric])
    have n: "accepts tr2 = Suc (accepts tr)"
      using False by (simp add: tr2_def accepts_destroy r(2) accepts_snoc)
    have h2: "held tr2 = held tr + (if keeps (rv r) (bytes r) then own (rv r) else {#})" "closes_ok tr2"
      using h own_destroy [OF h, of os] by (auto simp: tr2_def)
    have "k - accepts tr2 < k - accepts tr"
      using n lt by simp
    from less.hyps [OF this h2(2), of "acc @ [(rv r, bytes r)]"]
    obtain new tr' e where ih: "server_on_read os keeps fd (acc @ [(rv r, bytes r)]) tr2
          = Some ((acc @ [(rv r, bytes r)]) @ new, tr', e)"
        "held tr' = held tr2 + kept keeps new" "closes_ok tr'" "accepts tr' = accepts tr2 + length new"
        "e = None \<or> (\<exists>n. n \<noteq> eagain \<and> e = Some (System_error n))"
      by blast
    have "server_on_read os keeps fd acc tr = server_on_read os keeps fd (acc @ [(rv r, bytes r)]) tr2"
      using False a unfolding server_on_read.simps [of os keeps fd acc tr] tr2_def
      by (simp add: fd_of_int_def fd_valid_def Let_def)
    then show ?thesis
      using ih h2 n by (intro exI [of _ "(rv r, bytes r) # new"] exI [of _ tr'] exI [of _ e])
        (auto simp: kept_def add.assoc)
  qed
qed

text \<open>The connections a trace shows accepted on a listening socket, with the peer addresses.\<close>

definition accepted_on :: "int \<Rightarrow> trace \<Rightarrow> (int \<times> u8 list) list" where
  "accepted_on fd tr =
     concat (map (\<lambda>(c, r). if c = Accept fd \<and> rv r \<noteq> - 1 then [(rv r, bytes r)] else []) tr)"

lemma accepted_on_snoc:
  "accepted_on fd (tr @ [(c, r)]) = accepted_on fd tr @ (if c = Accept fd \<and> rv r \<noteq> - 1 then [(rv r, bytes r)] else [])"
  by (simp add: accepted_on_def)

lemma accepted_on_destroy: "accepted_on fd (fd_destroy os x tr) = accepted_on fd tr"
  by (simp add: fd_destroy_def syscall_eq accepted_on_snoc)

text \<open>What the handler was called with, and the accept that ended the loop.\<close>

lemma server_on_read_events:
  assumes "server_on_read os keeps fd acc tr = Some (acc', tr', e)"
  shows "\<exists>new tr0 r. acc' = acc @ new \<and> accepted_on fd tr' = accepted_on fd tr @ new
    \<and> tr' = tr0 @ [(Accept fd, r)] \<and> rv r = - 1 \<and> e = (if err r = eagain then None else Some (System_error (err r)))"
proof -
  let ?P = "\<lambda>(os :: os) (keeps :: int \<Rightarrow> u8 list \<Rightarrow> bool) fd acc tr x.
    \<exists>new tr0 r. fst x = acc @ new \<and> accepted_on fd (fst (snd x)) = accepted_on fd tr @ new
      \<and> fst (snd x) = tr0 @ [(Accept fd, r)] \<and> rv r = - 1
      \<and> snd (snd x) = (if err r = eagain then None else Some (System_error (err r)))"
  have "?P os keeps fd acc tr (acc', tr', e)"
  proof (rule server_on_read.raw_induct [where P = ?P, OF _ assms])
    fix f :: "os \<Rightarrow> (int \<Rightarrow> u8 list \<Rightarrow> bool) \<Rightarrow> int \<Rightarrow> (int \<times> u8 list) list \<Rightarrow> trace \<Rightarrow>
      ((int \<times> u8 list) list \<times> trace \<times> fault option) option"
    fix os :: os and keeps :: "int \<Rightarrow> u8 list \<Rightarrow> bool" and fd acc tr and x :: "(int \<times> u8 list) list \<times> trace \<times> fault option"
    assume IH: "\<And>os keeps fd acc tr x. f os keeps fd acc tr = Some x \<Longrightarrow> ?P os keeps fd acc tr x"
      and body: "(let (r, tr) = syscall os (Accept fd) tr; sock = fd_of_int (rv r) in
        if fd_valid sock then
          f os keeps fd (acc @ [(sock, bytes r)]) (if keeps sock (bytes r) then tr else fd_destroy os sock tr)
        else if err r = eagain then Some (acc, tr, None)
        else Some (acc, tr, Some (System_error (err r)))) = Some x"
    let ?r = "os tr (Accept fd)"
    let ?tr1 = "tr @ [(Accept fd, ?r)]"
    let ?tr2 = "if keeps (rv ?r) (bytes ?r) then ?tr1 else fd_destroy os (rv ?r) ?tr1"
    show "?P os keeps fd acc tr x"
    proof (cases "rv ?r = - 1")
      case False
      then have "f os keeps fd (acc @ [(rv ?r, bytes ?r)]) ?tr2 = Some x"
        using body by (simp add: syscall_eq fd_of_int_def fd_valid_def Let_def)
      moreover have "accepted_on fd ?tr2 = accepted_on fd tr @ [(rv ?r, bytes ?r)]"
        using False by (simp add: accepted_on_snoc accepted_on_destroy)
      ultimately show ?thesis
        using IH [of os keeps fd "acc @ [(rv ?r, bytes ?r)]" ?tr2 x] by fastforce
    next
      case True
      then show ?thesis
        using body by (intro exI [of _ "[]"] exI [of _ tr] exI [of _ ?r])
          (auto simp: syscall_eq fd_of_int_def fd_valid_def accepted_on_snoc Let_def split: if_splits)
    qed
  qed
  then show ?thesis
    by simp
qed

text \<open>C21: if the kernel has finitely many connections to hand out, the accept loop ends; the connections
  accepted, with the addresses of their peers, are those the handler was called with, once each and
  in the order of the accepts; afterwards exactly the connections the handler kept are open beside
  what was open before, the others having been closed, and no descriptor that was not open was
  closed. The last call is an accept that failed: the loop ends normally if it failed with
  \<^verbatim>\<open>EAGAIN\<close>, and throws a system error with its error number if it failed otherwise.\<close>

theorem server_accept_loop:
  assumes "backlog_bound os fd k" "closes_ok tr"
  shows "\<exists>conns tr0 r e. server_on_read os keeps fd [] tr = Some (conns, tr0 @ [(Accept fd, r)], e)
    \<and> accepted_on fd (tr0 @ [(Accept fd, r)]) = accepted_on fd tr @ conns
    \<and> held (tr0 @ [(Accept fd, r)]) = held tr + kept keeps conns \<and> closes_ok (tr0 @ [(Accept fd, r)])
    \<and> rv r = - 1 \<and> e = (if err r = eagain then None else Some (System_error (err r)))"
proof -
  obtain conns tr' e where s: "server_on_read os keeps fd [] tr = Some (conns, tr', e)"
      "held tr' = held tr + kept keeps conns" "closes_ok tr'"
    using server_on_read_ok [OF assms, of keeps "[]"] by auto
  obtain tr0 r where "accepted_on fd tr' = accepted_on fd tr @ conns" "tr' = tr0 @ [(Accept fd, r)]" "rv r = - 1"
      "e = (if err r = eagain then None else Some (System_error (err r)))"
    using server_on_read_events [OF s(1)] by auto
  then show ?thesis
    using s by blast
qed

text \<open>A kernel with one connection, descriptor 9, to hand out.\<close>

definition one_connection :: os where
  "one_connection tr c =
     \<lparr>rv = (case c of Accept _ \<Rightarrow> if accepts tr = 0 then 9 else - 1 | Socket_new _ \<Rightarrow> 5 | _ \<Rightarrow> 0),
      err = eagain, ptr = 0, bytes = [], evs = [], ino = 0\<rparr>"

lemma one_connection_bound: "backlog_bound one_connection 5 1"
  by (simp add: backlog_bound_def one_connection_def)

theorem server_accept_loop_witness:
  "\<exists>conns tr r e. server_on_read one_connection (\<lambda>_ _. True) 5 [] [] = Some (conns, tr @ [(Accept 5, r)], e)
    \<and> accepted_on 5 (tr @ [(Accept 5, r)]) = conns
    \<and> held (tr @ [(Accept 5, r)]) = kept (\<lambda>_ _. True) conns \<and> e = (if err r = eagain then None else Some (System_error (err r)))"
proof -
  have "accepted_on 5 [] = []" "held [] = {#}"
    by (simp_all add: accepted_on_def)
  then show ?thesis
    using server_accept_loop [OF one_connection_bound closes_ok_Nil, of "\<lambda>_ _. True"]
    by (metis append_Nil add_0)
qed

lemma listen_demo:
  "\<exists>tr. listen_ip one_connection 0x7F000001 8080 [] = (5, tr)"
  by (simp add: listen_ip_def bind_and_listen_def fd_set_nonblocking_def fd_release_def fd_destroy_def
      fd_of_int_def fd_valid_def syscall_eq one_connection_def)

theorem listen_ip_no_leak_witness:
  "\<exists>tr. listen_ip one_connection 0x7F000001 8080 [] = (5, tr) \<and> held tr = {#5#}"
  using listen_demo listen_ip_no_leak [OF closes_ok_Nil, of one_connection "0x7F000001" 8080 5] by auto

theorem listen_ip_calls_witness:
  "\<exists>tr flags. listen_ip one_connection 0x7F000001 8080 [] = (5, tr)
    \<and> map fst tr = [Socket_new False, Get_flags 5, Set_flags 5 (flags OR o_nonblock),
        Bind 5 (Inet_addr 0x100007F 0x901F), Listen 5 1024]"
proof -
  have "htonl 0x7F000001 = 0x100007F" "htons 8080 = 0x901F"
    by code_simp+
  then show ?thesis
    using listen_demo listen_ip_calls [of one_connection "0x7F000001" 8080 "[]" 5] by auto
qed

theorem listen_unix_no_leak_witness:
  "listen_unix one_connection (replicate 108 47) [] = Inl Undefined"
  using listen_unix_no_leak [OF closes_ok_Nil, where os = one_connection and path = "replicate 108 47"]
  by (simp add: one_connection_def fd_set_nonblocking_def syscall_eq Let_def)

end
