(* ===== verification/Tcp_Connection.thy ===== *)
theory Tcp_Connection
  imports File_Descriptor Shm_Buffer
begin

text \<open>
  \<^verbatim>\<open>src/tcp_connection.{h,cpp}\<close>: a connection between a non-blocking socket and two byte rings.

  The handlers are virtual, so they are parameters: the read handler answers the bytes it is shown
  (and those it was shown before) with the number it consumed; the write handler answers the free
  space with the bytes it stored there and the number it reports. Three fields are history only:
  \<open>eaten\<close> and \<open>made\<close>, the bytes the handlers consumed and produced so far, and \<open>shown\<close>, what the read
  handler was shown. A null ring makes the assertion of the buffer functions fail.
\<close>

section \<open>State\<close>

record conn =
  conn_fd :: int
  rcb :: "(u64 \<times> ring_buffer) option"
  wcb :: "(u64 \<times> ring_buffer) option"
  conn_calls :: trace
  closed :: nat
  shown :: "u8 list list"
  eaten :: "u8 list"
  made :: "u8 list"

type_synonym read_handler = "u8 list list \<Rightarrow> u8 list \<Rightarrow> size_t"
type_synonym write_handler = "u8 list \<Rightarrow> size_t \<Rightarrow> u8 list \<times> size_t"

definition on_close :: "conn \<Rightarrow> conn" where
  "on_close s = s\<lparr>closed := closed s + 1\<rparr>"

section \<open>The handlers' side\<close>

definition consume :: "read_handler \<Rightarrow> conn \<Rightarrow> (size_t \<times> conn) res" where
  "consume h s =
     (case rcb s of
        None \<Rightarrow> Inl Assertion
      | Some (base, rb) \<Rightarrow>
          let view = rb_view base rb; n = h (shown s) view; s = s\<lparr>shown := shown s @ [view]\<rparr>
          in Inr (n, if n > 0 then s\<lparr>rcb := Some (base, rb_pop rb n), eaten := eaten s @ take (unat n) view\<rparr>
                     else s))"

definition push_bytes :: "u64 \<Rightarrow> ring_buffer \<Rightarrow> u8 list \<Rightarrow> size_t \<Rightarrow> ring_buffer" where
  "push_bytes base rb bs n =
     (let wbuf = circular_buffer_get_writable base (rb_hdr rb); rb = store_bytes base rb (piece_data wbuf) bs
      in rb\<lparr>rb_hdr := snd (circular_buffer_push_data (rb_hdr rb) n)\<rparr>)"

definition produce :: "write_handler \<Rightarrow> conn \<Rightarrow> (size_t \<times> conn) res" where
  "produce h s =
     (case wcb s of
        None \<Rightarrow> Inl Assertion
      | Some (base, rb) \<Rightarrow>
          let wbuf = circular_buffer_get_writable base (rb_hdr rb); (bs, n) = h (made s) (piece_size wbuf)
          in Inr (n, if n > 0
                     then s\<lparr>wcb := Some (base, push_bytes base rb bs n), made := made s @ take (unat n) bs\<rparr>
                     else s\<lparr>wcb := Some (base, store_bytes base rb (piece_data wbuf) bs)\<rparr>))"

section \<open>Socket events\<close>

partial_function (option) conn_on_read :: "os \<Rightarrow> read_handler \<Rightarrow> conn \<Rightarrow> conn res option" where
  "conn_on_read os h s =
     (case rcb s of
        None \<Rightarrow> Some (Inl Assertion)
      | Some (base, rb) \<Rightarrow>
          let wbuf = circular_buffer_get_writable base (rb_hdr rb) in
          if piece_size wbuf > 0 then
            let (r, tr) = syscall os (Recv (conn_fd s) (unat (piece_size wbuf))) (conn_calls s);
                s = s\<lparr>conn_calls := tr\<rparr>
            in if rv r > 0 then
                 conn_on_read os h (s\<lparr>rcb := Some (base, push_bytes base rb (bytes r) (of_int (rv r)))\<rparr>)
               else if rv r = 0 then Some (bind_res (consume h s) (\<lambda>(_, s). Inr (on_close s)))
               else if err r = eagain then Some (bind_res (consume h s) (\<lambda>(_, s). Inr s))
               else Some (Inr (on_close s))
          else (case consume h s of
                  Inl e \<Rightarrow> Some (Inl e)
                | Inr (n, s) \<Rightarrow> if n = 0 then Some (Inr (on_close s)) else conn_on_read os h s))"

declare conn_on_read.simps [code]

partial_function (option) conn_on_write :: "os \<Rightarrow> write_handler \<Rightarrow> conn \<Rightarrow> conn res option" where
  "conn_on_write os h s =
     (case wcb s of
        None \<Rightarrow> Some (Inl Assertion)
      | Some (base, rb) \<Rightarrow>
          let rbuf = circular_buffer_get_readable base (rb_hdr rb) in
          if piece_size rbuf > 0 then
            let (r, tr) = syscall os (Send (conn_fd s) (rb_view base rb)) (conn_calls s);
                s = s\<lparr>conn_calls := tr\<rparr>
            in if rv r > 0 then conn_on_write os h (s\<lparr>wcb := Some (base, rb_pop rb (of_int (rv r)))\<rparr>)
               else if rv r = 0 then Some (Inr (on_close s))
               else if err r = eagain then Some (Inr s)
               else Some (Inr (on_close s))
          else (case produce h s of
                  Inl e \<Rightarrow> Some (Inl e)
                | Inr (n, s) \<Rightarrow> if n = 0 then Some (Inr (on_close s)) else conn_on_write os h s))"

declare conn_on_write.simps [code]

section \<open>Construction and destruction\<close>

definition create_cb :: "os \<Rightarrow> u64 \<Rightarrow> size_t \<Rightarrow> trace \<Rightarrow> (u64 \<times> cb_header) option res \<times> trace" where
  "create_cb os page n tr =
     (if n = 0 then (Inr None, tr)
      else case circular_buffer_create os page None n 0 0 tr of
        (Inl e, tr) \<Rightarrow> (Inl e, tr)
      | (Inr None, tr) \<Rightarrow> (Inl Runtime_error, tr)
      | (Inr (Some b), tr) \<Rightarrow> (Inr (Some b), tr))"

definition cb_deleter :: "os \<Rightarrow> (u64 \<times> cb_header) option \<Rightarrow> trace \<Rightarrow> trace" where
  "cb_deleter os b tr = (case b of None \<Rightarrow> tr | Some b \<Rightarrow> circular_buffer_destroy os b tr)"

text \<open>The constructor takes the socket over; if a ring cannot be made, what was built is destroyed.\<close>

definition conn_construct ::
    "os \<Rightarrow> u64 \<Rightarrow> int \<Rightarrow> size_t \<Rightarrow> size_t \<Rightarrow> trace \<Rightarrow>
     ((u64 \<times> cb_header) option \<times> (u64 \<times> cb_header) option) res \<times> trace" where
  "conn_construct os page sock rsize wsize tr =
     (case create_cb os page rsize tr of
        (Inl e, tr) \<Rightarrow> (Inl e, if e = Runtime_error then fd_destroy os sock tr else tr)
      | (Inr r, tr) \<Rightarrow>
          (case create_cb os page wsize tr of
             (Inl e, tr) \<Rightarrow> (Inl e, if e = Runtime_error then fd_destroy os sock (cb_deleter os r tr) else tr)
           | (Inr w, tr) \<Rightarrow> (Inr (r, w), tr)))"

definition conn_destruct ::
    "os \<Rightarrow> int \<Rightarrow> (u64 \<times> cb_header) option \<Rightarrow> (u64 \<times> cb_header) option \<Rightarrow> trace \<Rightarrow> trace" where
  "conn_destruct os sock r w tr = fd_destroy os sock (cb_deleter os r (cb_deleter os w tr))"

section \<open>What the kernel promises\<close>

definition recv_ok :: "os \<Rightarrow> bool" where
  "recv_ok os \<longleftrightarrow> (\<forall>tr fd n. 0 < rv (os tr (Recv fd n)) \<longrightarrow>
     length (bytes (os tr (Recv fd n))) = nat (rv (os tr (Recv fd n))) \<and> nat (rv (os tr (Recv fd n))) \<le> n)"

definition send_ok :: "os \<Rightarrow> bool" where
  "send_ok os \<longleftrightarrow> (\<forall>tr fd bs. nat (rv (os tr (Send fd bs))) \<le> length bs)"

text \<open>The bytes the kernel delivered on, or took for, a descriptor.\<close>

definition got :: "int \<Rightarrow> call \<times> reply \<Rightarrow> u8 list" where
  "got fd e = (case fst e of Recv f _ \<Rightarrow> if f = fd \<and> rv (snd e) > 0 then bytes (snd e) else [] | _ \<Rightarrow> [])"

definition put :: "int \<Rightarrow> call \<times> reply \<Rightarrow> u8 list" where
  "put fd e = (case fst e of Send f bs \<Rightarrow> if f = fd then take (nat (rv (snd e))) bs else [] | _ \<Rightarrow> [])"

definition received :: "int \<Rightarrow> trace \<Rightarrow> u8 list" where
  "received fd tr = concat (map (got fd) tr)"

definition transmitted :: "int \<Rightarrow> trace \<Rightarrow> u8 list" where
  "transmitted fd tr = concat (map (put fd) tr)"

text \<open>The kernel delivers at most \<open>k\<close> bytes, or has room for at most \<open>k\<close>.\<close>

definition recv_bound :: "os \<Rightarrow> int \<Rightarrow> nat \<Rightarrow> bool" where
  "recv_bound os fd k \<longleftrightarrow> (\<forall>tr n. k \<le> length (received fd tr) \<longrightarrow> rv (os tr (Recv fd n)) \<le> 0)"

definition send_bound :: "os \<Rightarrow> int \<Rightarrow> nat \<Rightarrow> bool" where
  "send_bound os fd k \<longleftrightarrow> (\<forall>tr bs. k \<le> length (transmitted fd tr) \<longrightarrow> rv (os tr (Send fd bs)) \<le> 0)"

section \<open>No byte is lost\<close>

definition in_ok :: "conn \<Rightarrow> bool" where
  "in_ok s \<longleftrightarrow> (case rcb s of None \<Rightarrow> False
     | Some (base, rb) \<Rightarrow> ring_ok rb \<and> received (conn_fd s) (conn_calls s) = eaten s @ rb_stored rb)"

definition out_ok :: "conn \<Rightarrow> bool" where
  "out_ok s \<longleftrightarrow> (case wcb s of None \<Rightarrow> False
     | Some (base, rb) \<Rightarrow> ring_ok rb \<and> made s = transmitted (conn_fd s) (conn_calls s) @ rb_stored rb)"

lemma close_ok [simp]:
  "in_ok (on_close s) = in_ok s" "out_ok (on_close s) = out_ok s"
  by (simp_all add: in_ok_def out_ok_def on_close_def split: option.split)

lemma close_simps [simp]:
  "wcb (on_close s) = wcb s" "rcb (on_close s) = rcb s" "made (on_close s) = made s"
  "eaten (on_close s) = eaten s" "conn_fd (on_close s) = conn_fd s" "closed (on_close s) = closed s + 1"
  by (simp_all add: on_close_def)

lemma received_snoc: "received fd (tr @ [e]) = received fd tr @ got fd e"
  by (simp add: received_def)

lemma transmitted_snoc: "transmitted fd (tr @ [e]) = transmitted fd tr @ put fd e"
  by (simp add: transmitted_def)

lemma push_bytes_put: "n = of_nat (length bs) \<Longrightarrow> push_bytes base rb bs n = rb_put base rb bs"
  by (simp add: push_bytes_def rb_put_def)

lemma consume_in_ok:
  assumes "in_ok s"
  shows "\<exists>n s'. consume h s = Inr (n, s') \<and> in_ok s' \<and> wcb s' = wcb s \<and> made s' = made s
    \<and> conn_fd s' = conn_fd s \<and> conn_calls s' = conn_calls s \<and> closed s' = closed s"
proof -
  obtain base rb where rb: "rcb s = Some (base, rb)" "ring_ok rb"
      "received (conn_fd s) (conn_calls s) = eaten s @ rb_stored rb"
    using assms by (auto simp: in_ok_def split: option.splits)
  show ?thesis
    using rb cb.ok_pop [OF rb(2)] cb.stored_pop [OF rb(2)] cb.view_stored [OF rb(2)]
    by (auto simp: consume_def Let_def in_ok_def)
qed

text \<open>When the ring is full, consuming something makes it less full.\<close>

lemma consume_smaller:
  assumes "in_ok s" "rcb s = Some (base, rb)" "piece_size (circular_buffer_get_writable base (rb_hdr rb)) = 0"
    and "consume h s = Inr (n, s')" "n \<noteq> 0"
  shows "\<exists>rb'. rcb s' = Some (base, rb') \<and> length (rb_stored rb') < length (rb_stored rb)"
proof -
  have ok: "ring_ok rb"
    using assms(1,2) by (auto simp: in_ok_def)
  have "rb_room rb = 0"
    using assms(3) by (simp add: rb_room_def circular_buffer_get_writable_def)
  then have "length (rb_stored rb) = unat (capacity (rb_hdr rb))"
    using ok unat_writable_size [of "rb_hdr rb"] by (auto simp: rb_room_def ring_ok_def cb_ok_def word_le_nat_alt)
  then have "0 < length (rb_stored rb)"
    using ok pow2_pos [of "capacity (rb_hdr rb)"] by (simp add: ring_ok_def)
  moreover have "0 < unat n"
    using assms(5) by (simp add: unat_gt_0)
  ultimately have "length (drop (unat n) (rb_stored rb)) < length (rb_stored rb)"
    by simp
  moreover have "rcb s' = Some (base, rb_pop rb n)"
    using assms(2,4,5) by (auto simp: consume_def Let_def word_gt_0)
  ultimately show ?thesis
    using cb.stored_pop [OF ok, of n] by (simp del: length_rb_stored)
qed

lemma recv_in_ok:
  assumes "in_ok s" "recv_ok os" "rcb s = Some (base, rb)"
    and "syscall os (Recv (conn_fd s) (unat (piece_size (circular_buffer_get_writable base (rb_hdr rb))))) (conn_calls s) = (r, tr)"
  shows "rv r > 0 \<Longrightarrow> in_ok (s\<lparr>conn_calls := tr, rcb := Some (base, push_bytes base rb (bytes r) (of_int (rv r)))\<rparr>)
      \<and> length (received (conn_fd s) (conn_calls s)) < length (received (conn_fd s) tr)"
    and "\<not> rv r > 0 \<Longrightarrow> in_ok (s\<lparr>conn_calls := tr\<rparr>)"
proof -
  have ok: "ring_ok rb" "received (conn_fd s) (conn_calls s) = eaten s @ rb_stored rb"
    using assms(1,3) by (auto simp: in_ok_def)
  have r: "r = os (conn_calls s) (Recv (conn_fd s) (rb_room rb))" "tr = conn_calls s @ [(Recv (conn_fd s) (rb_room rb), r)]"
    using assms(4) by (auto simp: syscall_eq rb_room_def circular_buffer_get_writable_def)
  show "in_ok (s\<lparr>conn_calls := tr\<rparr>)" if "\<not> rv r > 0"
    using that ok assms(3) r(2) by (simp add: in_ok_def received_snoc got_def)
  assume pos: "rv r > 0"
  have len: "length (bytes r) = nat (rv r)" "length (bytes r) \<le> rb_room rb"
    using assms(2) pos r(1) by (auto simp: recv_ok_def)
  have "(of_int (rv r) :: size_t) = of_int (int (length (bytes r)))"
    using len(1) pos by simp
  then have "push_bytes base rb (bytes r) (of_int (rv r)) = rb_put base rb (bytes r)"
    by (intro push_bytes_put) simp
  moreover have "bytes r \<noteq> []"
    using len(1) pos by auto
  ultimately show "in_ok (s\<lparr>conn_calls := tr, rcb := Some (base, push_bytes base rb (bytes r) (of_int (rv r)))\<rparr>)
      \<and> length (received (conn_fd s) (conn_calls s)) < length (received (conn_fd s) tr)"
    using ok pos r(2) cb.ok_put [OF ok(1) len(2)] cb.stored_put [OF ok(1) len(2)]
    by (simp add: in_ok_def received_snoc got_def)
qed


lemma conn_on_read_ok:
  assumes "recv_ok os" "recv_bound os (conn_fd s) k" "in_ok s"
  shows "\<exists>s'. conn_on_read os h s = Some (Inr s') \<and> in_ok s' \<and> wcb s' = wcb s \<and> made s' = made s
    \<and> closed s' \<le> closed s + 1 \<and> conn_fd s' = conn_fd s"
  using assms(2,3)
proof (induction "(k - length (received (conn_fd s) (conn_calls s)), length (rb_stored (snd (the (rcb s)))))"
    arbitrary: s rule: wf_induct_rule [OF wf_lex_prod [OF wf_less wf_less]])
  case (1 s)
  then obtain base rb where rb: "rcb s = Some (base, rb)"
    by (auto simp: in_ok_def split: option.splits)
  let ?w = "circular_buffer_get_writable base (rb_hdr rb)"
  obtain cn cs where c: "consume h s = Inr (cn, cs)" "in_ok cs" "wcb cs = wcb s" "made cs = made s"
      "conn_fd cs = conn_fd s" "conn_calls cs = conn_calls s" "closed cs = closed s"
    using consume_in_ok [OF 1(3)] by blast
  show ?case
  proof (cases "piece_size ?w > 0")
    case False
    show ?thesis
    proof (cases "cn = 0")
      case True
      then show ?thesis
        using c rb False unfolding conn_on_read.simps [of os h s]
        by (simp add: Let_def)
    next
      case more: False
      have "piece_size ?w = 0"
        using False by (simp add: word_gt_0)
      from consume_smaller [OF 1(3) rb this c(1) more]
      have "length (rb_stored (snd (the (rcb cs)))) < length (rb_stored (snd (the (rcb s))))"
        using rb by auto
      then have "\<exists>s'. conn_on_read os h cs = Some (Inr s') \<and> in_ok s' \<and> wcb s' = wcb cs \<and> made s' = made cs
          \<and> closed s' \<le> closed cs + 1 \<and> conn_fd s' = conn_fd cs"
        using c 1(2) by (intro 1(1)) auto
      then show ?thesis
        using c rb False more unfolding conn_on_read.simps [of os h s] by (simp add: Let_def)
    qed
  next
    case room: True
    obtain r tr where r: "syscall os (Recv (conn_fd s) (unat (piece_size ?w))) (conn_calls s) = (r, tr)"
      by fastforce
    show ?thesis
    proof (cases "rv r > 0")
      case True
      let ?s = "s\<lparr>conn_calls := tr, rcb := Some (base, push_bytes base rb (bytes r) (of_int (rv r)))\<rparr>"
      have ok: "in_ok ?s" "length (received (conn_fd s) (conn_calls s)) < length (received (conn_fd s) tr)"
        using recv_in_ok(1) [OF 1(3) assms(1) rb r True] by simp_all
      have "r = os (conn_calls s) (Recv (conn_fd s) (unat (piece_size ?w)))"
        using r by (simp add: syscall_eq)
      then have "length (received (conn_fd s) (conn_calls s)) < k"
        using 1(2) True by (auto simp: recv_bound_def not_le [symmetric])
      then have "\<exists>s'. conn_on_read os h ?s = Some (Inr s') \<and> in_ok s' \<and> wcb s' = wcb ?s \<and> made s' = made ?s
          \<and> closed s' \<le> closed ?s + 1 \<and> conn_fd s' = conn_fd ?s"
        using ok 1(2) by (intro 1(1)) auto
      then show ?thesis
        using rb room r True unfolding conn_on_read.simps [of os h s] by (simp add: Let_def)
    next
      case False
      let ?s = "s\<lparr>conn_calls := tr\<rparr>"
      have ok: "in_ok ?s"
        using recv_in_ok(2) [OF 1(3) assms(1) rb r False] .
      obtain n s' where s': "consume h ?s = Inr (n, s')" "in_ok s'" "wcb s' = wcb s" "made s' = made s"
          "closed s' = closed s" "conn_fd s' = conn_fd s"
        using consume_in_ok [OF ok, of h] by auto
      have "conn_on_read os h s = Some (if rv r = 0 then bind_res (consume h ?s) (\<lambda>(_, s). Inr (on_close s))
          else if err r = eagain then bind_res (consume h ?s) (\<lambda>(_, s). Inr s) else Inr (on_close ?s))"
        using rb room r False unfolding conn_on_read.simps [of os h s] by (simp add: Let_def)
      then show ?thesis
        using s' ok by auto
    qed
  qed
qed

text \<open>C13: handling a readable socket, on a connection that has a read ring of a power-of-two capacity whose
  account holds at the start, under a kernel that delivers at most the bytes asked for and reports
  their number. If the kernel delivers finitely much on the descriptor, the handling returns; and then every byte the
  kernel delivered was either consumed by the handler or is still in the read ring, in the order of
  arrival, none lost, repeated or made up, whatever sizes the kernel and the handler choose and
  however often the ring fills up; the write side is not touched and the connection is reported
  closed at most once.\<close>

theorem conn_read_conserves:
  assumes "recv_ok os" "recv_bound os (conn_fd s) k" "in_ok s"
  shows "\<exists>s' base rb. conn_on_read os h s = Some (Inr s') \<and> rcb s' = Some (base, rb)
    \<and> received (conn_fd s') (conn_calls s') = eaten s' @ rb_stored rb
    \<and> wcb s' = wcb s \<and> closed s' \<le> closed s + 1"
proof -
  obtain s' where s': "conn_on_read os h s = Some (Inr s')" "in_ok s'" "wcb s' = wcb s" "closed s' \<le> closed s + 1"
    using conn_on_read_ok [OF assms] by blast
  then obtain base rb where "rcb s' = Some (base, rb)"
      "received (conn_fd s') (conn_calls s') = eaten s' @ rb_stored rb"
    by (auto simp: in_ok_def split: option.splits)
  then show ?thesis
    using s' by blast
qed

section \<open>The write side\<close>

text \<open>A write handler that stores no more than fits and reports what it stored.\<close>

definition writes_ok :: "write_handler \<Rightarrow> bool" where
  "writes_ok h \<longleftrightarrow> (\<forall>m sz. length (fst (h m sz)) \<le> unat sz \<and> snd (h m sz) = of_nat (length (fst (h m sz))))"

lemma produce_out_ok:
  assumes "out_ok s" "writes_ok h"
  shows "\<exists>n s'. produce h s = Inr (n, s') \<and> out_ok s' \<and> rcb s' = rcb s \<and> eaten s' = eaten s
    \<and> conn_fd s' = conn_fd s \<and> conn_calls s' = conn_calls s \<and> closed s' = closed s
    \<and> (n \<noteq> 0 \<longrightarrow> rb_stored (snd (the (wcb s'))) \<noteq> [])"
proof -
  obtain base rb where rb: "wcb s = Some (base, rb)" "ring_ok rb"
      "made s = transmitted (conn_fd s) (conn_calls s) @ rb_stored rb"
    using assms by (auto simp: out_ok_def split: option.splits)
  let ?w = "circular_buffer_get_writable base (rb_hdr rb)"
  obtain bs n where h: "h (made s) (piece_size ?w) = (bs, n)"
    by fastforce
  have sz: "length bs \<le> rb_room rb" "n = of_nat (length bs)"
    using assms(2) h by (auto simp: writes_ok_def rb_room_def circular_buffer_get_writable_def)
      (metis fst_conv snd_conv)+
  have n: "unat n = length bs"
    using of_nat_room(1) [OF sz(1)] sz(2) by simp
  show ?thesis
  proof (cases "n > 0")
    case True
    then have "bs \<noteq> []"
      using sz(2) by auto
    moreover have "produce h s = Inr (n, s\<lparr>wcb := Some (base, rb_put base rb bs), made := made s @ bs\<rparr>)"
      using rb h True n push_bytes_put [OF sz(2)] by (simp add: produce_def Let_def)
    ultimately show ?thesis
      using rb cb.ok_put [OF rb(2) sz(1)] cb.stored_put [OF rb(2) sz(1)] by (simp add: out_ok_def)
  next
    case False
    then have "n = 0" "bs = []"
      using n by (auto simp: word_gt_0)
    then have "produce h s = Inr (0, s)"
      using rb h by (simp add: produce_def Let_def store_bytes_def)
    then show ?thesis
      using assms(1) \<open>n = 0\<close> by simp
  qed
qed

lemma send_out_ok:
  assumes "out_ok s" "send_ok os" "wcb s = Some (base, rb)"
    and "syscall os (Send (conn_fd s) (rb_view base rb)) (conn_calls s) = (r, tr)"
  shows "rv r > 0 \<Longrightarrow> out_ok (s\<lparr>conn_calls := tr, wcb := Some (base, rb_pop rb (of_int (rv r)))\<rparr>)
      \<and> length (transmitted (conn_fd s) (conn_calls s)) < length (transmitted (conn_fd s) tr)"
    and "\<not> rv r > 0 \<Longrightarrow> out_ok (s\<lparr>conn_calls := tr\<rparr>)"
proof -
  have ok: "ring_ok rb" "made s = transmitted (conn_fd s) (conn_calls s) @ rb_stored rb"
    using assms(1,3) by (auto simp: out_ok_def)
  have v: "rb_view base rb = rb_stored rb"
    by (rule rb_view_stored [OF ok(1)])
  have r: "r = os (conn_calls s) (Send (conn_fd s) (rb_stored rb))" "tr = conn_calls s @ [(Send (conn_fd s) (rb_stored rb), r)]"
    using assms(4) by (auto simp: syscall_eq v)
  show "out_ok (s\<lparr>conn_calls := tr\<rparr>)" if "\<not> rv r > 0"
    using that ok assms(3) r(2) by (simp add: out_ok_def transmitted_snoc put_def)
  assume pos: "rv r > 0"
  have le: "nat (rv r) \<le> length (rb_stored rb)"
    unfolding r(1) using assms(2) unfolding send_ok_def by blast
  have un: "unat (of_int (rv r) :: size_t) = nat (rv r)"
  proof -
    have "(of_int (rv r) :: size_t) = of_nat (nat (rv r))"
      using pos by simp
    moreover have "nat (rv r) < 2 ^ 64"
      using le unat_less_2p64 [of "readable_size (rb_hdr rb)"] by simp
    ultimately show ?thesis
      by (simp only: unat_of_nat64 mod_less)
  qed
  show "out_ok (s\<lparr>conn_calls := tr, wcb := Some (base, rb_pop rb (of_int (rv r)))\<rparr>)
      \<and> length (transmitted (conn_fd s) (conn_calls s)) < length (transmitted (conn_fd s) tr)"
    using ok pos le r(2) cb.ok_pop [OF ok(1)] cb.stored_pop [OF ok(1)]
    by (auto simp: out_ok_def transmitted_snoc put_def un)
qed

lemma conn_on_write_ok:
  assumes "send_ok os" "writes_ok h" "send_bound os (conn_fd s) k" "out_ok s"
  shows "\<exists>s'. conn_on_write os h s = Some (Inr s') \<and> out_ok s' \<and> rcb s' = rcb s \<and> eaten s' = eaten s
    \<and> closed s' \<le> closed s + 1 \<and> conn_fd s' = conn_fd s"
  using assms(3,4)
proof (induction "(k - length (transmitted (conn_fd s) (conn_calls s)),
      if rb_stored (snd (the (wcb s))) = [] then 1 else 0 :: nat)"
    arbitrary: s rule: wf_induct_rule [OF wf_lex_prod [OF wf_less wf_less]])
  case (1 s)
  then obtain base rb where rb: "wcb s = Some (base, rb)" "ring_ok rb"
    by (auto simp: out_ok_def split: option.splits)
  let ?r = "circular_buffer_get_readable base (rb_hdr rb)"
  have ready: "piece_size ?r > 0 \<longleftrightarrow> rb_stored rb \<noteq> []"
    by (auto simp: circular_buffer_get_readable_def word_gt_0 unat_eq_0 simp flip: length_0_conv)
  show ?case
  proof (cases "piece_size ?r > 0")
    case False
    obtain n p where p: "produce h s = Inr (n, p)" "out_ok p" "rcb p = rcb s" "eaten p = eaten s"
        "conn_fd p = conn_fd s" "conn_calls p = conn_calls s" "closed p = closed s"
        "n \<noteq> 0 \<longrightarrow> rb_stored (snd (the (wcb p))) \<noteq> []"
      using produce_out_ok [OF 1(3) assms(2)] by blast
    show ?thesis
    proof (cases "n = 0")
      case True
      then show ?thesis
        using p rb False unfolding conn_on_write.simps [of os h s]
        by (simp add: Let_def)
    next
      case more: False
      have "\<exists>s'. conn_on_write os h p = Some (Inr s') \<and> out_ok s' \<and> rcb s' = rcb p \<and> eaten s' = eaten p
          \<and> closed s' \<le> closed p + 1 \<and> conn_fd s' = conn_fd p"
        using p 1(2) False ready rb more by (intro 1(1)) auto
      then show ?thesis
        using p rb False more unfolding conn_on_write.simps [of os h s] by (simp add: Let_def)
    qed
  next
    case ready: True
    obtain r tr where r: "syscall os (Send (conn_fd s) (rb_view base rb)) (conn_calls s) = (r, tr)"
      by fastforce
    show ?thesis
    proof (cases "rv r > 0")
      case True
      let ?s = "s\<lparr>conn_calls := tr, wcb := Some (base, rb_pop rb (of_int (rv r)))\<rparr>"
      have ok: "out_ok ?s" "length (transmitted (conn_fd s) (conn_calls s)) < length (transmitted (conn_fd s) tr)"
        using send_out_ok(1) [OF 1(3) assms(1) rb(1) r True] by simp_all
      have "r = os (conn_calls s) (Send (conn_fd s) (rb_view base rb))"
        using r by (simp add: syscall_eq)
      then have "length (transmitted (conn_fd s) (conn_calls s)) < k"
        using 1(2) True by (auto simp: send_bound_def not_le [symmetric])
      then have "\<exists>s'. conn_on_write os h ?s = Some (Inr s') \<and> out_ok s' \<and> rcb s' = rcb ?s \<and> eaten s' = eaten ?s
          \<and> closed s' \<le> closed ?s + 1 \<and> conn_fd s' = conn_fd ?s"
        using ok 1(2) by (intro 1(1)) auto
      then show ?thesis
        using rb ready r True unfolding conn_on_write.simps [of os h s] by (simp add: Let_def)
    next
      case False
      then have "out_ok (s\<lparr>conn_calls := tr\<rparr>)"
        using send_out_ok(2) [OF 1(3) assms(1) rb(1) r] by simp
      moreover have "conn_on_write os h s = Some (Inr (if rv r \<noteq> 0 \<and> err r = eagain then s\<lparr>conn_calls := tr\<rparr>
          else on_close (s\<lparr>conn_calls := tr\<rparr>)))"
        using rb ready r False unfolding conn_on_write.simps [of os h s] by (simp add: Let_def)
      ultimately show ?thesis
        by auto
    qed
  qed
qed

text \<open>C14: handling a writable socket, on a connection that has a write ring of a power-of-two capacity whose
  account holds at the start, under a kernel that takes at most the bytes offered and a write handler
  that stores at most the room it is given and reports exactly the bytes it stored. If the kernel takes
  finitely much on the descriptor, the handling returns; and then every byte the
  handler produced was either taken by the kernel or is still in the write ring, in order, under
  partial sends too; the read side is not touched and the connection is reported closed at most once.\<close>

theorem conn_write_conserves:
  assumes "send_ok os" "writes_ok h" "send_bound os (conn_fd s) k" "out_ok s"
  shows "\<exists>s' base rb. conn_on_write os h s = Some (Inr s') \<and> wcb s' = Some (base, rb)
    \<and> made s' = transmitted (conn_fd s') (conn_calls s') @ rb_stored rb
    \<and> rcb s' = rcb s \<and> closed s' \<le> closed s + 1"
proof -
  obtain s' where s': "conn_on_write os h s = Some (Inr s')" "out_ok s'" "rcb s' = rcb s" "closed s' \<le> closed s + 1"
    using conn_on_write_ok [OF assms] by blast
  then obtain base rb where "wcb s' = Some (base, rb)"
      "made s' = transmitted (conn_fd s') (conn_calls s') @ rb_stored rb"
    by (auto simp: out_ok_def split: option.splits)
  then show ?thesis
    using s' by blast
qed


section \<open>Construction owns the socket\<close>

lemma create_cb_held:
  assumes "create_cb os page n tr = (r, tr')" "\<exists>b. r = Inr b"
  shows "held tr' = held tr"
  using assms create_held [of os page None n 0 0 tr]
  by (auto simp: create_cb_def split: if_splits prod.splits sum.splits option.splits)

lemma create_cb_failed:
  assumes "create_cb os page n tr = (Inl Runtime_error, tr')"
  shows "held tr' = held tr"
proof -
  have "circular_buffer_create os page None n 0 0 tr = (Inr None, tr')"
    using assms circular_buffer_create_faults [of os page None n 0 0 tr]
    by (auto simp: create_cb_def split: if_splits prod.splits sum.splits option.splits)
  then show ?thesis
    by (rule create_held)
qed


lemma cb_deleter_held: "held (cb_deleter os b tr) = held tr"
  by (auto simp: cb_deleter_def circular_buffer_destroy_def syscall_eq held_append Let_def split: option.splits)

text \<open>C35: constructing a connection opens no descriptor for good; if a ring cannot be made the exception
  leaves the socket closed; destroying a connection closes its socket and nothing else.\<close>

theorem conn_owns_socket:
  "(case conn_construct os page sock rsize wsize tr of
      (Inr _, tr') \<Rightarrow> held tr' = held tr
        \<and> held (conn_destruct os sock r w tr') = held tr - owned1 (Some sock)
    | (Inl e, tr') \<Rightarrow> e = Runtime_error \<longrightarrow> held tr' = held tr - owned1 (Some sock))"
proof -
  obtain r1 tr1 where c1: "create_cb os page rsize tr = (r1, tr1)"
    by fastforce
  obtain r2 tr2 where c2: "create_cb os page wsize tr1 = (r2, tr2)"
    by fastforce
  have h1: "\<exists>b. r1 = Inr b \<Longrightarrow> held tr1 = held tr" "r1 = Inl Runtime_error \<Longrightarrow> held tr1 = held tr"
    using create_cb_held [OF c1] create_cb_failed [of os page rsize tr tr1] c1 by auto
  have h2: "\<exists>b. r2 = Inr b \<Longrightarrow> held tr2 = held tr1" "r2 = Inl Runtime_error \<Longrightarrow> held tr2 = held tr1"
    using create_cb_held [OF c2] create_cb_failed [of os page wsize tr1 tr2] c2 by auto
  show ?thesis
    using c1 c2 h1 h2
    by (auto simp: conn_construct_def conn_destruct_def held_destroy cb_deleter_held split: sum.splits)
qed

theorem conn_owns_socket_witness:
  "\<exists>tr. conn_construct kernel_42 4096 7 0 0 [] = (Inr (None, None), tr)
    \<and> held (conn_destruct kernel_42 7 None None tr) = {#}"
proof -
  have "conn_construct kernel_42 4096 7 0 0 [] = (Inr (None, None), [])"
    by (simp add: conn_construct_def create_cb_def)
  then show ?thesis
    using conn_owns_socket [where os = kernel_42 and page = 4096 and sock = 7 and rsize = 0 and wsize = 0
        and tr = "[]" and r = None and w = None] by simp
qed

section \<open>A connection that works\<close>

text \<open>A kernel that delivers three bytes and takes two, then would block.\<close>

definition three_bytes :: os where
  "three_bytes tr c =
     (case c of
        Recv fd n \<Rightarrow>
          if received fd tr = [] \<and> 3 \<le> n then \<lparr>rv = 3, err = 0, ptr = 0, bytes = [1, 2, 3], evs = [], ino = 0\<rparr>
          else \<lparr>rv = - 1, err = eagain, ptr = 0, bytes = [], evs = [], ino = 0\<rparr>
      | Send fd bs \<Rightarrow>
          if transmitted fd tr = [] \<and> 2 \<le> length bs then \<lparr>rv = 2, err = 0, ptr = 0, bytes = [], evs = [], ino = 0\<rparr>
          else \<lparr>rv = - 1, err = eagain, ptr = 0, bytes = [], evs = [], ino = 0\<rparr>
      | _ \<Rightarrow> \<lparr>rv = 0, err = 0, ptr = 0, bytes = [], evs = [], ino = 0\<rparr>)"

definition new_conn :: conn where
  "new_conn = \<lparr>conn_fd = 7, rcb = Some (0, small_ring), wcb = Some (8192, small_ring), conn_calls = [],
     closed = 0, shown = [], eaten = [], made = []\<rparr>"

lemma three_bytes_kernel:
  "recv_ok three_bytes" "send_ok three_bytes" "recv_bound three_bytes fd 1" "send_bound three_bytes fd 1"
  by (auto simp: recv_ok_def send_ok_def recv_bound_def send_bound_def three_bytes_def)

lemma new_conn_ok: "in_ok new_conn" "out_ok new_conn"
  by (simp_all add: in_ok_def out_ok_def new_conn_def small_ring_ok received_def transmitted_def
      rb_stored_def small_ring_def readable_size_def del: length_rb_stored)
    (use small_ring_ok in \<open>simp_all add: small_ring_def\<close>)

theorem conn_read_conserves_witness:
  "\<exists>s base rb. conn_on_read three_bytes (\<lambda>_ view. of_nat (length view)) new_conn = Some (Inr s)
    \<and> rcb s = Some (base, rb) \<and> received (conn_fd s) (conn_calls s) = eaten s @ rb_stored rb"
  using conn_read_conserves [OF three_bytes_kernel(1,3) new_conn_ok(1)] by blast

theorem conn_write_conserves_witness:
  "\<exists>s base rb. conn_on_write three_bytes (\<lambda>m sz. if m = [] \<and> 2 \<le> sz then ([5, 6], 2) else ([], 0)) new_conn
      = Some (Inr s)
    \<and> wcb s = Some (base, rb) \<and> made s = transmitted (conn_fd s) (conn_calls s) @ rb_stored rb"
proof -
  have "writes_ok (\<lambda>m sz. if m = [] \<and> 2 \<le> sz then ([5, 6], 2) else ([], 0))"
    by (auto simp: writes_ok_def word_le_nat_alt)
  then show ?thesis
    using conn_write_conserves [OF three_bytes_kernel(2) _ three_bytes_kernel(4) new_conn_ok(2)] by blast
qed

end
