(* ===== verification/Event_Dispatch.thy ===== *)
theory Event_Dispatch
  imports File_Descriptor
begin

text \<open>
  \<^verbatim>\<open>src/event_dispatch.{h,cpp}\<close>: the event loop over an epoll descriptor, with loop listeners, I/O
  listeners and a priority queue of timeouts. Listeners are objects of the user, known by their
  address; calling one is recorded as a \<open>callback\<close>. Whether a timeout listener asks to be called
  again is a parameter of its address and the time.
\<close>

section \<open>Callbacks, listeners and epoll\<close>

datatype callback = On_loop u64 | On_read u64 | On_write u64 | On_timeout u64

datatype event = Ev_read | Ev_write | Ev_read_write

definition epollin :: u32 where "epollin = 1"
definition epollout :: u32 where "epollout = 4"
definition epollet :: u32 where "epollet = 2 ^ 31"

fun event_mask :: "event \<Rightarrow> u32" where
  "event_mask Ev_read = epollin"
| "event_mask Ev_write = epollout"
| "event_mask Ev_read_write = epollin OR epollout"

definition dispatch_new :: "os \<Rightarrow> trace \<Rightarrow> int res \<times> trace" where
  "dispatch_new os tr =
     (let (r, tr) = syscall os Epoll_create tr; fd = fd_of_int (rv r)
      in if \<not> fd_valid fd then (Inl (System_error (err r)), tr) else (Inr fd, tr))"

definition register_io_listener :: "os \<Rightarrow> int \<Rightarrow> int \<Rightarrow> u64 \<Rightarrow> event \<Rightarrow> trace \<Rightarrow> unit res \<times> trace" where
  "register_io_listener os epfd fd listener ev tr =
     (let (r, tr) = syscall os (Epoll_add epfd fd (event_mask ev OR epollet) listener) tr
      in if rv r \<noteq> 0 then (Inl (System_error (err r)), tr) else (Inr (), tr))"

definition unregister_io_listener :: "os \<Rightarrow> int \<Rightarrow> int \<Rightarrow> trace \<Rightarrow> unit res \<times> trace" where
  "unregister_io_listener os epfd fd tr =
     (let (r, tr) = syscall os (Epoll_del epfd fd) tr
      in if rv r \<noteq> 0 then (Inl (System_error (err r)), tr) else (Inr (), tr))"

definition register_loop_listener :: "u64 \<Rightarrow> u64 list \<Rightarrow> u64 list" where
  "register_loop_listener l ls = (if l \<notin> set ls then ls @ [l] else ls)"

definition unregister_loop_listener :: "u64 \<Rightarrow> u64 list \<Rightarrow> u64 list" where
  "unregister_loop_listener l ls = (if l \<in> set ls then remove1 l ls else ls)"

definition on_loop :: "u64 list \<Rightarrow> callback list" where
  "on_loop ls = map On_loop ls"

section \<open>Timeouts\<close>

record timer =
  t_listener :: u64
  t_deadline :: time_point
  t_interval :: time_point

definition timer_new :: "u64 \<Rightarrow> time_point \<Rightarrow> time_point \<Rightarrow> timer res" where
  "timer_new l now interval =
     bind_res (time_add now interval) (\<lambda>d. Inr \<lparr>t_listener = l, t_deadline = d, t_interval = interval\<rparr>)"

text \<open>The operations of \<^verbatim>\<open>std::priority_queue\<close> the code uses, and a queue that has them: a list by
  deadline, a new timer after those with the same deadline.\<close>

record 'q timer_ops =
  tq_is_empty :: "'q \<Rightarrow> bool"
  tq_top :: "'q \<Rightarrow> timer"
  tq_emplace :: "timer \<Rightarrow> 'q \<Rightarrow> 'q"
  tq_pop :: "'q \<Rightarrow> 'q"

fun timer_insert :: "timer \<Rightarrow> timer list \<Rightarrow> timer list" where
  "timer_insert t [] = [t]"
| "timer_insert t (x # xs) =
     (if sint (t_deadline t) < sint (t_deadline x) then t # x # xs else x # timer_insert t xs)"

definition timer_list :: "timer list timer_ops" where
  "timer_list = \<lparr>tq_is_empty = (\<lambda>q. q = []), tq_top = hd, tq_emplace = timer_insert, tq_pop = tl\<rparr>"

definition register_timeout_listener ::
    "'q timer_ops \<Rightarrow> u64 \<Rightarrow> time_point \<Rightarrow> time_point \<Rightarrow> 'q \<Rightarrow> 'q res" where
  "register_timeout_listener Q l now interval q =
     bind_res (timer_new l now interval) (\<lambda>t. Inr (tq_emplace Q t q))"

partial_function (option) dispatch_timeout ::
    "'q timer_ops \<Rightarrow> (u64 \<Rightarrow> time_point \<Rightarrow> bool) \<Rightarrow> time_point \<Rightarrow> u64 list \<Rightarrow> 'q \<Rightarrow> (u64 list \<times> 'q) res option" where
  "dispatch_timeout Q again now fired q =
     (if tq_is_empty Q q then Some (Inr (fired, q))
      else let wrapper = tq_top Q q in
        if sint now < sint (t_deadline wrapper) then Some (Inr (fired, q))
        else if again (t_listener wrapper) now then
          (case timer_new (t_listener wrapper) now (t_interval wrapper) of
             Inl e \<Rightarrow> Some (Inl e)
           | Inr t \<Rightarrow> dispatch_timeout Q again now (fired @ [t_listener wrapper]) (tq_pop Q (tq_emplace Q t q)))
        else dispatch_timeout Q again now (fired @ [t_listener wrapper]) (tq_pop Q q))"

declare dispatch_timeout.simps [code]

section \<open>One round of the loop\<close>

record 'q dispatcher =
  epoll_fd :: int
  loop_listeners :: "u64 list"
  timeouts :: 'q

definition io_callbacks :: "u64 \<times> u32 \<Rightarrow> callback list" where
  "io_callbacks ev = (case ev of (listener, events) \<Rightarrow>
     (if events AND epollin \<noteq> 0 then [On_read listener] else [])
     @ (if events AND epollout \<noteq> 0 then [On_write listener] else []))"

definition max_events :: nat where
  "max_events = 64"

definition run_once ::
    "os \<Rightarrow> 'q timer_ops \<Rightarrow> (u64 \<Rightarrow> time_point \<Rightarrow> bool) \<Rightarrow> (trace \<Rightarrow> time_point) \<Rightarrow> int \<Rightarrow> 'q dispatcher \<Rightarrow> trace \<Rightarrow>
     (callback list \<times> 'q dispatcher) res option \<times> trace" where
  "run_once os Q again clock timeout d tr =
     (let cs = on_loop (loop_listeners d);
          (r, tr) = syscall os (Epoll_wait (epoll_fd d) max_events timeout) tr
      in if rv r < 0 then
           (if err r = eintr then (Some (Inr (cs, d)), tr) else (Some (Inl (System_error (err r))), tr))
         else if rv r = 0 then
           (map_option (\<lambda>x. bind_res x (\<lambda>(fired, q). Inr (cs @ map On_timeout fired, d\<lparr>timeouts := q\<rparr>)))
              (dispatch_timeout Q again (clock tr) [] (timeouts d)), tr)
         else if nat (rv r) \<le> length (evs r) then
           (Some (Inr (cs @ concat (map io_callbacks (take (nat (rv r)) (evs r))), d)), tr)
         else (Some (Inl Undefined), tr))"

text \<open>The loop: nothing ever clears \<^verbatim>\<open>running_\<close>, so it ends by an exception or not at all.\<close>

partial_function (option) run_loop ::
    "os \<Rightarrow> 'q timer_ops \<Rightarrow> (u64 \<Rightarrow> time_point \<Rightarrow> bool) \<Rightarrow> (trace \<Rightarrow> time_point) \<Rightarrow> int \<Rightarrow> 'q dispatcher \<Rightarrow> trace \<Rightarrow>
     (fault \<times> trace) option" where
  "run_loop os Q again clock timeout d tr =
     (case run_once os Q again clock timeout d tr of
        (None, _) \<Rightarrow> None
      | (Some (Inl e), tr) \<Rightarrow> Some (e, tr)
      | (Some (Inr (_, d)), tr) \<Rightarrow> run_loop os Q again clock timeout d tr)"

declare run_loop.simps [code]

section \<open>Loop listeners\<close>

lemma register_distinct: "distinct ls \<Longrightarrow> distinct (register_loop_listener l ls)"
  by (simp add: register_loop_listener_def)

text \<open>A loop listener registered any number of times is called once per round, in the order of
  first registration, and not at all after it was unregistered.\<close>

theorem loop_listener_once:
  assumes "distinct ls"
  shows "distinct (on_loop (register_loop_listener l ls))
    \<and> on_loop (register_loop_listener l (register_loop_listener l ls)) = on_loop (register_loop_listener l ls)
    \<and> take (length ls) (register_loop_listener l ls) = ls
    \<and> On_loop l \<in> set (on_loop (register_loop_listener l ls))
    \<and> On_loop l \<notin> set (on_loop (unregister_loop_listener l ls))
    \<and> (l \<notin> set ls \<longrightarrow> unregister_loop_listener l (register_loop_listener l ls) = ls)"
  using assms
  by (auto simp: on_loop_def register_loop_listener_def unregister_loop_listener_def distinct_map
      inj_on_def remove1_append)

theorem loop_listener_once_witness:
  "on_loop (register_loop_listener 3 (register_loop_listener 3 [1, 2])) = [On_loop 1, On_loop 2, On_loop 3]"
proof -
  have "distinct [1, 2 :: u64]"
    by simp
  from loop_listener_once [OF this, of 3] show ?thesis
    by (simp add: on_loop_def register_loop_listener_def)
qed

section \<open>Timers that fire\<close>

definition due :: "time_point \<Rightarrow> timer \<Rightarrow> bool" where
  "due now t \<longleftrightarrow> sint (t_deadline t) \<le> sint now"

text \<open>The rearmed timer.\<close>

definition rearm :: "time_point \<Rightarrow> timer \<Rightarrow> timer" where
  "rearm now t = t\<lparr>t_deadline := now + t_interval t\<rparr>"

definition armed :: "time_point \<Rightarrow> timer \<Rightarrow> bool" where
  "armed now t \<longleftrightarrow> 0 < sint (t_interval t) \<and> sint now + sint (t_interval t) < 2 ^ 63"

lemma timer_new_armed:
  assumes "armed now t"
  shows "timer_new (t_listener t) now (t_interval t) = Inr (rearm now t)"
    "sint now < sint (t_deadline (rearm now t))" "armed now (rearm now t)"
proof -
  have "- (2 ^ 63) \<le> sint now"
    using sint_greater_eq [of now] by simp
  then have a: "time_add now (t_interval t) = Inr (now + t_interval t)"
    using assms by (simp add: time_add_def armed_def)
  then show "timer_new (t_listener t) now (t_interval t) = Inr (rearm now t)"
    by (simp add: timer_new_def rearm_def)
  show "sint now < sint (t_deadline (rearm now t))"
    using time_add_sint [OF a] assms by (simp add: rearm_def armed_def)
  show "armed now (rearm now t)"
    using assms by (simp add: rearm_def armed_def)
qed

section \<open>The queue interface\<close>

text \<open>What the timeout loop relies on: a valid queue shows the multiset of its timers, its top has the
  least deadline, popping removes it, and a timer with a later deadline does not displace it.\<close>

locale timer_queue =
  fixes Q :: "'q timer_ops"
    and valid :: "'q \<Rightarrow> bool"
    and timers :: "'q \<Rightarrow> timer multiset"
  assumes empty_iff: "valid q \<Longrightarrow> tq_is_empty Q q \<longleftrightarrow> timers q = {#}"
    and top_in: "valid q \<Longrightarrow> timers q \<noteq> {#} \<Longrightarrow> tq_top Q q \<in># timers q"
    and top_least: "valid q \<Longrightarrow> t \<in># timers q \<Longrightarrow> sint (t_deadline (tq_top Q q)) \<le> sint (t_deadline t)"
    and valid_emplace: "valid q \<Longrightarrow> valid (tq_emplace Q t q)"
    and timers_emplace: "valid q \<Longrightarrow> timers (tq_emplace Q t q) = add_mset t (timers q)"
    and valid_pop: "valid q \<Longrightarrow> timers q \<noteq> {#} \<Longrightarrow> valid (tq_pop Q q)"
    and timers_pop: "valid q \<Longrightarrow> timers q \<noteq> {#} \<Longrightarrow> timers (tq_pop Q q) = timers q - {#tq_top Q q#}"
    and top_stays: "valid q \<Longrightarrow> timers q \<noteq> {#} \<Longrightarrow>
      sint (t_deadline (tq_top Q q)) < sint (t_deadline t) \<Longrightarrow> tq_top Q (tq_emplace Q t q) = tq_top Q q"
begin

text \<open>Firing everything that is due: in deadline order, once each, rearming those that ask for it.\<close>

lemma dispatch_fires:
  assumes "valid q" "\<forall>t \<in># timers q. armed now t"
  shows "\<exists>ws q'. dispatch_timeout Q again now fired q = Some (Inr (fired @ map t_listener ws, q'))
    \<and> mset ws = filter_mset (due now) (timers q) \<and> sorted (map (\<lambda>t. sint (t_deadline t)) ws) \<and> valid q'
    \<and> timers q' = filter_mset (\<lambda>t. \<not> due now t) (timers q)
        + image_mset (rearm now) (filter_mset (\<lambda>t. due now t \<and> again (t_listener t) now) (timers q))"
  using assms
proof (induction "size (filter_mset (due now) (timers q))" arbitrary: q fired rule: less_induct)
  case less
  let ?w = "tq_top Q q"
  show ?case
  proof (cases "timers q = {#} \<or> \<not> due now ?w")
    case True
    have none: "filter_mset (due now) (timers q) = {#}"
      using True top_least [OF less.prems(1)] by (force simp: due_def)
    then have "filter_mset (\<lambda>t. \<not> due now t) (timers q) = timers q"
      "filter_mset (\<lambda>t. due now t \<and> again (t_listener t) now) (timers q) = {#}"
      by (auto simp: filter_mset_eq_conv)
    moreover have "dispatch_timeout Q again now fired q = Some (Inr (fired, q))"
      using True empty_iff [OF less.prems(1)] unfolding dispatch_timeout.simps [of Q again now fired q]
      by (auto simp: due_def Let_def)
    ultimately show ?thesis
      using none less.prems(1) by (intro exI [of _ "[]"] exI [of _ q]) simp
  next
    case False
    then have ne: "timers q \<noteq> {#}" and w: "due now ?w"
      by simp_all
    have wq: "?w \<in># timers q"
      by (rule top_in [OF less.prems(1) ne])
    then have wa: "armed now ?w"
      using less.prems(2) by blast
    note wn = timer_new_armed [OF wa]
    define q2 where "q2 = (if again (t_listener ?w) now then tq_pop Q (tq_emplace Q (rearm now ?w) q) else tq_pop Q q)"
    define again1 where "again1 = (if again (t_listener ?w) now then {#rearm now ?w#} else {#})"
    have later: "sint (t_deadline ?w) < sint (t_deadline (rearm now ?w))"
      using w wn(2) by (simp add: due_def)
    have v2: "valid q2" and t2: "timers q2 = timers q - {#?w#} + again1"
      using less.prems(1) ne wq valid_emplace [OF less.prems(1)] timers_emplace [OF less.prems(1)]
        valid_pop timers_pop top_stays [OF less.prems(1) ne later]
      by (auto simp: q2_def again1_def)
    have nd: "\<not> due now (rearm now ?w)"
      using wn(2) by (simp add: due_def)
    have split: "timers q = add_mset ?w (timers q - {#?w#})"
      using wq by simp
    have due2: "filter_mset (due now) (timers q2) = filter_mset (due now) (timers q - {#?w#})"
      using nd by (simp add: t2 again1_def)
    have dueq: "filter_mset (due now) (timers q) = add_mset ?w (filter_mset (due now) (timers q2))"
      unfolding due2 by (subst split) (simp add: w)
    have arm2: "\<forall>t \<in># timers q2. armed now t"
      using less.prems(2) wn(3) by (auto simp: t2 again1_def dest: in_diffD split: if_splits)
    have "size (filter_mset (due now) (timers q2)) < size (filter_mset (due now) (timers q))"
      by (simp add: dueq)
    from less.hyps [OF this v2 arm2, of "fired @ [t_listener ?w]"]
    obtain ws q' where ih: "dispatch_timeout Q again now (fired @ [t_listener ?w]) q2
          = Some (Inr ((fired @ [t_listener ?w]) @ map t_listener ws, q'))"
        "mset ws = filter_mset (due now) (timers q2)" "sorted (map (\<lambda>t. sint (t_deadline t)) ws)" "valid q'"
        "timers q' = filter_mset (\<lambda>t. \<not> due now t) (timers q2)
          + image_mset (rearm now) (filter_mset (\<lambda>t. due now t \<and> again (t_listener t) now) (timers q2))"
      by blast
    have step: "dispatch_timeout Q again now fired q = dispatch_timeout Q again now (fired @ [t_listener ?w]) q2"
      using ne w empty_iff [OF less.prems(1)] wn(1) unfolding dispatch_timeout.simps [of Q again now fired q]
      by (auto simp: due_def Let_def q2_def)
    have "\<forall>t \<in> set ws. sint (t_deadline ?w) \<le> sint (t_deadline t)"
    proof
      fix t
      assume "t \<in> set ws"
      then have "t \<in># filter_mset (due now) (timers q - {#?w#})"
        using ih(2) due2 by (metis set_mset_mset)
      then have "t \<in># timers q"
        by (auto dest: in_diffD)
      then show "sint (t_deadline ?w) \<le> sint (t_deadline t)"
        by (rule top_least [OF less.prems(1)])
    qed
    then have "sorted (map (\<lambda>t. sint (t_deadline t)) (?w # ws))"
      using ih(3) by simp
    moreover have "timers q' = filter_mset (\<lambda>t. \<not> due now t) (timers q)
        + image_mset (rearm now) (filter_mset (\<lambda>t. due now t \<and> again (t_listener t) now) (timers q))"
      unfolding ih(5) t2 using w nd by (subst (3 4) split) (auto simp: again1_def)
    ultimately show ?thesis
      using step ih(1,2,4) dueq by (intro exI [of _ "?w # ws"] exI [of _ q']) simp
  qed
qed

end

section \<open>The list queue provides it\<close>

definition by_time :: "timer list \<Rightarrow> bool" where
  "by_time q \<longleftrightarrow> sorted (map (\<lambda>t. sint (t_deadline t)) q)"

lemma mset_timer_insert [simp]: "mset (timer_insert t q) = add_mset t (mset q)"
  by (induction q) auto

lemma set_timer_insert [simp]: "set (timer_insert t q) = insert t (set q)"
  by (induction q) auto

lemma by_time_insert: "by_time q \<Longrightarrow> by_time (timer_insert t q)"
  by (induction q) (auto simp: by_time_def)

lemma hd_timer_insert:
  "q \<noteq> [] \<Longrightarrow> sint (t_deadline (hd q)) \<le> sint (t_deadline t) \<Longrightarrow> hd (timer_insert t q) = hd q"
  by (cases q) auto

interpretation tl: timer_queue timer_list by_time mset
proof unfold_locales
  fix q :: "timer list" and t :: timer
  assume q: "by_time q"
  show "tq_is_empty timer_list q \<longleftrightarrow> mset q = {#}"
    by (simp add: timer_list_def)
  show "by_time (tq_emplace timer_list t q)" "mset (tq_emplace timer_list t q) = add_mset t (mset q)"
    using by_time_insert [OF q] by (simp_all add: timer_list_def)
  show "t \<in># mset q \<Longrightarrow> sint (t_deadline (tq_top timer_list q)) \<le> sint (t_deadline t)"
    using q by (cases q) (auto simp: timer_list_def by_time_def)
  assume ne: "mset q \<noteq> {#}"
  show "tq_top timer_list q \<in># mset q" "mset (tq_pop timer_list q) = mset q - {#tq_top timer_list q#}"
    using ne by (cases q; simp add: timer_list_def)+
  show "by_time (tq_pop timer_list q)"
    using q ne by (cases q) (auto simp: timer_list_def by_time_def)
  show "sint (t_deadline (tq_top timer_list q)) < sint (t_deadline t) \<Longrightarrow>
      tq_top timer_list (tq_emplace timer_list t q) = tq_top timer_list q"
    using ne hd_timer_insert [of q t] by (simp add: timer_list_def)
qed



lemma zero_interval_loops:
  assumes "dispatch_timeout Q again now fired q = Some y"
  shows "\<not> (Q = timer_list \<and> (\<exists>w. q = [w] \<and> due now w \<and> t_interval w = 0 \<and> again (t_listener w) now))"
proof (rule dispatch_timeout.raw_induct [where P = "\<lambda>Q again now fired q y.
    \<not> (Q = timer_list \<and> (\<exists>w. q = [w] \<and> due now w \<and> t_interval w = 0 \<and> again (t_listener w) now))", OF _ assms])
  fix f :: "timer list timer_ops \<Rightarrow> (u64 \<Rightarrow> time_point \<Rightarrow> bool) \<Rightarrow> time_point \<Rightarrow> u64 list \<Rightarrow> timer list \<Rightarrow>
    (u64 list \<times> timer list) res option"
  fix Q again now fired q y
  assume IH: "\<And>Q again now fired q y. f Q again now fired q = Some y \<Longrightarrow>
      \<not> (Q = timer_list \<and> (\<exists>w. q = [w] \<and> due now w \<and> t_interval w = 0 \<and> again (t_listener w) now))"
    and body: "(if tq_is_empty Q q then Some (Inr (fired, q))
      else let wrapper = tq_top Q q in
        if sint now < sint (t_deadline wrapper) then Some (Inr (fired, q))
        else if again (t_listener wrapper) now then
          (case timer_new (t_listener wrapper) now (t_interval wrapper) of
             Inl e \<Rightarrow> Some (Inl e)
           | Inr t \<Rightarrow> f Q again now (fired @ [t_listener wrapper]) (tq_pop Q (tq_emplace Q t q)))
        else f Q again now (fired @ [t_listener wrapper]) (tq_pop Q q)) = Some y"
  show "\<not> (Q = timer_list \<and> (\<exists>w. q = [w] \<and> due now w \<and> t_interval w = 0 \<and> again (t_listener w) now))"
  proof
    assume "Q = timer_list \<and> (\<exists>w. q = [w] \<and> due now w \<and> t_interval w = 0 \<and> again (t_listener w) now)"
    then obtain w where q: "Q = timer_list" "q = [w]" "due now w" "t_interval w = 0" "again (t_listener w) now"
      by blast
    let ?t = "\<lparr>t_listener = t_listener w, t_deadline = now, t_interval = 0\<rparr>"
    have "timer_new (t_listener w) now (t_interval w) = Inr ?t"
      using sint_greater_eq [of now] sint_less [of now] q(4) by (simp add: timer_new_def time_add_def)
    moreover have "tq_pop timer_list (tq_emplace timer_list ?t [w]) = [?t]"
      using q(3) by (simp add: timer_list_def due_def)
    ultimately have "f Q again now (fired @ [t_listener w]) [?t] = Some y"
      using body q by (auto simp: timer_list_def due_def Let_def)
    from IH [OF this] show False
      using q by (simp add: due_def)
  qed
qed

text \<open>A timer with interval zero whose listener asks to be called again is due again at once: the
  timeout loop never returns.\<close>

theorem zero_interval_never_returns:
  assumes "due now w" "t_interval w = 0" "again (t_listener w) now"
  shows "dispatch_timeout timer_list again now fired [w] = None"
  using zero_interval_loops [of timer_list again now fired "[w]"] assms
  by (cases "dispatch_timeout timer_list again now fired [w]") auto

theorem zero_interval_never_returns_witness:
  "dispatch_timeout timer_list (\<lambda>_ _. True) 100 [] [\<lparr>t_listener = 1, t_deadline = 90, t_interval = 0\<rparr>] = None"
  by (rule zero_interval_never_returns) (simp_all add: due_def)

section \<open>One round\<close>

text \<open>A round calls every loop listener first; then, if the wait delivered events, the read and then
  the write callback of each reported listener, as its event mask says, in the order reported, and
  no timeout, however late; if the wait ran out, the timeouts that are due; an interrupted wait is no
  error, and any other failure is thrown.\<close>

theorem run_once_callbacks:
  assumes "length (evs (os tr (Epoll_wait (epoll_fd d) 64 timeout))) = nat (rv (os tr (Epoll_wait (epoll_fd d) 64 timeout)))"
  shows "(let r = os tr (Epoll_wait (epoll_fd d) 64 timeout)
    in fst (run_once os Q again clock timeout d tr) =
      (if 0 < rv r then Some (Inr (map On_loop (loop_listeners d) @ concat (map io_callbacks (evs r)), d))
       else if rv r = 0 then
         (case dispatch_timeout Q again (clock (tr @ [(Epoll_wait (epoll_fd d) 64 timeout, r)])) [] (timeouts d) of
            None \<Rightarrow> None
          | Some (Inl e) \<Rightarrow> Some (Inl e)
          | Some (Inr (fired, q)) \<Rightarrow>
              Some (Inr (map On_loop (loop_listeners d) @ map On_timeout fired, d\<lparr>timeouts := q\<rparr>)))
       else if err r = eintr then Some (Inr (map On_loop (loop_listeners d), d))
       else Some (Inl (System_error (err r)))))"
  using assms
  by (auto simp: run_once_def syscall_eq on_loop_def max_events_def Let_def split: option.splits sum.splits)

definition one_event :: os where
  "one_event tr c = \<lparr>rv = 1, err = 0, ptr = 0, bytes = [], evs = [(77, 5)], ino = 0\<rparr>"

theorem run_once_callbacks_witness:
  "fst (run_once one_event timer_list (\<lambda>_ _. True) (\<lambda>_. 1000) 10
     \<lparr>epoll_fd = 3, loop_listeners = [5], timeouts = [\<lparr>t_listener = 1, t_deadline = 90, t_interval = 20\<rparr>]\<rparr> [])
   = Some (Inr ([On_loop 5, On_read 77, On_write 77],
       \<lparr>epoll_fd = 3, loop_listeners = [5], timeouts = [\<lparr>t_listener = 1, t_deadline = 90, t_interval = 20\<rparr>]\<rparr>))"
  using run_once_callbacks [where os = one_event and Q = timer_list and again = "\<lambda>_ _. True" and clock = "\<lambda>_. 1000"
      and timeout = 10 and tr = "[]" and d = "\<lparr>epoll_fd = 3, loop_listeners = [5],
        timeouts = [\<lparr>t_listener = 1, t_deadline = 90, t_interval = 20\<rparr>]\<rparr>"]
  by (simp add: one_event_def io_callbacks_def epollin_def epollout_def)

end
