(* ===== verification/Timer_Callbacks.thy ===== *)
theory Timer_Callbacks
  imports Event_Dispatch
begin

text \<open>
  \<^verbatim>\<open>event_dispatch::on_timeout\<close> when the callbacks register timeouts themselves. The loop keeps a
  reference to the top of the queue across the callback, and the queue lies in a \<^verbatim>\<open>std::vector\<close>: a
  registration that outgrows the vector moves it and the reference dangles. What a callback does is a
  parameter of the listeners called before it, its listener and the time: the timeouts it registers,
  each with the time the clock shows then and its interval, and whether it asks to be called again. The
  last section has the same question for \<^verbatim>\<open>on_loop\<close>.
\<close>

section \<open>The loop\<close>

type_synonym registration = "u64 \<times> time_point \<times> time_point"

fun register_timeouts :: "'q timer_ops \<Rightarrow> registration list \<Rightarrow> 'q \<Rightarrow> 'q res" where
  "register_timeouts Q [] q = Inr q"
| "register_timeouts Q ((l, clock, interval) # rs) q =
     bind_res (register_timeout_listener Q l clock interval q) (register_timeouts Q rs)"

text \<open>\<open>place\<close> tells the array the queue lies in; the reference is good as long as it stays.\<close>

partial_function (option) on_timeout ::
    "'q timer_ops \<Rightarrow> ('q \<Rightarrow> nat) \<Rightarrow> (u64 list \<Rightarrow> u64 \<Rightarrow> time_point \<Rightarrow> registration list \<times> bool) \<Rightarrow> time_point \<Rightarrow>
     u64 list \<Rightarrow> 'q \<Rightarrow> (u64 list \<times> 'q) res option" where
  "on_timeout Q place cb now fired q =
     (if tq_is_empty Q q then Some (Inr (fired, q))
      else if sint now < sint (t_deadline (tq_top Q q)) then Some (Inr (fired, q))
      else let l = t_listener (tq_top Q q) in
        case register_timeouts Q (fst (cb fired l now)) q of
          Inl e \<Rightarrow> Some (Inl e)
        | Inr r \<Rightarrow>
            if snd (cb fired l now) then
              if place r \<noteq> place q then Some (Inl Undefined)
              else (case timer_new (t_listener (tq_top Q r)) now (t_interval (tq_top Q r)) of
                      Inl e \<Rightarrow> Some (Inl e)
                    | Inr t \<Rightarrow> on_timeout Q place cb now (fired @ [l]) (tq_pop Q (tq_emplace Q t r)))
            else on_timeout Q place cb now (fired @ [l]) (tq_pop Q r))"

declare on_timeout.simps [code]

section \<open>Callbacks that register nothing\<close>

text \<open>Then the loop is the one of \<open>dispatch_timeout\<close>.\<close>

lemma dispatch_is_on_timeout:
  assumes "dispatch_timeout Q again now fired q = Some y"
  shows "on_timeout Q place (\<lambda>_ l now. ([], again l now)) now fired q = Some y"
proof (rule dispatch_timeout.raw_induct [where P = "\<lambda>Q again now fired q y.
    on_timeout Q place (\<lambda>_ l now. ([], again l now)) now fired q = Some y", OF _ assms], goal_cases)
  case (1 f Q again now fired q y)
  then show ?case
    by (subst on_timeout.simps) (auto simp: Let_def split: if_splits sum.splits)
qed

lemma on_timeout_is_dispatch:
  assumes "on_timeout Q place (\<lambda>_ l now. ([], again l now)) now fired q = Some y"
  shows "dispatch_timeout Q again now fired q = Some y"
proof -
  have "cb = (\<lambda>_ l now. ([], again l now)) \<longrightarrow> dispatch_timeout Q again now fired q = Some y"
    if "on_timeout Q place cb now fired q = Some y" for cb
  proof (rule on_timeout.raw_induct [where P = "\<lambda>Q place cb now fired q y.
      cb = (\<lambda>_ l now. ([], again l now)) \<longrightarrow> dispatch_timeout Q again now fired q = Some y", OF _ that], goal_cases)
    case (1 f Q place cb now fired q y)
    then show ?case
      by (subst dispatch_timeout.simps) (auto simp: Let_def split: if_splits sum.splits)
  qed
  with assms show ?thesis
    by blast
qed

theorem on_timeout_without_registrations:
  "on_timeout Q place (\<lambda>_ l now. ([], again l now)) now fired q = dispatch_timeout Q again now fired q"
  using dispatch_is_on_timeout [of Q again now fired q _ place] on_timeout_is_dispatch [of Q place again now fired q]
  by (cases "dispatch_timeout Q again now fired q";
      cases "on_timeout Q place (\<lambda>_ l now. ([], again l now)) now fired q") auto

section \<open>Callbacks that register timeouts\<close>

fun reg_timer :: "registration \<Rightarrow> timer" where
  "reg_timer (l, clock, interval) = \<lparr>t_listener = l, t_deadline = clock + interval, t_interval = interval\<rparr>"

text \<open>A registration for a later time, whose deadline the clock can represent.\<close>

fun reg_later :: "time_point \<Rightarrow> registration \<Rightarrow> bool" where
  "reg_later now (l, clock, interval) \<longleftrightarrow>
     time_add clock interval = Inr (clock + interval) \<and> sint now < sint (clock + interval)"

lemma register_later:
  "reg_later now (l, clock, interval) \<Longrightarrow>
   register_timeout_listener Q l clock interval q = Inr (tq_emplace Q (reg_timer (l, clock, interval)) q)"
  by (simp add: register_timeout_listener_def timer_new_def)

text \<open>What the callbacks of the timers \<open>ws\<close>, called in this order, leave in the queue.\<close>

fun left_by ::
    "(u64 list \<Rightarrow> u64 \<Rightarrow> time_point \<Rightarrow> registration list \<times> bool) \<Rightarrow> time_point \<Rightarrow> u64 list \<Rightarrow> timer list \<Rightarrow> timer list" where
  "left_by cb now fired [] = []"
| "left_by cb now fired (w # ws) =
     (let (rs, again) = cb fired (t_listener w) now
      in (if again then [rearm now w] else []) @ map reg_timer rs @ left_by cb now (fired @ [t_listener w]) ws)"

text \<open>The queue in its vector: a new timer moves the array exactly when the capacity is used up.\<close>

locale timer_vector = timer_queue Q valid timers
  for Q :: "'q timer_ops" and valid :: "'q \<Rightarrow> bool" and timers :: "'q \<Rightarrow> timer multiset" +
  fixes place :: "'q \<Rightarrow> nat"
    and cap :: "'q \<Rightarrow> nat"
  assumes emplace_room: "valid q \<Longrightarrow> size (timers q) < cap q \<Longrightarrow>
      place (tq_emplace Q t q) = place q \<and> cap (tq_emplace Q t q) = cap q"
    and emplace_full: "valid q \<Longrightarrow> cap q \<le> size (timers q) \<Longrightarrow>
      place q < place (tq_emplace Q t q) \<and> cap q \<le> cap (tq_emplace Q t q)"
    and pop_stays: "cap (tq_pop Q q) = cap q"
begin

lemma cap_emplace: "valid q \<Longrightarrow> cap q \<le> cap (tq_emplace Q t q)"
  using emplace_room [of q t] emplace_full [of q t] by (cases "size (timers q) < cap q") auto

lemma register_timeouts_later:
  assumes "\<forall>r \<in> set rs. reg_later now r" "valid q" "timers q \<noteq> {#}" "due now (tq_top Q q)"
  shows "\<exists>r. register_timeouts Q rs q = Inr r \<and> valid r \<and> timers r = timers q + mset (map reg_timer rs)
    \<and> tq_top Q r = tq_top Q q \<and> cap q \<le> cap r \<and> place q \<le> place r
    \<and> (place r = place q \<longleftrightarrow> rs = [] \<or> size (timers q) + length rs \<le> cap q)"
  using assms
proof (induction rs arbitrary: q)
  case Nil
  then show ?case by simp
next
  case (Cons x rs)
  let ?e = "tq_emplace Q (reg_timer x) q"
  obtain l c i where x: "x = (l, c, i)"
    by (cases x)
  have later: "reg_later now (l, c, i)"
    using Cons.prems(1) x by simp
  have e: "valid ?e" "timers ?e = add_mset (reg_timer x) (timers q)" "tq_top Q ?e = tq_top Q q"
    using Cons.prems valid_emplace timers_emplace top_stays [of q "reg_timer x"] later by (auto simp: x due_def)
  obtain r where r: "register_timeouts Q rs ?e = Inr r" "valid r" "timers r = timers ?e + mset (map reg_timer rs)"
      "tq_top Q r = tq_top Q ?e" "cap ?e \<le> cap r" "place ?e \<le> place r"
      "place r = place ?e \<longleftrightarrow> rs = [] \<or> size (timers ?e) + length rs \<le> cap ?e"
    using Cons.IH [of ?e] Cons.prems e by auto
  have "register_timeouts Q (x # rs) q = Inr r"
    using r(1) register_later [OF later, of Q q] by (simp add: x)
  moreover have "place r = place q \<longleftrightarrow> size (timers q) + Suc (length rs) \<le> cap q"
    using r(6,7) e(2) emplace_room [OF Cons.prems(2), of "reg_timer x"]
      emplace_full [OF Cons.prems(2), of "reg_timer x"]
    by (cases "size (timers q) < cap q") auto
  ultimately show ?case
    using r e emplace_room [OF Cons.prems(2), of "reg_timer x"] emplace_full [OF Cons.prems(2), of "reg_timer x"]
      cap_emplace [OF Cons.prems(2), of "reg_timer x"]
    by (intro exI [of _ r]) (cases "size (timers q) < cap q"; auto)
qed

text \<open>The reference is used after the array moved: exactly when the callback both outgrows the array
  and asks to be called again.\<close>

lemma dangling_top:
  assumes "\<forall>r \<in> set (fst (cb fired l now)). reg_later now r" "valid q" "timers q \<noteq> {#}" "due now (tq_top Q q)"
    and "l = t_listener (tq_top Q q)" "snd (cb fired l now)" "fst (cb fired l now) \<noteq> []"
    and "cap q < size (timers q) + length (fst (cb fired l now))"
  shows "on_timeout Q place cb now fired q = Some (Inl Undefined)"
proof -
  obtain r where r: "register_timeouts Q (fst (cb fired l now)) q = Inr r" "place r \<noteq> place q"
    using register_timeouts_later [OF assms(1-4)] assms(7,8) by auto
  then show ?thesis
    using assms(2-6) empty_iff [OF assms(2)]
    by (subst on_timeout.simps) (simp add: due_def Let_def)
qed

end

text \<open>Two ways to keep the reference good: callbacks that ask to be called again register nothing, or the
  array has room for all that the due timers register.\<close>

definition callbacks_fit ::
    "(u64 list \<Rightarrow> u64 \<Rightarrow> time_point \<Rightarrow> registration list \<times> bool) \<Rightarrow> time_point \<Rightarrow> nat \<Rightarrow> nat \<Rightarrow> nat \<Rightarrow> bool" where
  "callbacks_fit cb now timers_due len capacity \<longleftrightarrow>
     (\<forall>fired l. snd (cb fired l now) \<longrightarrow> fst (cb fired l now) = [])
     \<or> (\<exists>m. (\<forall>fired l. length (fst (cb fired l now)) \<le> m) \<and> len + m * timers_due \<le> capacity)"

lemma callbacks_fit_here:
  assumes "callbacks_fit cb now (Suc n) len capacity" "snd (cb fired l now)"
  shows "fst (cb fired l now) = [] \<or> len + length (fst (cb fired l now)) \<le> capacity"
proof (cases "fst (cb fired l now) = []")
  case False
  then obtain m where m: "\<forall>fired l. length (fst (cb fired l now)) \<le> m" "len + m * Suc n \<le> capacity"
    using assms by (auto simp: callbacks_fit_def)
  have "length (fst (cb fired l now)) \<le> m * Suc n"
    using m(1) by (metis le_trans mult_Suc_right le_add1)
  then show ?thesis
    using m(2) by linarith
qed simp

lemma callbacks_fit_next:
  assumes "callbacks_fit cb now (Suc n) len capacity" "len' \<le> len + length (fst (cb fired l now))" "capacity \<le> capacity'"
  shows "callbacks_fit cb now n len' capacity'"
proof (cases "\<forall>fired l. snd (cb fired l now) \<longrightarrow> fst (cb fired l now) = []")
  case False
  then obtain m where m: "\<forall>fired l. length (fst (cb fired l now)) \<le> m" "len + m * Suc n \<le> capacity"
    using assms(1) by (auto simp: callbacks_fit_def)
  have "len' + m * n \<le> len + m + m * n"
    using assms(2) m(1) by (meson add_le_mono1 add_left_mono le_trans)
  then have "len' + m * n \<le> capacity'"
    using m(2) assms(3) by simp
  then show ?thesis
    using m(1) unfolding callbacks_fit_def by blast
qed (auto simp: callbacks_fit_def)

context timer_vector
begin

lemma one_callback:
  fixes q :: 'q and fired :: "u64 list"
  assumes "\<forall>fired l. \<forall>r \<in> set (fst (cb fired l now)). reg_later now r"
    and "valid q" "timers q \<noteq> {#}" "due now (tq_top Q q)" "armed now (tq_top Q q)"
    and "callbacks_fit cb now (Suc n) (size (timers q)) (cap q)"
  defines "w \<equiv> tq_top Q q"
  defines "rs \<equiv> fst (cb fired (t_listener w) now)" and "again \<equiv> snd (cb fired (t_listener w) now)"
  shows "\<exists>q2. on_timeout Q place cb now fired q = on_timeout Q place cb now (fired @ [t_listener w]) q2
    \<and> valid q2 \<and> cap q \<le> cap q2
    \<and> timers q2 = timers q - {#w#} + mset ((if again then [rearm now w] else []) @ map reg_timer rs)"
proof -
  have rs: "\<forall>r \<in> set rs. reg_later now r"
    using assms(1) by (simp add: rs_def)
  from register_timeouts_later [OF rs assms(2-4)]
  obtain r where r: "register_timeouts Q rs q = Inr r" "valid r" "timers r = timers q + mset (map reg_timer rs)"
      "tq_top Q r = w" "cap q \<le> cap r" "place r = place q \<longleftrightarrow> rs = [] \<or> size (timers q) + length rs \<le> cap q"
    by (auto simp: w_def)
  have stays: "again \<Longrightarrow> place r = place q"
    using r(6) callbacks_fit_here [OF assms(6), of fired "t_listener w"] by (simp add: rs_def again_def)
  have wq: "w \<in># timers q"
    using top_in [OF assms(2,3)] by (simp add: w_def)
  have ne: "timers r \<noteq> {#}"
    using assms(3) r(3) by simp
  note wn = timer_new_armed [OF assms(5), folded w_def]
  define r2 where "r2 = (if again then tq_emplace Q (rearm now w) r else r)"
  have "sint (t_deadline (tq_top Q r)) < sint (t_deadline (rearm now w))"
    using wn(2) assms(4) r(4) by (simp add: w_def due_def)
  then have r2: "valid r2" "timers r2 = (if again then {#rearm now w#} else {#}) + timers r"
      "tq_top Q r2 = w" "cap r \<le> cap r2"
    using r(2,4) top_stays [OF r(2) ne] valid_emplace [OF r(2)] timers_emplace [OF r(2)] cap_emplace [OF r(2)]
    by (simp_all add: r2_def)
  have step: "on_timeout Q place cb now fired q = on_timeout Q place cb now (fired @ [t_listener w]) (tq_pop Q r2)"
    using assms(2-4) empty_iff [OF assms(2)] r(1,4) stays wn(1)
    by (subst on_timeout.simps)
      (auto simp: due_def Let_def r2_def rs_def [symmetric] again_def [symmetric] w_def [symmetric])
  have "timers r2 \<noteq> {#}"
    using ne r2(2) by simp
  note pop = valid_pop [OF r2(1) this] timers_pop [OF r2(1) this]
  have "timers (tq_pop Q r2)
      = timers q - {#w#} + mset ((if again then [rearm now w] else []) @ map reg_timer rs)"
    using wq by (auto simp: pop(2) r2(2,3) r(3) multiset_eq_iff)
  then show ?thesis
    using step pop(1) pop_stays [of r2] r2(4) r(5) by (intro exI [of _ "tq_pop Q r2"]) auto
qed

lemma callbacks_fire:
  assumes "\<forall>fired l. \<forall>r \<in> set (fst (cb fired l now)). reg_later now r"
    and "valid q" "\<forall>t \<in># timers q. due now t \<longrightarrow> armed now t"
    and "callbacks_fit cb now (size (filter_mset (due now) (timers q))) (size (timers q)) (cap q)"
  shows "\<exists>ws q'. on_timeout Q place cb now fired q = Some (Inr (fired @ map t_listener ws, q'))
    \<and> mset ws = filter_mset (due now) (timers q) \<and> sorted (map (\<lambda>t. sint (t_deadline t)) ws) \<and> valid q'
    \<and> timers q' = filter_mset (\<lambda>t. \<not> due now t) (timers q) + mset (left_by cb now fired ws)"
  using assms(2-)
proof (induction "size (filter_mset (due now) (timers q))" arbitrary: q fired)
  case 0
  then have none: "filter_mset (due now) (timers q) = {#}"
    by simp
  then have "on_timeout Q place cb now fired q = Some (Inr (fired, q))"
    using top_in [OF 0(2)] empty_iff [OF 0(2)]
    by (subst on_timeout.simps) (auto simp: due_def Let_def filter_mset_eq_mempty_iff)
  moreover have "filter_mset (\<lambda>t. \<not> due now t) (timers q) = timers q"
    using none by (auto simp: filter_mset_eq_conv filter_mset_eq_mempty_iff)
  ultimately show ?case
    using none 0(2) by (intro exI [of _ "[]"] exI [of _ q]) simp
next
  case (Suc n)
  let ?w = "tq_top Q q"
  let ?l = "t_listener ?w"
  let ?new = "mset ((if snd (cb fired ?l now) then [rearm now ?w] else []) @ map reg_timer (fst (cb fired ?l now)))"
  obtain t where "t \<in># timers q" "due now t"
    using Suc(2) by (metis filter_mset_eq_mempty_iff size_empty nat.distinct(1))
  then have ne: "timers q \<noteq> {#}" and w: "due now ?w"
    using top_least [OF Suc(3)] by (auto simp: due_def intro: order_trans)
  then have wq: "?w \<in># timers q" and wa: "armed now ?w"
    using top_in [OF Suc(3)] Suc(4) by blast+
  obtain q2 where q2: "on_timeout Q place cb now fired q = on_timeout Q place cb now (fired @ [?l]) q2"
      "valid q2" "cap q \<le> cap q2" "timers q2 = timers q - {#?w#} + ?new"
    using one_callback [of cb now q n fired, OF assms(1) Suc(3) ne w wa] Suc(5) unfolding Suc(2) [symmetric] by blast
  have later: "\<forall>t \<in># ?new. \<not> due now t"
    using assms(1) timer_new_armed(2) [OF wa] by (fastforce simp: due_def)
  then have new: "filter_mset (due now) ?new = {#}" "filter_mset (\<lambda>t. \<not> due now t) ?new = ?new"
    unfolding filter_mset_eq_conv by (auto simp: filter_mset_eq_mempty_iff)
  have split: "timers q = add_mset ?w (timers q - {#?w#})"
    using wq by simp
  have due2: "filter_mset (due now) (timers q) = add_mset ?w (filter_mset (due now) (timers q2))"
    unfolding q2(4) filter_union_mset new by (subst split) (simp add: w)
  have left2: "filter_mset (\<lambda>t. \<not> due now t) (timers q2) = filter_mset (\<lambda>t. \<not> due now t) (timers q) + ?new"
    unfolding q2(4) filter_union_mset new by (subst (2) split) (simp add: w)
  have n: "n = size (filter_mset (due now) (timers q2))"
    using Suc(2) due2 by simp
  have "\<forall>t \<in># timers q2. due now t \<longrightarrow> armed now t"
    using Suc(4) later unfolding q2(4) by (auto dest: in_diffD)
  moreover have "size (timers q2) \<le> size (timers q) + length (fst (cb fired ?l now))"
    unfolding q2(4) by (subst (2) split) simp
  then have "callbacks_fit cb now n (size (timers q2)) (cap q2)"
    using callbacks_fit_next Suc(5) q2(3) unfolding Suc(2) [symmetric] by blast
  ultimately obtain ws q' where ih:
      "on_timeout Q place cb now (fired @ [?l]) q2 = Some (Inr ((fired @ [?l]) @ map t_listener ws, q'))"
      "mset ws = filter_mset (due now) (timers q2)" "sorted (map (\<lambda>t. sint (t_deadline t)) ws)" "valid q'"
      "timers q' = filter_mset (\<lambda>t. \<not> due now t) (timers q2) + mset (left_by cb now (fired @ [?l]) ws)"
    using Suc(1) [OF n q2(2), of "fired @ [?l]"] unfolding n [symmetric] by blast
  have "t \<in># timers q" if "t \<in> set ws" for t
    using that ih(2) due2 by (metis filter_mset_add_mset multi_member_split mset_subset_eqD
        multiset_filter_subset set_mset_mset union_single_eq_member insert_iff set_mset_add_mset_insert)
  then have "sorted (map (\<lambda>t. sint (t_deadline t)) (?w # ws))"
    using ih(3) top_least [OF Suc(3)] by simp
  then show ?case
    using q2(1) ih due2 left2 by (intro exI [of _ "?w # ws"] exI [of _ q']) (auto simp: case_prod_beta Let_def)
qed

end

section \<open>The queue in a vector\<close>

text \<open>A priority queue over a vector that grows by any positive amount, \<open>extra\<close> of the old capacity plus
  one, when it is full.\<close>

record timer_vec =
  tv_timers :: "timer list"
  tv_cap :: nat
  tv_place :: nat

definition vec_emplace :: "(nat \<Rightarrow> nat) \<Rightarrow> timer \<Rightarrow> timer_vec \<Rightarrow> timer_vec" where
  "vec_emplace extra t v =
     (if length (tv_timers v) < tv_cap v then v\<lparr>tv_timers := timer_insert t (tv_timers v)\<rparr>
      else v\<lparr>tv_timers := timer_insert t (tv_timers v), tv_cap := Suc (tv_cap v + extra (tv_cap v)),
             tv_place := Suc (tv_place v)\<rparr>)"

definition vec_queue :: "(nat \<Rightarrow> nat) \<Rightarrow> timer_vec timer_ops" where
  "vec_queue extra =
     \<lparr>tq_is_empty = (\<lambda>v. tv_timers v = []), tq_top = (\<lambda>v. hd (tv_timers v)),
      tq_emplace = vec_emplace extra, tq_pop = (\<lambda>v. v\<lparr>tv_timers := tl (tv_timers v)\<rparr>)\<rparr>"

lemma tv_timers_vec_emplace [simp]: "tv_timers (vec_emplace extra t v) = timer_insert t (tv_timers v)"
  by (simp add: vec_emplace_def)

interpretation tv: timer_vector "vec_queue extra" "\<lambda>v. by_time (tv_timers v)" "\<lambda>v. mset (tv_timers v)" tv_place tv_cap
  for extra
proof unfold_locales
  fix v :: timer_vec and t :: timer
  assume v: "by_time (tv_timers v)"
  note q = tl.empty_iff [OF v] tl.top_in [OF v] tl.top_least [OF v, of t] tl.valid_emplace [OF v, of t]
    tl.timers_emplace [OF v, of t] tl.valid_pop [OF v] tl.timers_pop [OF v] tl.top_stays [OF v, of t]
  show "tq_is_empty (vec_queue extra) v \<longleftrightarrow> mset (tv_timers v) = {#}"
    "mset (tv_timers v) \<noteq> {#} \<Longrightarrow> tq_top (vec_queue extra) v \<in># mset (tv_timers v)"
    "t \<in># mset (tv_timers v) \<Longrightarrow> sint (t_deadline (tq_top (vec_queue extra) v)) \<le> sint (t_deadline t)"
    "by_time (tv_timers (tq_emplace (vec_queue extra) t v))"
    "mset (tv_timers (tq_emplace (vec_queue extra) t v)) = add_mset t (mset (tv_timers v))"
    "mset (tv_timers v) \<noteq> {#} \<Longrightarrow> by_time (tv_timers (tq_pop (vec_queue extra) v))"
    "mset (tv_timers v) \<noteq> {#} \<Longrightarrow>
      mset (tv_timers (tq_pop (vec_queue extra) v)) = mset (tv_timers v) - {#tq_top (vec_queue extra) v#}"
    "mset (tv_timers v) \<noteq> {#} \<Longrightarrow> sint (t_deadline (tq_top (vec_queue extra) v)) < sint (t_deadline t) \<Longrightarrow>
      tq_top (vec_queue extra) (tq_emplace (vec_queue extra) t v) = tq_top (vec_queue extra) v"
    using q by (simp_all add: vec_queue_def timer_list_def)
qed (simp_all add: vec_queue_def vec_emplace_def)

text \<open>C19: callbacks may register timeouts, as long as each of these falls later than now. For a queue in
  order whose due timers have positive intervals (that fit after now), and as long as a callback that
  asks to be called again registers none, or
  the array has room for what the due timers register, on_timeout returns; every timer that was due is
  called exactly once, in the order of the deadlines, none of those registered meanwhile is, and
  afterwards the queue holds the timers that were not due, those registered, and, one interval from
  now, those that asked to be called again.\<close>

theorem timeout_callbacks_may_register:
  assumes "\<forall>fired l. \<forall>r \<in> set (fst (cb fired l now)). reg_later now r"
    and "by_time (tv_timers v)" "\<forall>t \<in> set (tv_timers v). due now t \<longrightarrow> armed now t"
    and "callbacks_fit cb now (length (filter (due now) (tv_timers v))) (length (tv_timers v)) (tv_cap v)"
  shows "\<exists>ws v'. on_timeout (vec_queue extra) tv_place cb now [] v = Some (Inr (map t_listener ws, v'))
    \<and> mset ws = filter_mset (due now) (mset (tv_timers v)) \<and> sorted (map (\<lambda>t. sint (t_deadline t)) ws)
    \<and> by_time (tv_timers v')
    \<and> mset (tv_timers v') = filter_mset (\<lambda>t. \<not> due now t) (mset (tv_timers v)) + mset (left_by cb now [] ws)"
proof -
  have "size (filter_mset (due now) (mset (tv_timers v))) = length (filter (due now) (tv_timers v))"
    by (simp flip: mset_filter)
  then show ?thesis
    using tv.callbacks_fire [of cb now v extra "[]"] assms by simp
qed

text \<open>Listener 1 asks to be called again, listener 2 registers listener 9 for 50 later and does not.\<close>

definition two_listeners :: "u64 list \<Rightarrow> u64 \<Rightarrow> time_point \<Rightarrow> registration list \<times> bool" where
  "two_listeners fired l now = (if l = 2 then ([(9, 100, 50)], False) else ([], True))"

definition two_timers :: timer_vec where
  "two_timers = \<lparr>tv_timers = [\<lparr>t_listener = 2, t_deadline = 90, t_interval = 30\<rparr>,
     \<lparr>t_listener = 1, t_deadline = 95, t_interval = 20\<rparr>], tv_cap = 2, tv_place = 0\<rparr>"

theorem timeout_callbacks_may_register_witness:
  "\<exists>v'. on_timeout (vec_queue id) tv_place two_listeners 100 [] two_timers = Some (Inr ([2, 1], v'))
     \<and> image_mset (\<lambda>t. (t_listener t, t_deadline t)) (mset (tv_timers v')) = {#(9, 150), (1, 120)#}"
proof -
  have "\<forall>fired l. \<forall>r \<in> set (fst (two_listeners fired l 100)). reg_later 100 r"
    by (simp add: two_listeners_def time_add_def)
  moreover have "by_time (tv_timers two_timers)" "\<forall>t \<in> set (tv_timers two_timers). due 100 t \<longrightarrow> armed 100 t"
    by (simp_all add: two_timers_def by_time_def armed_def)
  moreover have "callbacks_fit two_listeners 100 n k c" for n k c
    by (simp add: callbacks_fit_def two_listeners_def)
  ultimately obtain ws v' where w: "on_timeout (vec_queue id) tv_place two_listeners 100 [] two_timers
        = Some (Inr (map t_listener ws, v'))"
      "mset ws = filter_mset (due 100) (mset (tv_timers two_timers))" "sorted (map (\<lambda>t. sint (t_deadline t)) ws)"
      "mset (tv_timers v') = filter_mset (\<lambda>t. \<not> due 100 t) (mset (tv_timers two_timers))
        + mset (left_by two_listeners 100 [] ws)"
    using timeout_callbacks_may_register [of two_listeners 100 two_timers id] by blast
  have "filter_mset (due 100) (mset (tv_timers two_timers)) = mset (tv_timers two_timers)"
    "filter_mset (\<lambda>t. \<not> due 100 t) (mset (tv_timers two_timers)) = {#}"
    by (simp_all add: two_timers_def due_def)
  note w = w [unfolded this]
  have "length ws = 2"
    using arg_cong [OF w(2), of size] by (simp add: two_timers_def)
  then obtain x y where "ws = [x, y]"
    by (auto simp: numeral_2_eq_2 length_Suc_conv)
  then have "ws = tv_timers two_timers"
    using w(2,3) by (auto simp: two_timers_def add_eq_conv_ex)
  then show ?thesis
    using w(1,4) by (auto simp: two_timers_def two_listeners_def rearm_def)
qed

text \<open>A callback that registers a timeout the full array has no room for and asks to be called again makes
  the loop read its timer through a reference into the array the vector gave up.\<close>

theorem timeout_reference_dangles:
  assumes "by_time (w # ts)" "due now w" "cb fired (t_listener w) now = (rs, True)" "rs \<noteq> []"
    and "\<forall>r \<in> set rs. reg_later now r" "capacity < Suc (length ts) + length rs"
  shows "on_timeout (vec_queue extra) tv_place cb now fired \<lparr>tv_timers = w # ts, tv_cap = capacity, tv_place = p\<rparr>
    = Some (Inl Undefined)"
  by (rule tv.dangling_top [where l = "t_listener w"]) (use assms in \<open>simp_all add: vec_queue_def\<close>)

theorem timeout_reference_dangles_witness:
  "on_timeout (vec_queue id) tv_place (\<lambda>_ _ _. ([(9, 100, 50)], True)) 100 []
     \<lparr>tv_timers = [\<lparr>t_listener = 1, t_deadline = 90, t_interval = 20\<rparr>], tv_cap = 1, tv_place = 0\<rparr> = Some (Inl Undefined)"
  using timeout_reference_dangles [where w = "\<lparr>t_listener = 1, t_deadline = 90, t_interval = 20\<rparr>" and ts = "[]"
      and cb = "\<lambda>_ _ _. ([(9, 100, 50)], True)" and now = 100 and rs = "[(9, 100, 50)]" and capacity = 1]
  by (simp add: by_time_def due_def time_add_def)

section \<open>Loop listeners that change the list of listeners\<close>

text \<open>\<^verbatim>\<open>on_loop\<close> is a range-for over a vector: it keeps an iterator and the end. \<^verbatim>\<open>push_back\<close> invalidates at
  least the end, \<^verbatim>\<open>erase\<close> everything from the erased element on, and the loop goes on to compare them:
  a registration or removal that takes effect while the listeners are called is undefined behaviour.
  What a listener does is a parameter of the listeners called before it and its address.\<close>

datatype loop_change = Register u64 | Unregister u64

fun change_listeners :: "loop_change \<Rightarrow> u64 list \<Rightarrow> u64 list" where
  "change_listeners (Register l) ls = register_loop_listener l ls"
| "change_listeners (Unregister l) ls = unregister_loop_listener l ls"

fun on_loop_from :: "(u64 list \<Rightarrow> u64 \<Rightarrow> loop_change list) \<Rightarrow> u64 list \<Rightarrow> u64 list \<Rightarrow> u64 list \<Rightarrow> u64 list res" where
  "on_loop_from cb ls called [] = Inr called"
| "on_loop_from cb ls called (l # rest) =
     (if list_all (\<lambda>c. change_listeners c ls = ls) (cb called l) then on_loop_from cb ls (called @ [l]) rest
      else Inl Undefined)"

lemma change_has_effect:
  "change_listeners c ls = ls \<longleftrightarrow> (case c of Register l \<Rightarrow> l \<in> set ls | Unregister l \<Rightarrow> l \<notin> set ls)"
proof (cases c)
  case (Unregister l)
  have "length (remove1 l ls) < length ls" if "l \<in> set ls"
    using that length_pos_if_in_set [OF that] by (simp add: length_remove1)
  then show ?thesis
    using Unregister by (force simp: unregister_loop_listener_def)
qed (simp add: register_loop_listener_def)

text \<open>A pass calls the listeners once each, in order, exactly when none of them registers one that is not
  there or removes one that is; any other pass is undefined. Removing itself is no exception.\<close>

theorem on_loop_from_defined:
  "on_loop_from cb ls called todo = Inr (called @ todo)
     \<longleftrightarrow> (\<forall>i < length todo. \<forall>c \<in> set (cb (called @ take i todo) (todo ! i)).
           case c of Register l \<Rightarrow> l \<in> set ls | Unregister l \<Rightarrow> l \<notin> set ls)"
  "on_loop_from cb ls called todo \<in> {Inr (called @ todo), Inl Undefined}"
proof (induction todo arbitrary: called)
  case (Cons x todo)
  case 1
  show ?case
    using Cons(1) [of "called @ [x]"]
    by (auto simp: list_all_iff change_has_effect All_less_Suc2)
  case 2
  show ?case
    using Cons(2) [of "called @ [x]"] by simp
qed simp_all

end
