(* ===== verification/Call_Frames.thy ===== *)
theory Call_Frames
  imports Tcp_Server Tcp_Connection
begin

text \<open>
  Which system calls the handlers of \<^verbatim>\<open>src/tcp_server.cpp\<close> and \<^verbatim>\<open>src/tcp_connection.cpp\<close> make, and what such
  calls leave alone: the descriptors the process holds, and the bytes that moved on other sockets.
  Where handlers run one after the other on one sequence of calls, this is what keeps them apart.
\<close>

section \<open>Which calls a handler makes\<close>

text \<open>\<open>adds P tr tr'\<close>: the calls made since \<open>tr\<close> satisfy \<open>P\<close>.\<close>

definition adds :: "(call \<Rightarrow> bool) \<Rightarrow> trace \<Rightarrow> trace \<Rightarrow> bool" where
  "adds P tr tr' \<longleftrightarrow> (\<exists>es. tr' = tr @ es \<and> (\<forall>e \<in> set es. P (fst e)))"

lemma adds_refl [simp]: "adds P tr tr"
  by (simp add: adds_def)

lemma adds_snoc: "P c \<Longrightarrow> adds P tr (tr @ [(c, r)])"
  by (auto simp: adds_def)

lemma adds_trans [trans]: "adds P t1 t2 \<Longrightarrow> adds P t2 t3 \<Longrightarrow> adds P t1 t3"
  by (auto simp: adds_def)

lemma adds_mono: "adds P tr tr' \<Longrightarrow> (\<And>c. P c \<Longrightarrow> Q c) \<Longrightarrow> adds Q tr tr'"
  by (auto simp: adds_def)

lemma adds_syscall: "syscall os c tr = (r, tr') \<Longrightarrow> P c \<Longrightarrow> adds P tr tr'"
  by (auto simp: syscall_eq adds_snoc)

lemma adds_syscall': "P c \<Longrightarrow> adds P tr (snd (syscall os c tr))"
  by (simp add: syscall_eq adds_snoc)

lemma adds_fold:
  assumes "adds P tr tr'" "\<And>c r tr. P c \<Longrightarrow> f (tr @ [(c, r)]) = f tr"
  shows "f tr' = f tr"
proof -
  obtain es where es: "tr' = tr @ es" "\<forall>e \<in> set es. P (fst e)"
    using assms(1) by (auto simp: adds_def)
  then have "f (tr @ es) = f tr"
  proof (induction es arbitrary: tr' rule: rev_induct)
    case (snoc e es)
    then show ?case
      using assms(2) [of "fst e" "tr @ es" "snd e"] by (cases e) auto
  qed simp
  then show ?thesis
    by (simp only: es)
qed

text \<open>Calls that neither open nor close a descriptor, and calls that move no bytes on \<open>fd\<close>.\<close>

fun no_fd :: "call \<Rightarrow> bool" where
  "no_fd (Shm_open _ _) = False"
| "no_fd (Dup_fd _) = False"
| "no_fd (Socket_new _) = False"
| "no_fd (Accept _) = False"
| "no_fd Epoll_create = False"
| "no_fd (Close fd) = (fd < 0)"
| "no_fd _ = True"

fun no_recv :: "int \<Rightarrow> call \<Rightarrow> bool" where
  "no_recv fd (Recv f _) = (f \<noteq> fd)"
| "no_recv fd _ = True"

fun no_send :: "int \<Rightarrow> call \<Rightarrow> bool" where
  "no_send fd (Send f _) = (f \<noteq> fd)"
| "no_send fd _ = True"

lemma held_adds: "adds no_fd tr tr' \<Longrightarrow> held tr' = held tr"
proof (erule adds_fold)
  fix c r tr
  assume "no_fd c"
  then show "held (tr @ [(c, r)]) = held tr"
    by (cases c) (simp_all add: held_snoc diff_negative)
qed

lemma closes_ok_adds: "adds no_fd tr tr' \<Longrightarrow> closes_ok tr' = closes_ok tr"
proof (erule adds_fold)
  fix c r tr
  assume "no_fd c"
  then show "closes_ok (tr @ [(c, r)]) = closes_ok tr"
    by (cases c) (simp_all add: closes_ok_snoc)
qed

lemma received_adds: "adds (no_recv fd) tr tr' \<Longrightarrow> received fd tr' = received fd tr"
proof (erule adds_fold)
  fix c r tr
  assume "no_recv fd c"
  then show "received fd (tr @ [(c, r)]) = received fd tr"
    by (cases c) (simp_all add: received_snoc got_def)
qed

lemma transmitted_adds: "adds (no_send fd) tr tr' \<Longrightarrow> transmitted fd tr' = transmitted fd tr"
proof (erule adds_fold)
  fix c r tr
  assume "no_send fd c"
  then show "transmitted fd (tr @ [(c, r)]) = transmitted fd tr"
    by (cases c) (simp_all add: transmitted_snoc put_def)
qed

text \<open>The handlers of a connection only receive, or only send, on its own socket.\<close>

definition own_calls :: "(int \<Rightarrow> call \<Rightarrow> bool) \<Rightarrow> conn \<Rightarrow> conn res \<Rightarrow> bool" where
  "own_calls P s r \<longleftrightarrow>
     (case r of Inl e \<Rightarrow> True | Inr s' \<Rightarrow> conn_fd s' = conn_fd s \<and> adds (P (conn_fd s)) (conn_calls s) (conn_calls s'))"

fun is_recv :: "int \<Rightarrow> call \<Rightarrow> bool" where
  "is_recv fd (Recv f _) = (f = fd)"
| "is_recv fd _ = False"

fun is_send :: "int \<Rightarrow> call \<Rightarrow> bool" where
  "is_send fd (Send f _) = (f = fd)"
| "is_send fd _ = False"

lemma own_calls_Inr [simp]:
  "own_calls P s (Inr s') \<longleftrightarrow> conn_fd s' = conn_fd s \<and> adds (P (conn_fd s)) (conn_calls s) (conn_calls s')"
  by (simp add: own_calls_def)

lemma own_calls_Inl [simp]: "own_calls P s (Inl e)"
  by (simp add: own_calls_def)

lemma own_calls_trans:
  "own_calls P s1 r \<Longrightarrow> conn_fd s1 = conn_fd s \<Longrightarrow> adds (P (conn_fd s)) (conn_calls s) (conn_calls s1) \<Longrightarrow> own_calls P s r"
  by (auto simp: own_calls_def split: sum.splits intro: adds_trans)

lemma consume_calls: "consume h s = Inr (n, s') \<Longrightarrow> conn_fd s' = conn_fd s \<and> conn_calls s' = conn_calls s"
  by (auto simp: consume_def Let_def split: option.splits if_splits)

lemma produce_calls: "produce h s = Inr (n, s') \<Longrightarrow> conn_fd s' = conn_fd s \<and> conn_calls s' = conn_calls s"
  by (auto simp: produce_def Let_def split: option.splits if_splits prod.splits)

lemma on_close_calls [simp]: "conn_calls (on_close s) = conn_calls s"
  by (simp add: on_close_def)

lemma conn_on_read_calls:
  assumes "conn_on_read os h s = Some r"
  shows "own_calls is_recv s r"
proof (rule conn_on_read.raw_induct [where P = "\<lambda>os h s r. own_calls is_recv s r", OF _ assms])
  fix f :: "os \<Rightarrow> read_handler \<Rightarrow> conn \<Rightarrow> conn res option" and os :: os and h :: read_handler and s r
  assume IH: "\<And>os h s r. f os h s = Some r \<Longrightarrow> own_calls is_recv s r"
    and body: "(case rcb s of
        None \<Rightarrow> Some (Inl Assertion)
      | Some (base, rb) \<Rightarrow>
          let wbuf = circular_buffer_get_writable base (rb_hdr rb) in
          if piece_size wbuf > 0 then
            let (r, tr) = syscall os (Recv (conn_fd s) (unat (piece_size wbuf))) (conn_calls s);
                s = s\<lparr>conn_calls := tr\<rparr>
            in if rv r > 0 then
                 f os h (s\<lparr>rcb := Some (base, push_bytes base rb (bytes r) (of_int (rv r)))\<rparr>)
               else if rv r = 0 then Some (bind_res (consume h s) (\<lambda>(_, s). Inr (on_close s)))
               else if err r = eagain then Some (bind_res (consume h s) (\<lambda>(_, s). Inr s))
               else Some (Inr (on_close s))
          else (case consume h s of
                  Inl e \<Rightarrow> Some (Inl e)
                | Inr (n, s) \<Rightarrow> if n = 0 then Some (Inr (on_close s)) else f os h s)) = Some r"
  show "own_calls is_recv s r"
  proof (cases "rcb s")
    case (Some x)
    obtain base rb where x: "x = (base, rb)"
      by fastforce
    let ?w = "circular_buffer_get_writable base (rb_hdr rb)"
    obtain q tr where q: "syscall os (Recv (conn_fd s) (unat (piece_size ?w))) (conn_calls s) = (q, tr)"
      by fastforce
    have a: "adds (is_recv (conn_fd s)) (conn_calls s) tr"
      using adds_syscall [OF q, of "is_recv (conn_fd s)"] by simp
    have more: "own_calls is_recv s r"
      if "f os h (s\<lparr>conn_calls := tr, rcb := Some (base, rb')\<rparr>) = Some r" for rb'
      using own_calls_trans [OF IH [OF that]] a by simp
    show ?thesis
    proof (cases "piece_size ?w > 0")
      case True
      then show ?thesis
        using body Some x q a more
        by (auto simp: Let_def bind_res_def dest: consume_calls split: if_splits sum.splits)
    next
      case False
      show ?thesis
      proof (cases "consume h s")
        case (Inr y)
        then obtain n s1 where "consume h s = Inr (n, s1)"
          by (cases y) simp
        then show ?thesis
          using body Some x False consume_calls own_calls_trans [OF IH, of os h s1 r s]
          by (auto split: if_splits)
      qed (use body Some x False in auto)
    qed
  qed (use body in auto)
qed

lemma conn_on_write_calls:
  assumes "conn_on_write os h s = Some r"
  shows "own_calls is_send s r"
proof (rule conn_on_write.raw_induct [where P = "\<lambda>os h s r. own_calls is_send s r", OF _ assms])
  fix f :: "os \<Rightarrow> write_handler \<Rightarrow> conn \<Rightarrow> conn res option" and os :: os and h :: write_handler and s r
  assume IH: "\<And>os h s r. f os h s = Some r \<Longrightarrow> own_calls is_send s r"
    and body: "(case wcb s of
        None \<Rightarrow> Some (Inl Assertion)
      | Some (base, rb) \<Rightarrow>
          let rbuf = circular_buffer_get_readable base (rb_hdr rb) in
          if piece_size rbuf > 0 then
            let (r, tr) = syscall os (Send (conn_fd s) (rb_view base rb)) (conn_calls s);
                s = s\<lparr>conn_calls := tr\<rparr>
            in if rv r > 0 then f os h (s\<lparr>wcb := Some (base, rb_pop rb (of_int (rv r)))\<rparr>)
               else if rv r = 0 then Some (Inr (on_close s))
               else if err r = eagain then Some (Inr s)
               else Some (Inr (on_close s))
          else (case produce h s of
                  Inl e \<Rightarrow> Some (Inl e)
                | Inr (n, s) \<Rightarrow> if n = 0 then Some (Inr (on_close s)) else f os h s)) = Some r"
  show "own_calls is_send s r"
  proof (cases "wcb s")
    case (Some x)
    obtain base rb where x: "x = (base, rb)"
      by fastforce
    obtain q tr where q: "syscall os (Send (conn_fd s) (rb_view base rb)) (conn_calls s) = (q, tr)"
      by fastforce
    have a: "adds (is_send (conn_fd s)) (conn_calls s) tr"
      using adds_syscall [OF q, of "is_send (conn_fd s)"] by simp
    have more: "own_calls is_send s r"
      if "f os h (s\<lparr>conn_calls := tr, wcb := Some (base, rb')\<rparr>) = Some r" for rb'
      using own_calls_trans [OF IH [OF that]] a by simp
    show ?thesis
    proof (cases "piece_size (circular_buffer_get_readable base (rb_hdr rb)) > 0")
      case True
      then show ?thesis
        using body Some x q a more by (auto simp: Let_def split: if_splits)
    next
      case False
      show ?thesis
      proof (cases "produce h s")
        case (Inr y)
        then obtain n s1 where "produce h s = Inr (n, s1)"
          by (cases y) simp
        then show ?thesis
          using body Some x False produce_calls own_calls_trans [OF IH, of os h s1 r s]
          by (auto split: if_splits)
      qed (use body Some x False in auto)
    qed
  qed (use body in auto)
qed

text \<open>A kernel never hands out a descriptor that is open, so no descriptor is open twice.\<close>

definition fresh_fds :: "os \<Rightarrow> bool" where
  "fresh_fds os \<longleftrightarrow> (\<forall>tr c. \<forall>fd \<in># new_fd c (rv (os tr c)). fd \<notin># held tr)"

definition uniq :: "trace \<Rightarrow> bool" where
  "uniq tr \<longleftrightarrow> (\<forall>fd. count (held tr) fd \<le> 1)"

fun is_accept :: "int \<Rightarrow> call \<Rightarrow> bool" where
  "is_accept fd (Accept f) = (f = fd)"
| "is_accept fd (Close f) = True"
| "is_accept fd _ = False"

lemma uniq_sub: "uniq tr \<Longrightarrow> held tr' \<subseteq># held tr \<Longrightarrow> uniq tr'"
  by (auto simp: uniq_def subseteq_mset_def intro: order_trans)

lemma uniq_accept:
  assumes "fresh_fds os" "uniq tr" "syscall os (Accept fd) tr = (r, tr')"
  shows "uniq tr'"
proof -
  have "held tr' = held tr + new_fd (Accept fd) (rv r)" "r = os tr (Accept fd)"
    using assms(3) by (auto simp: syscall_eq held_snoc)
  moreover from this have "\<forall>f \<in># new_fd (Accept fd) (rv r). f \<notin># held tr"
    using assms(1) unfolding fresh_fds_def by blast
  ultimately show ?thesis
    using assms(2) by (auto simp: uniq_def not_in_iff)
qed

lemma uniq_destroy: "uniq tr \<Longrightarrow> uniq (fd_destroy os fd tr)"
  by (erule uniq_sub) (simp add: held_destroy)

lemma server_calls:
  assumes "server_on_read os keeps fd acc tr = Some (acc', tr', e)"
  shows "adds (is_accept fd) tr tr' \<and> (fresh_fds os \<longrightarrow> uniq tr \<longrightarrow> uniq tr')"
proof -
  let ?P = "\<lambda>os keeps fd acc tr x. adds (is_accept fd) tr (fst (snd x)) \<and> (fresh_fds os \<longrightarrow> uniq tr \<longrightarrow> uniq (fst (snd x)))"
  have "?P os keeps fd acc tr (acc', tr', e)"
  proof (rule server_on_read.raw_induct [where P = ?P, OF _ assms])
    fix f :: "os \<Rightarrow> (int \<Rightarrow> u8 list \<Rightarrow> bool) \<Rightarrow> int \<Rightarrow> (int \<times> u8 list) list \<Rightarrow> trace \<Rightarrow>
      ((int \<times> u8 list) list \<times> trace \<times> fault option) option"
    fix os :: os and keeps :: "int \<Rightarrow> u8 list \<Rightarrow> bool" and fd acc tr and x :: "(int \<times> u8 list) list \<times> trace \<times> fault option"
    assume IH: "\<And>os keeps fd acc tr x. f os keeps fd acc tr = Some x \<Longrightarrow> ?P os keeps fd acc tr x"
      and body: "(let (r, tr) = syscall os (Accept fd) tr; sock = fd_of_int (rv r) in
        if fd_valid sock then
          f os keeps fd (acc @ [(sock, bytes r)]) (if keeps sock (bytes r) then tr else fd_destroy os sock tr)
        else if err r = eagain then Some (acc, tr, None)
        else Some (acc, tr, Some (System_error (err r)))) = Some x"
    obtain r tr1 where a: "syscall os (Accept fd) tr = (r, tr1)"
      by fastforce
    define tr2 where "tr2 = (if keeps (rv r) (bytes r) then tr1 else fd_destroy os (rv r) tr1)"
    have 1: "adds (is_accept fd) tr tr1" "fresh_fds os \<Longrightarrow> uniq tr \<Longrightarrow> uniq tr1"
      using adds_syscall [OF a, of "is_accept fd"] uniq_accept [OF _ _ a] by simp_all
    have 2: "adds (is_accept fd) tr1 tr2" "uniq tr1 \<Longrightarrow> uniq tr2"
      using adds_syscall' [of "is_accept fd" "Close _"] uniq_destroy [of tr1]
      by (simp_all add: tr2_def fd_destroy_def)
    show "?P os keeps fd acc tr x"
    proof (cases "fd_valid (rv r)")
      case True
      then have "f os keeps fd (acc @ [(rv r, bytes r)]) tr2 = Some x"
        using body a by (simp add: fd_of_int_def tr2_def Let_def)
      from IH [OF this] show ?thesis
        using 1 2 adds_trans by blast
    next
      case False
      then show ?thesis
        using body a 1 by (auto simp: fd_of_int_def Let_def split: if_splits)
    qed
  qed
  then show ?thesis
    by simp
qed

text \<open>Making and removing the rings of a connection.\<close>

fun silent :: "call \<Rightarrow> bool" where
  "silent (Recv _ _) = False"
| "silent (Send _ _) = False"
| "silent c = no_fd c"

lemma silent_map_error: "adds silent tr (snd (map_error os addr len tr))"
  by (simp add: map_error_def adds_syscall')

lemma silent_map_shared_memory:
  assumes "map_shared_memory os page fd head cap tr = (r, tr')"
  shows "adds silent tr tr'"
proof -
  obtain r1 tr1 where 1: "syscall os (reserve_call (cap + head + cap)) tr = (r1, tr1)"
    by fastforce
  obtain r2 tr2 where 2: "syscall os (share_call (ptr r1) (cap + head) fd) tr1 = (r2, tr2)"
    by fastforce
  obtain r3 tr3 where 3: "syscall os (mirror_call (ptr r1 + head) cap (ptr r1 + (cap + head))) tr2 = (r3, tr3)"
    by fastforce
  have a: "adds silent tr tr1" "adds silent tr tr2" "adds silent tr tr3"
    using adds_syscall [OF 1, of silent] adds_syscall [OF 2, of silent] adds_syscall [OF 3, of silent]
    by (auto intro: adds_trans)
  have e: "adds silent tr tr'" if "map_error os a n t = (r, tr')" "adds silent tr t" for a n t
    using adds_trans [OF that(2) silent_map_error [of t os a n]] that(1) by simp
  show ?thesis
    using assms a unfolding map_shared_memory_def Let_def 1 2 3 prod.case
    by (auto split: if_splits elim: e)
qed

lemma silent_create_cb:
  assumes "create_cb os page n tr = (r, tr')"
  shows "adds silent tr tr'"
proof -
  let ?cap = "(n + (page - 1)) AND NOT (page - 1)" and ?head = "aligned_header_size 0 (page - 1)"
  obtain m t where m: "map_shared_memory os page (- 1) ?head ?cap tr = (m, t)"
    by fastforce
  have "adds silent tr t" "adds silent tr (snd (syscall os (Close (- 1)) t))"
    using silent_map_shared_memory [OF m] adds_syscall' [of silent "Close (- 1)" t os]
    by (auto intro: adds_trans)
  then show ?thesis
    using assms m
    by (auto simp: create_cb_def circular_buffer_create_def circular_buffer_fcreate_def Let_def
        split: if_splits prod.splits sum.splits option.splits)
qed

lemma silent_deleter: "adds silent tr (cb_deleter os b tr)"
proof (cases b)
  case (Some c)
  then show ?thesis
    by (auto simp: cb_deleter_def circular_buffer_destroy_def Let_def adds_syscall'
        intro: adds_trans [OF adds_syscall' adds_syscall'])
qed (simp add: cb_deleter_def)

lemma silent_simps: "silent c \<Longrightarrow> no_fd c \<and> no_recv fd c \<and> no_send fd c"
  by (cases c) simp_all

lemma silent_held: "adds silent tr tr' \<Longrightarrow> held tr' = held tr \<and> closes_ok tr' = closes_ok tr"
  using held_adds [of tr tr'] closes_ok_adds [of tr tr'] adds_mono [of silent tr tr' no_fd] silent_simps by blast

text \<open>Opening a listening socket moves no bytes and opens at most the descriptor it returns.\<close>

fun quiet :: "call \<Rightarrow> bool" where
  "quiet (Recv _ _) = False"
| "quiet (Send _ _) = False"
| "quiet _ = True"

lemma quiet_simps: "quiet c \<Longrightarrow> no_recv fd c \<and> no_send fd c"
  by (cases c) simp_all

lemma silent_quiet: "silent c \<Longrightarrow> quiet c"
  by (cases c) simp_all

lemma quiet_destroy: "adds quiet tr tr' \<Longrightarrow> adds quiet tr (fd_destroy os fd tr')"
  by (erule adds_trans) (simp add: fd_destroy_def adds_syscall')

lemma quiet_nonblocking: "adds quiet tr tr' \<Longrightarrow> adds quiet tr (snd (fd_set_nonblocking os fd tr'))"
  by (erule adds_trans)
    (auto simp: fd_set_nonblocking_def syscall_eq Let_def adds_snoc intro: adds_trans [OF adds_snoc adds_snoc, simplified])

lemma quiet_listen:
  assumes "bind_and_listen os sock addr tr' = (r, tr'')" "adds quiet tr tr'"
  shows "adds quiet tr tr''" "r < 0 \<or> r = sock"
proof -
  have q: "adds quiet tr (snd (syscall os (Bind sock addr) tr'))"
    "adds quiet tr (snd (syscall os (Listen sock 1024) (snd (syscall os (Bind sock addr) tr'))))"
    using assms(2) by (auto intro!: adds_trans [OF _ adds_syscall'])
  show "adds quiet tr tr''" "r < 0 \<or> r = sock"
    using assms(1) q quiet_destroy
    by (auto simp: bind_and_listen_def fd_release_def case_prod_beta Let_def split: if_splits)
qed

definition opens :: "os \<Rightarrow> trace \<Rightarrow> int \<Rightarrow> trace \<Rightarrow> bool" where
  "opens os tr r tr' \<longleftrightarrow> adds quiet tr tr' \<and> closes_ok tr' \<and> held tr' = held tr + own r
     \<and> (fresh_fds os \<longrightarrow> uniq tr \<longrightarrow> uniq tr')"

lemma opensI:
  assumes "adds quiet tr tr'" "closes_ok tr'" "held tr' = held tr + own r"
    and "r < 0 \<or> r = rv (os tr (Socket_new u))"
  shows "opens os tr r tr'"
proof -
  have "uniq tr'" if f: "fresh_fds os" and q: "uniq tr"
  proof (cases "r < 0")
    case True
    then show ?thesis
      using assms(3) q by (simp add: uniq_def own_def owned1_def)
  next
    case False
    then have "r \<in># new_fd (Socket_new u) (rv (os tr (Socket_new u)))"
      using assms(4) by simp
    then have "r \<notin># held tr"
      using f unfolding fresh_fds_def by blast
    then show ?thesis
      using assms(3) q False by (auto simp: uniq_def own_def owned1_def not_in_iff)
  qed
  then show ?thesis
    using assms(1-3) by (simp add: opens_def)
qed

lemma listen_ip_opens:
  assumes "closes_ok tr" "listen_ip os ip port tr = (r, tr')"
  shows "opens os tr r tr'"
proof -
  have 1: "adds quiet tr (snd (syscall os (Socket_new False) tr))"
    by (simp add: adds_syscall')
  note 2 = quiet_nonblocking [OF 1]
  have "adds quiet tr tr'" "r < 0 \<or> r = rv (os tr (Socket_new False))"
    using assms(2) quiet_destroy [OF 1] quiet_destroy [OF 2] quiet_listen [OF _ 2]
    by (auto simp: listen_ip_def fd_of_int_def case_prod_beta Let_def syscall_eq split: if_splits)
  then show ?thesis
    using listen_ip_no_leak [OF assms] by (intro opensI) (simp_all add: own_def owned1_def)
qed

lemma listen_unix_opens:
  assumes "closes_ok tr" "listen_unix os path tr = Inr (r, tr')"
  shows "opens os tr r tr'"
proof -
  have 1: "adds quiet tr (snd (syscall os (Socket_new True) tr))"
    by (simp add: adds_syscall')
  note 2 = quiet_nonblocking [OF 1]
  have 3: "adds quiet tr (snd (syscall os (Unlink path) (snd (fd_set_nonblocking os fd
      (snd (syscall os (Socket_new True) tr))))))" for fd
    by (rule adds_trans [OF 2 adds_syscall']) simp
  have "adds quiet tr tr'" "r < 0 \<or> r = rv (os tr (Socket_new True))"
    using assms(2) quiet_destroy [OF 1] quiet_destroy [OF 2] quiet_destroy [OF 3] quiet_listen [OF _ 3]
    by (auto simp: listen_unix_def fd_of_int_def case_prod_beta Let_def syscall_eq split: if_splits)
  then show ?thesis
    using listen_unix_held [OF assms(1), of path os] assms(2) by (intro opensI) simp_all
qed

end
