(* ===== verification/Net_Loop.thy ===== *)
theory Net_Loop
  imports Call_Frames Event_Dispatch
begin

text \<open>
  The event loop with its listeners: a round of \<^verbatim>\<open>event_dispatch\<close> runs the handlers of the servers and
  connections whose addresses epoll reports, all of them on one sequence of system calls.

  The user's part is a record of parameters: which accepted sockets the accept handler keeps, the
  handlers of each connection, and whether the \<^verbatim>\<open>on_close\<close> of a connection destroys it, the way a
  connection usually ends. Between rounds the user may open a server, make a connection of a socket it
  kept, and destroy listeners.
\<close>

section \<open>State\<close>

text \<open>An object derived from \<^verbatim>\<open>io_listener\<close>. A server has no state but its socket. The field \<open>conn_calls\<close>
  of a connection is set to the common sequence when one of its handlers runs.\<close>

datatype listener = Server int | Conn conn

fun listener_fd :: "listener \<Rightarrow> int" where
  "listener_fd (Server fd) = fd"
| "listener_fd (Conn s) = conn_fd s"

record net =
  net_disp :: "timer list dispatcher"
  net_at :: "u64 \<Rightarrow> listener option"
  net_loose :: "int multiset"
  net_calls :: trace

record handlers =
  h_keeps :: "int \<Rightarrow> u8 list \<Rightarrow> bool"
  h_read :: "u64 \<Rightarrow> read_handler"
  h_write :: "u64 \<Rightarrow> write_handler"
  h_frees :: "u64 \<Rightarrow> bool"

section \<open>A round\<close>

definition ring_of :: "(u64 \<times> ring_buffer) option \<Rightarrow> (u64 \<times> cb_header) option" where
  "ring_of = map_option (\<lambda>(base, rb). (base, rb_hdr rb))"

text \<open>A handler of the connection at \<open>l\<close> returned with state \<open>s\<close>, after it had been closed \<open>n\<close> times before.
  Where \<^verbatim>\<open>on_close\<close> is called it is the last thing the handler does.\<close>

definition settle :: "os \<Rightarrow> handlers \<Rightarrow> u64 \<Rightarrow> nat \<Rightarrow> conn \<Rightarrow> net \<Rightarrow> net" where
  "settle os H l n s w =
     (if n < closed s \<and> h_frees H l
      then w\<lparr>net_at := (net_at w)(l := None),
             net_calls := conn_destruct os (conn_fd s) (ring_of (rcb s)) (ring_of (wcb s)) (conn_calls s)\<rparr>
      else w\<lparr>net_at := (net_at w)(l := Some (Conn s)), net_calls := conn_calls s\<rparr>)"

definition settle_res :: "os \<Rightarrow> handlers \<Rightarrow> u64 \<Rightarrow> nat \<Rightarrow> conn res option \<Rightarrow> net \<Rightarrow> (net \<times> fault option) option" where
  "settle_res os H l n r w =
     (case r of
        None \<Rightarrow> None
      | Some (Inl e) \<Rightarrow> Some (w, Some e)
      | Some (Inr s) \<Rightarrow> Some (settle os H l n s w, None))"

text \<open>One virtual call. A listener that is not there any more is a dangling pointer.\<close>

fun run_callback :: "os \<Rightarrow> handlers \<Rightarrow> callback \<Rightarrow> net \<Rightarrow> (net \<times> fault option) option" where
  "run_callback os H (On_read l) w =
     (case net_at w l of
        None \<Rightarrow> Some (w, Some Undefined)
      | Some (Server fd) \<Rightarrow>
          map_option (\<lambda>(conns, tr, e). (w\<lparr>net_calls := tr, net_loose := net_loose w + kept (h_keeps H) conns\<rparr>, e))
            (server_on_read os (h_keeps H) fd [] (net_calls w))
      | Some (Conn s) \<Rightarrow>
          settle_res os H l (closed s) (conn_on_read os (h_read H l) (s\<lparr>conn_calls := net_calls w\<rparr>)) w)"
| "run_callback os H (On_write l) w =
     (case net_at w l of
        None \<Rightarrow> Some (w, Some Undefined)
      | Some (Server fd) \<Rightarrow> Some (w, None)
      | Some (Conn s) \<Rightarrow>
          settle_res os H l (closed s) (conn_on_write os (h_write H l) (s\<lparr>conn_calls := net_calls w\<rparr>)) w)"
| "run_callback os H (On_loop l) w = Some (w, None)"
| "run_callback os H (On_timeout l) w = Some (w, None)"

text \<open>An exception leaves the round, and with it the events of the batch that were not handled yet.\<close>

fun run_callbacks :: "os \<Rightarrow> handlers \<Rightarrow> callback list \<Rightarrow> net \<Rightarrow> (net \<times> fault option) option" where
  "run_callbacks os H [] w = Some (w, None)"
| "run_callbacks os H (c # cs) w =
     (case run_callback os H c w of
        None \<Rightarrow> None
      | Some (w, Some e) \<Rightarrow> Some (w, Some e)
      | Some (w, None) \<Rightarrow> run_callbacks os H cs w)"

definition net_round ::
    "os \<Rightarrow> (u64 \<Rightarrow> time_point \<Rightarrow> bool) \<Rightarrow> (trace \<Rightarrow> time_point) \<Rightarrow> handlers \<Rightarrow> int \<Rightarrow> net \<Rightarrow>
     (net \<times> fault option) option" where
  "net_round os again clock H timeout w =
     (case run_once os timer_list again clock timeout (net_disp w) (net_calls w) of
        (None, tr) \<Rightarrow> None
      | (Some (Inl e), tr) \<Rightarrow> Some (w\<lparr>net_calls := tr\<rparr>, Some e)
      | (Some (Inr (cs, d)), tr) \<Rightarrow> run_callbacks os H cs (w\<lparr>net_disp := d, net_calls := tr\<rparr>))"

section \<open>Connecting\<close>

text \<open>A new connection object at \<open>l\<close> takes over a socket the program holds and is registered. The rings
  are anonymous mappings, which read as zeros. The history starts where the descriptor number is now.\<close>

definition fresh_cells :: "(u64 \<times> cb_header) option \<Rightarrow> (u64 \<times> ring_buffer) option" where
  "fresh_cells = map_option (\<lambda>(base, hdr). (base, \<lparr>rb_hdr = hdr, rb_cells = replicate (unat (capacity hdr)) 0\<rparr>))"

definition new_connection ::
    "int \<Rightarrow> (u64 \<times> cb_header) option \<Rightarrow> (u64 \<times> cb_header) option \<Rightarrow> trace \<Rightarrow> conn" where
  "new_connection sock r w tr =
     \<lparr>conn_fd = sock, rcb = fresh_cells r, wcb = fresh_cells w, conn_calls = tr, closed = 0, shown = [],
      eaten = received sock tr, made = transmitted sock tr\<rparr>"

definition net_connect ::
    "os \<Rightarrow> u64 \<Rightarrow> u64 \<Rightarrow> int \<Rightarrow> size_t \<Rightarrow> size_t \<Rightarrow> event \<Rightarrow> net \<Rightarrow> (net \<times> fault option) option" where
  "net_connect os page l sock rsize wsize ev w =
     (if net_at w l \<noteq> None \<or> sock \<notin># net_loose w then Some (w, Some Undefined)
      else case conn_construct os page sock rsize wsize (net_calls w) of
        (Inl e, tr) \<Rightarrow>
          Some (if e = Runtime_error then w\<lparr>net_loose := net_loose w - {#sock#}, net_calls := tr\<rparr> else w, Some e)
      | (Inr (r, wr), tr) \<Rightarrow>
          let w = w\<lparr>net_loose := net_loose w - {#sock#}, net_at := (net_at w)(l := Some (Conn (new_connection sock r wr tr)))\<rparr>;
              (reg, tr) = register_io_listener os (epoll_fd (net_disp w)) sock l ev tr
          in Some (w\<lparr>net_calls := tr\<rparr>, case reg of Inl e \<Rightarrow> Some e | Inr _ \<Rightarrow> None))"

section \<open>Serving and discarding\<close>

text \<open>A server object of the socket \<open>listen\<close> returned is made at \<open>l\<close> and registered; if \<open>listen\<close> failed the
  program goes on without it.\<close>

definition server_new :: "int \<Rightarrow> listener" where
  "server_new sock = Server (fd_of_int sock)"

definition net_serve :: "os \<Rightarrow> u64 \<Rightarrow> (int \<times> trace) res \<Rightarrow> event \<Rightarrow> net \<Rightarrow> (net \<times> fault option) option" where
  "net_serve os l opened ev w =
     (if net_at w l \<noteq> None then Some (w, Some Undefined)
      else case opened of
        Inl e \<Rightarrow> Some (w, Some e)
      | Inr (sock, tr) \<Rightarrow>
          if sock < 0 then Some (w\<lparr>net_calls := tr\<rparr>, None)
          else let (reg, tr) = register_io_listener os (epoll_fd (net_disp w)) sock l ev tr
            in Some (w\<lparr>net_at := (net_at w)(l := Some (server_new sock)), net_calls := tr\<rparr>,
                 case reg of Inl e \<Rightarrow> Some e | Inr _ \<Rightarrow> None))"

definition net_discard :: "os \<Rightarrow> u64 \<Rightarrow> net \<Rightarrow> (net \<times> fault option) option" where
  "net_discard os l w =
     (case net_at w l of
        None \<Rightarrow> Some (w, Some Undefined)
      | Some (Server fd) \<Rightarrow>
          Some (w\<lparr>net_at := (net_at w)(l := None), net_calls := fd_destroy os fd (net_calls w)\<rparr>, None)
      | Some (Conn s) \<Rightarrow>
          Some (w\<lparr>net_at := (net_at w)(l := None),
                  net_calls := conn_destruct os (conn_fd s) (ring_of (rcb s)) (ring_of (wcb s)) (net_calls w)\<rparr>, None))"

text \<open>What the user's program does, one step after the other, until a fault.\<close>

datatype net_op =
    Round int
  | Connect u64 int size_t size_t event
  | Serve u64 u32 "16 word" event
  | Serve_unix u64 cstring event
  | Discard u64

fun net_step ::
    "os \<Rightarrow> u64 \<Rightarrow> (u64 \<Rightarrow> time_point \<Rightarrow> bool) \<Rightarrow> (trace \<Rightarrow> time_point) \<Rightarrow> handlers \<Rightarrow> net_op \<Rightarrow> net \<Rightarrow>
     (net \<times> fault option) option" where
  "net_step os page again clock H (Round timeout) w = net_round os again clock H timeout w"
| "net_step os page again clock H (Connect l sock rsize wsize ev) w = net_connect os page l sock rsize wsize ev w"
| "net_step os page again clock H (Serve l ip port ev) w =
     net_serve os l (Inr (listen_ip os ip port (net_calls w))) ev w"
| "net_step os page again clock H (Serve_unix l path ev) w =
     net_serve os l (listen_unix os path (net_calls w)) ev w"
| "net_step os page again clock H (Discard l) w = net_discard os l w"

fun net_run ::
    "os \<Rightarrow> u64 \<Rightarrow> (u64 \<Rightarrow> time_point \<Rightarrow> bool) \<Rightarrow> (trace \<Rightarrow> time_point) \<Rightarrow> handlers \<Rightarrow> net_op list \<Rightarrow> net \<Rightarrow>
     (net \<times> fault option) option" where
  "net_run os page again clock H [] w = Some (w, None)"
| "net_run os page again clock H (x # xs) w =
     (case net_step os page again clock H x w of
        None \<Rightarrow> None
      | Some (w, Some e) \<Rightarrow> Some (w, Some e)
      | Some (w, None) \<Rightarrow> net_run os page again clock H xs w)"

section \<open>The invariant\<close>

definition conn_ok :: "conn \<Rightarrow> bool" where
  "conn_ok s \<longleftrightarrow> (rcb s \<noteq> None \<longrightarrow> in_ok s) \<and> (wcb s \<noteq> None \<longrightarrow> out_ok s)"

definition listener_fds :: "(u64 \<Rightarrow> listener option) \<Rightarrow> int multiset" where
  "listener_fds m = (\<Sum>l \<in> dom m. own (listener_fd (the (m l))))"

text \<open>The descriptors open are those of epoll, of the listeners and of the sockets kept loose, each once;
  and every connection accounts for the bytes of its socket.\<close>

definition net_ok :: "net \<Rightarrow> bool" where
  "net_ok w \<longleftrightarrow> finite (dom (net_at w)) \<and> closes_ok (net_calls w) \<and> uniq (net_calls w)
     \<and> held (net_calls w) = own (epoll_fd (net_disp w)) + listener_fds (net_at w) + net_loose w
     \<and> (\<forall>l s. net_at w l = Some (Conn s) \<longrightarrow> 0 \<le> conn_fd s \<and> conn_ok (s\<lparr>conn_calls := net_calls w\<rparr>))"

definition timers_ok :: "(trace \<Rightarrow> time_point) \<Rightarrow> net \<Rightarrow> bool" where
  "timers_ok clock w \<longleftrightarrow>
     by_time (timeouts (net_disp w)) \<and> (\<forall>t \<in> set (timeouts (net_disp w)). \<forall>tr. armed (clock tr) t)"

definition kernel_ok :: "os \<Rightarrow> bool" where
  "kernel_ok os \<longleftrightarrow> recv_ok os \<and> send_ok os \<and> fresh_fds os
     \<and> (\<forall>fd. (\<exists>k. recv_bound os fd k) \<and> (\<exists>k. send_bound os fd k) \<and> (\<exists>k. backlog_bound os fd k))"

definition handlers_ok :: "handlers \<Rightarrow> bool" where
  "handlers_ok H \<longleftrightarrow> (\<forall>l. writes_ok (h_write H l))"

lemma listener_fds_upd:
  "m l = Some x \<Longrightarrow> listener_fd y = listener_fd x \<Longrightarrow> listener_fds (m(l := Some y)) = listener_fds m"
  unfolding listener_fds_def by (rule sum.cong) auto

lemma listener_fds_new:
  "finite (dom m) \<Longrightarrow> m l = None \<Longrightarrow> listener_fds (m(l := Some y)) = own (listener_fd y) + listener_fds m"
  unfolding listener_fds_def
  by (subst dom_fun_upd) (auto simp: domIff intro!: sum.cong)

lemma listener_fds_del:
  "finite (dom m) \<Longrightarrow> m l = Some x \<Longrightarrow> listener_fds m = own (listener_fd x) + listener_fds (m(l := None))"
  using listener_fds_new [of "m(l := None)" l x] by (simp add: fun_upd_idem)

lemma fds_distinct:
  assumes "net_ok w" "net_at w l = Some x" "net_at w l' = Some y" "l \<noteq> l'" "0 \<le> listener_fd x"
  shows "listener_fd x \<noteq> listener_fd y"
proof
  assume eq: "listener_fd x = listener_fd y"
  have "finite (dom (net_at w))" "finite (dom ((net_at w)(l := None)))"
    using assms(1) by (auto simp: net_ok_def)
  then have "listener_fds (net_at w)
      = own (listener_fd x) + (own (listener_fd y) + listener_fds ((net_at w)(l := None, l' := None)))"
    using listener_fds_del [of "net_at w" l x] listener_fds_del [of "(net_at w)(l := None)" l' y] assms(2-4)
    by simp
  then have "2 \<le> count (held (net_calls w)) (listener_fd x)"
    using assms(1,5) eq by (simp add: net_ok_def own_def)
  then show False
    using assms(1) by (auto simp: net_ok_def uniq_def not_le [symmetric] dest: spec [where x = "listener_fd x"])
qed

text \<open>A connection is not concerned by calls on other descriptors.\<close>

lemma conn_ok_other:
  assumes "conn_ok (s\<lparr>conn_calls := tr\<rparr>)" "adds P tr tr'"
    and "\<And>c. P c \<Longrightarrow> no_recv (conn_fd s) c \<and> no_send (conn_fd s) c"
  shows "conn_ok (s\<lparr>conn_calls := tr'\<rparr>)"
proof -
  have "received (conn_fd s) tr' = received (conn_fd s) tr" "transmitted (conn_fd s) tr' = transmitted (conn_fd s) tr"
    using assms(2,3) adds_mono [of P tr tr'] received_adds transmitted_adds by blast+
  then show ?thesis
    using assms(1) by (auto simp: conn_ok_def in_ok_def out_ok_def split: option.splits)
qed

lemma conn_okD:
  assumes "net_ok w" "net_at w l = Some (Conn s)"
  shows "0 \<le> conn_fd s" "conn_ok (s\<lparr>conn_calls := net_calls w\<rparr>)"
  using assms by (auto simp: net_ok_def)

lemma others_ok:
  assumes "net_ok w" "net_at w l = Some x" "0 \<le> listener_fd x" "adds P (net_calls w) tr"
    and "\<And>c fd. P c \<Longrightarrow> fd \<noteq> listener_fd x \<Longrightarrow> no_recv fd c \<and> no_send fd c"
    and "net_at w l' = Some (Conn s)" "l' \<noteq> l"
  shows "conn_ok (s\<lparr>conn_calls := tr\<rparr>)"
proof -
  have ne: "conn_fd s \<noteq> listener_fd x"
    using fds_distinct [OF assms(1,2,6)] assms(3,7) by auto
  show ?thesis
    by (rule conn_ok_other [OF conn_okD(2) [OF assms(1,6)] assms(4)]) (rule assms(5) [OF _ ne])
qed

lemma uniq_adds: "adds no_fd tr tr' \<Longrightarrow> uniq tr' = uniq tr"
  by (simp add: uniq_def held_adds)

lemma silent_uniq: "adds silent tr tr' \<Longrightarrow> uniq tr' = uniq tr"
  using silent_held [of tr tr'] by (simp add: uniq_def)

text \<open>A handler's calls are of one kind, on its own socket.\<close>

definition own_kind :: "(int \<Rightarrow> call \<Rightarrow> bool) \<Rightarrow> bool" where
  "own_kind P \<longleftrightarrow> (\<forall>fd c. P fd c \<longrightarrow> no_fd c \<and> (\<forall>f. f \<noteq> fd \<longrightarrow> no_recv f c \<and> no_send f c))"

lemma own_kinds: "own_kind is_recv" "own_kind is_send"
proof -
  have "is_recv fd c \<Longrightarrow> no_fd c \<and> (\<forall>f. f \<noteq> fd \<longrightarrow> no_recv f c \<and> no_send f c)"
    "is_send fd c \<Longrightarrow> no_fd c \<and> (\<forall>f. f \<noteq> fd \<longrightarrow> no_recv f c \<and> no_send f c)" for fd c
    by (cases c; simp)+
  then show "own_kind is_recv" "own_kind is_send"
    by (auto simp: own_kind_def)
qed

lemma put_back_ok:
  assumes w: "net_ok w" and at: "net_at w l = Some (Conn s0)" and fd: "conn_fd s = conn_fd s0"
    and c: "adds (P (conn_fd s0)) (net_calls w) (conn_calls s)" "own_kind P" and ok: "conn_ok s"
  shows "net_ok (w\<lparr>net_at := (net_at w)(l := Some (Conn s)), net_calls := conn_calls s\<rparr>)"
proof -
  have nf: "adds no_fd (net_calls w) (conn_calls s)"
    by (rule adds_mono [OF c(1)]) (use c(2) in \<open>simp add: own_kind_def\<close>)
  have "conn_ok (t\<lparr>conn_calls := conn_calls s\<rparr>)" if "net_at w l' = Some (Conn t)" "l' \<noteq> l" for l' t
    by (rule others_ok [OF w at _ c(1) _ that]) (use conn_okD(1) [OF w at] c(2) in \<open>auto simp: own_kind_def\<close>)
  moreover have "s\<lparr>conn_calls := conn_calls s\<rparr> = s"
    by simp
  ultimately show ?thesis
    using w ok fd at held_adds [OF nf] closes_ok_adds [OF nf] uniq_adds [OF nf] conn_okD(1) [OF w at]
      listener_fds_upd [of "net_at w" l "Conn s0" "Conn s"]
    by (auto simp: net_ok_def)
qed

text \<open>Rings are made or removed, then a descriptor of the program is closed.\<close>

lemma closing_ok:
  assumes w: "net_ok w" and s: "adds silent (net_calls w) t" and own: "own fd \<subseteq># held (net_calls w)"
  shows "held (fd_destroy os fd t) = held (net_calls w) - own fd" "closes_ok (fd_destroy os fd t)"
    "uniq (fd_destroy os fd t)"
    "net_at w l = Some (Conn c) \<Longrightarrow> conn_ok (c\<lparr>conn_calls := fd_destroy os fd t\<rparr>)"
proof -
  note h = silent_held [OF s]
  show "held (fd_destroy os fd t) = held (net_calls w) - own fd" "closes_ok (fd_destroy os fd t)"
    using fd_destroy_held [of t fd os] h w own by (simp_all add: own_def net_ok_def)
  show "uniq (fd_destroy os fd t)"
    by (rule uniq_destroy, rule uniq_sub [of "net_calls w"]) (use w h in \<open>auto simp: net_ok_def\<close>)
  show "conn_ok (c\<lparr>conn_calls := fd_destroy os fd t\<rparr>)" if "net_at w l = Some (Conn c)"
  proof -
    let ?Q = "\<lambda>c. silent c \<or> c = Close fd"
    have "adds ?Q (net_calls w) t" "adds ?Q t (fd_destroy os fd t)"
      using adds_mono [OF s, of ?Q] by (simp_all add: fd_destroy_def adds_syscall')
    then have a: "adds ?Q (net_calls w) (fd_destroy os fd t)"
      by (rule adds_trans)
    show ?thesis
      by (rule conn_ok_other [OF conn_okD(2) [OF w that] a]) (use silent_simps in auto)
  qed
qed

lemma destroy_conn_ok:
  assumes w: "net_ok w" and at: "net_at w l = Some (Conn s)"
  shows "net_ok (w\<lparr>net_at := (net_at w)(l := None),
    net_calls := conn_destruct os (conn_fd s) r wr (net_calls w)\<rparr>)"
proof -
  let ?t = "cb_deleter os r (cb_deleter os wr (net_calls w))" and ?m = "(net_at w)(l := None)"
  have s: "adds silent (net_calls w) ?t"
    by (rule adds_trans [OF silent_deleter silent_deleter])
  have tr: "conn_destruct os (conn_fd s) r wr (net_calls w) = fd_destroy os (conn_fd s) ?t"
    by (simp add: conn_destruct_def)
  have fin: "finite (dom (net_at w))" and held: "held (net_calls w)
      = own (epoll_fd (net_disp w)) + (own (conn_fd s) + listener_fds ?m) + net_loose w"
    using w listener_fds_del [of "net_at w" l, OF _ at] by (simp_all add: net_ok_def)
  show ?thesis
    using fin conn_okD(1) [OF w] closing_ok [OF w s, where os = os and fd = "conn_fd s"] held unfolding tr
    by (auto simp: net_ok_def)
qed

lemma settle_ok:
  assumes w: "net_ok w" and at: "net_at w l = Some (Conn s0)" and fd: "conn_fd s = conn_fd s0"
    and c: "adds (P (conn_fd s0)) (net_calls w) (conn_calls s)" "own_kind P" and ok: "conn_ok s"
  shows "net_ok (settle os H l n s w)"
proof -
  let ?w = "w\<lparr>net_at := (net_at w)(l := Some (Conn s)), net_calls := conn_calls s\<rparr>"
  have w': "net_ok ?w"
    by (rule put_back_ok [OF assms])
  have "net_ok (?w\<lparr>net_at := (net_at ?w)(l := None),
      net_calls := conn_destruct os (conn_fd s) (ring_of (rcb s)) (ring_of (wcb s)) (net_calls ?w)\<rparr>)"
    by (rule destroy_conn_ok [OF w']) simp
  then show ?thesis
    using w' by (simp add: settle_def)
qed

section \<open>Every step keeps it\<close>

definition handled :: "(int \<Rightarrow> call \<Rightarrow> bool) \<Rightarrow> conn \<Rightarrow> conn res option \<Rightarrow> bool" where
  "handled P s x \<longleftrightarrow> (\<exists>r. x = Some r \<and> own_calls P s r \<and> (case r of Inl e \<Rightarrow> e = Assertion | Inr s' \<Rightarrow> conn_ok s'))"

lemma handle_read:
  assumes "kernel_ok os" "conn_ok s"
  shows "handled is_recv s (conn_on_read os h s)"
proof (cases "rcb s")
  case None
  then show ?thesis
    by (simp add: handled_def conn_on_read.simps [of os h s])
next
  case (Some x)
  obtain k where k: "recv_ok os" "recv_bound os (conn_fd s) k"
    using assms(1) by (auto simp: kernel_ok_def)
  have "in_ok s"
    using assms(2) Some by (simp add: conn_ok_def)
  then obtain s' where s': "conn_on_read os h s = Some (Inr s')" "in_ok s'" "wcb s' = wcb s" "made s' = made s"
      "conn_fd s' = conn_fd s"
    using conn_on_read_ok [OF k] by blast
  have c: "own_calls is_recv s (Inr s')"
    by (rule conn_on_read_calls [OF s'(1)])
  have "is_recv fd c \<Longrightarrow> no_send fd c" for fd c
    by (cases c) simp_all
  then have "transmitted (conn_fd s) (conn_calls s') = transmitted (conn_fd s) (conn_calls s)"
    using c by (intro transmitted_adds adds_mono [of "is_recv (conn_fd s)" _ _ "no_send (conn_fd s)"]) simp_all
  then have "conn_ok s'"
    using assms(2) s'(2-5) by (auto simp: conn_ok_def out_ok_def split: option.splits)
  then show ?thesis
    using s'(1) c by (simp add: handled_def)
qed

lemma handle_write:
  assumes "kernel_ok os" "writes_ok h" "conn_ok s"
  shows "handled is_send s (conn_on_write os h s)"
proof (cases "wcb s")
  case None
  then show ?thesis
    by (simp add: handled_def conn_on_write.simps [of os h s])
next
  case (Some x)
  obtain k where k: "send_ok os" "send_bound os (conn_fd s) k"
    using assms(1) by (auto simp: kernel_ok_def)
  have "out_ok s"
    using assms(3) Some by (simp add: conn_ok_def)
  then obtain s' where s': "conn_on_write os h s = Some (Inr s')" "out_ok s'" "rcb s' = rcb s" "eaten s' = eaten s"
      "conn_fd s' = conn_fd s"
    using conn_on_write_ok [OF k(1) assms(2) k(2)] by blast
  have c: "own_calls is_send s (Inr s')"
    by (rule conn_on_write_calls [OF s'(1)])
  have "is_send fd c \<Longrightarrow> no_recv fd c" for fd c
    by (cases c) simp_all
  then have "received (conn_fd s) (conn_calls s') = received (conn_fd s) (conn_calls s)"
    using c by (intro received_adds adds_mono [of "is_send (conn_fd s)" _ _ "no_recv (conn_fd s)"]) simp_all
  then have "conn_ok s'"
    using assms(3) s'(2-5) by (auto simp: conn_ok_def in_ok_def split: option.splits)
  then show ?thesis
    using s'(1) c by (simp add: handled_def)
qed

text \<open>\<open>kept_up w x\<close>: the step returns, in a state that satisfies the invariant and has the same loop.\<close>

definition kept_up :: "net \<Rightarrow> (net \<times> fault option) option \<Rightarrow> bool" where
  "kept_up w x \<longleftrightarrow> (\<exists>w' e. x = Some (w', e) \<and> net_ok w' \<and> net_disp w' = net_disp w)"

lemma kept_upI: "net_ok w \<Longrightarrow> kept_up w (Some (w, e))"
  by (simp add: kept_up_def)

lemma settle_res_ok:
  assumes "net_ok w" "net_at w l = Some (Conn s)" "handled P (s\<lparr>conn_calls := net_calls w\<rparr>) x" "own_kind P"
  shows "kept_up w (settle_res os H l n x w)"
proof -
  obtain r where r: "x = Some r" "own_calls P (s\<lparr>conn_calls := net_calls w\<rparr>) r"
      "case r of Inl e \<Rightarrow> e = Assertion | Inr s' \<Rightarrow> conn_ok s'"
    using assms(3) unfolding handled_def by blast
  show ?thesis
  proof (cases r)
    case (Inr s')
    have "net_ok (settle os H l n s' w)"
      by (rule settle_ok [OF assms(1,2) _ _ assms(4)]) (use r Inr in auto)
    moreover have "net_disp (settle os H l n s' w) = net_disp w"
      by (simp add: settle_def)
    ultimately show ?thesis
      using r(1) Inr by (simp add: kept_up_def settle_res_def)
  qed (use r(1) assms(1) in \<open>simp add: settle_res_def kept_upI\<close>)
qed

lemma accept_ok:
  assumes k: "kernel_ok os" and w: "net_ok w" and at: "net_at w l = Some (Server fd)"
  shows "kept_up w (run_callback os H (On_read l) w)"
proof -
  obtain n where n: "backlog_bound os fd n" and fresh: "fresh_fds os"
    using k by (auto simp: kernel_ok_def)
  have cl: "closes_ok (net_calls w)"
    using w by (simp add: net_ok_def)
  obtain conns tr e where s: "server_on_read os (h_keeps H) fd [] (net_calls w) = Some (conns, tr, e)"
      "held tr = held (net_calls w) + kept (h_keeps H) conns" "closes_ok tr"
    using server_on_read_ok [OF n cl, of "h_keeps H" "[]"] by auto
  have c: "adds (is_accept fd) (net_calls w) tr" "uniq tr"
    using server_calls [OF s(1)] fresh w by (auto simp: net_ok_def)
  have "is_accept fd c \<Longrightarrow> no_recv f c \<and> no_send f c" for f c
    by (cases c) simp_all
  then have "conn_ok (t\<lparr>conn_calls := tr\<rparr>)" if "net_at w l' = Some (Conn t)" for l' t
    by (intro conn_ok_other [OF conn_okD(2) [OF w that] c(1)])
  then have "net_ok (w\<lparr>net_calls := tr, net_loose := net_loose w + kept (h_keeps H) conns\<rparr>)"
    using w s(2,3) c(2) by (simp add: net_ok_def ac_simps)
  then show ?thesis
    using at s(1) by (simp add: kept_up_def)
qed

lemma run_callback_ok:
  assumes "kernel_ok os" "handlers_ok H" "net_ok w"
  shows "kept_up w (run_callback os H c w)"
proof (cases "\<exists>l s. net_at w l = Some (Conn s) \<and> c \<in> {On_read l, On_write l}")
  case True
  then obtain l s where at: "net_at w l = Some (Conn s)" and c: "c \<in> {On_read l, On_write l}"
    by blast
  note ok = conn_okD(2) [OF assms(3) at]
  have "writes_ok (h_write H l)"
    using assms(2) by (simp add: handlers_ok_def)
  from settle_res_ok [OF assms(3) at handle_write [OF assms(1) this ok] own_kinds(2)]
    settle_res_ok [OF assms(3) at handle_read [OF assms(1) ok] own_kinds(1)]
  show ?thesis
    using at c by auto
next
  case False
  show ?thesis
  proof (cases "\<exists>l fd. net_at w l = Some (Server fd) \<and> c = On_read l")
    case True
    then show ?thesis
      using accept_ok [OF assms(1,3)] by blast
  next
    case none: False
    then show ?thesis
      using False kept_upI [OF assms(3)] by (cases c) (auto split: option.splits listener.splits)
  qed
qed

lemma run_callbacks_ok:
  assumes "kernel_ok os" "handlers_ok H" "net_ok w"
  shows "kept_up w (run_callbacks os H cs w)"
  using assms(3)
proof (induction cs arbitrary: w)
  case (Cons c cs)
  obtain w' e where w': "run_callback os H c w = Some (w', e)" "net_ok w'" "net_disp w' = net_disp w"
    using run_callback_ok [OF assms(1,2) Cons.prems] unfolding kept_up_def by blast
  show ?case
    using w' Cons.IH [OF w'(2)] by (cases e) (auto simp: kept_up_def)
qed (simp add: kept_upI)

text \<open>A round waits once and then only calls back; its timers stay well-formed.\<close>

lemma armed_rearm: "armed now' (rearm now t) = armed now' t"
  by (simp add: armed_def rearm_def)

text \<open>The listeners a callback needs, and those a wait reports.\<close>

fun targets :: "callback \<Rightarrow> u64 list" where
  "targets (On_read l) = [l]"
| "targets (On_write l) = [l]"
| "targets _ = []"

definition wait_result :: "reply \<Rightarrow> (callback list \<times> timer list dispatcher) res \<Rightarrow> bool" where
  "wait_result r x \<longleftrightarrow>
     (case x of
        Inl e \<Rightarrow> e = Undefined \<longrightarrow> length (evs r) < nat (rv r)
      | Inr (cs, d) \<Rightarrow> concat (map targets cs) = []
          \<or> concat (map targets cs) = concat (map targets (concat (map io_callbacks (take (nat (rv r)) (evs r))))))"

lemma run_once_total:
  assumes "timers_ok clock w"
  obtains x tr where "run_once os timer_list again clock timeout (net_disp w) (net_calls w) = (Some x, tr)"
    "adds silent (net_calls w) tr"
    "\<And>cs d. x = Inr (cs, d) \<Longrightarrow> epoll_fd d = epoll_fd (net_disp w) \<and> timers_ok clock (w\<lparr>net_disp := d, net_calls := tr\<rparr>)"
    "wait_result (os (net_calls w) (Epoll_wait (epoll_fd (net_disp w)) max_events timeout)) x"
proof -
  let ?d = "net_disp w"
  obtain r tr where r: "syscall os (Epoll_wait (epoll_fd ?d) max_events timeout) (net_calls w) = (r, tr)"
    by fastforce
  have a: "adds silent (net_calls w) tr"
    using adds_syscall [OF r, of silent] by simp
  have q: "by_time (timeouts ?d)" "\<forall>t \<in># mset (timeouts ?d). armed (clock tr) t"
    using assms by (simp_all add: timers_ok_def)
  obtain ws :: "timer list" and q' where f: "dispatch_timeout timer_list again (clock tr) [] (timeouts ?d) = Some (Inr (map t_listener ws, q'))"
      "by_time q'" "mset q' = filter_mset (\<lambda>t. \<not> due (clock tr) t) (mset (timeouts ?d))
        + image_mset (rearm (clock tr)) (filter_mset (\<lambda>t. due (clock tr) t \<and> again (t_listener t) (clock tr)) (mset (timeouts ?d)))"
    using tl.dispatch_fires [OF q, of again "[]"] by auto
  have "t \<in># mset q' \<Longrightarrow> armed (clock tr') t" for t tr'
    using assms unfolding f(3) by (auto simp: timers_ok_def armed_rearm)
  then have t: "timers_ok clock (w\<lparr>net_disp := ?d\<lparr>timeouts := q'\<rparr>, net_calls := tr\<rparr>)"
      "timers_ok clock (w\<lparr>net_disp := ?d, net_calls := tr\<rparr>)"
    using f(2) assms by (simp_all add: timers_ok_def)
  have "\<exists>x. run_once os timer_list again clock timeout ?d (net_calls w) = (Some x, tr)
      \<and> (\<forall>cs d. x = Inr (cs, d) \<longrightarrow> d = ?d \<or> d = ?d\<lparr>timeouts := q'\<rparr>) \<and> wait_result r x"
    using r f(1) by (auto simp: run_once_def wait_result_def on_loop_def Let_def)
  then obtain x where x: "run_once os timer_list again clock timeout ?d (net_calls w) = (Some x, tr)"
      "\<forall>cs d. x = Inr (cs, d) \<longrightarrow> d = ?d \<or> d = ?d\<lparr>timeouts := q'\<rparr>" "wait_result r x"
    by blast
  show ?thesis
  proof (rule that [OF x(1) a])
    show "epoll_fd d = epoll_fd ?d \<and> timers_ok clock (w\<lparr>net_disp := d, net_calls := tr\<rparr>)" if "x = Inr (cs, d)" for cs d
      using x(2) that t by auto
    show "wait_result (os (net_calls w) (Epoll_wait (epoll_fd ?d) max_events timeout)) x"
      using x(3) r by (simp add: syscall_eq)
  qed
qed

lemma net_silent:
  assumes w: "net_ok w" and a: "adds silent (net_calls w) tr" and d: "epoll_fd d = epoll_fd (net_disp w)"
  shows "net_ok (w\<lparr>net_disp := d, net_calls := tr\<rparr>)"
proof -
  have "conn_ok (s\<lparr>conn_calls := tr\<rparr>)" if "net_at w l = Some (Conn s)" for l s
    by (rule conn_ok_other [OF conn_okD(2) [OF w that] a]) (simp add: silent_simps)
  then show ?thesis
    using w d silent_held [OF a] silent_uniq [OF a] by (auto simp: net_ok_def)
qed

lemma net_round_ok:
  assumes "kernel_ok os" "handlers_ok H" "net_ok w" "timers_ok clock w"
  shows "\<exists>w' e. net_round os again clock H timeout w = Some (w', e) \<and> net_ok w' \<and> timers_ok clock w'
    \<and> epoll_fd (net_disp w') = epoll_fd (net_disp w)"
proof -
  obtain x tr where x: "run_once os timer_list again clock timeout (net_disp w) (net_calls w) = (Some x, tr)"
    "adds silent (net_calls w) tr"
    "\<And>cs d. x = Inr (cs, d) \<Longrightarrow> epoll_fd d = epoll_fd (net_disp w) \<and> timers_ok clock (w\<lparr>net_disp := d, net_calls := tr\<rparr>)"
    by (rule run_once_total [OF assms(4), of os again timeout]) (rule that)
  show ?thesis
  proof (cases x)
    case (Inl e)
    then show ?thesis
      using x(1) net_silent [OF assms(3) x(2), of "net_disp w"] assms(4)
      by (simp add: net_round_def timers_ok_def)
  next
    case (Inr y)
    obtain cs d where y: "y = (cs, d)"
      by fastforce
    note d = x(3) [unfolded Inr y, OF refl]
    have "net_ok (w\<lparr>net_disp := d, net_calls := tr\<rparr>)"
      by (rule net_silent [OF assms(3) x(2)]) (use d in simp)
    from run_callbacks_ok [OF assms(1,2) this, of cs] show ?thesis
      using x(1) Inr y d by (auto simp: net_round_def kept_up_def timers_ok_def)
  qed
qed

text \<open>A ring size the library can work with: a power of two and a multiple of the page size, or none.\<close>

definition ring_size_ok :: "u64 \<Rightarrow> size_t \<Rightarrow> bool" where
  "ring_size_ok page n \<longleftrightarrow> n = 0 \<or> pow2 n \<and> unat page dvd unat n"

lemma round_up_id:
  assumes "pow2 page" "pow2 n" "unat page dvd unat n"
  shows "(n + (page - 1)) AND NOT (page - 1) = n"
proof -
  let ?c = "(n + (page - 1)) AND NOT (page - 1)"
  have "unat n + unat page \<le> 2 ^ 64"
    using cap_bounds(2) [OF assms(1)] cap_bounds(2) [OF assms(2)] by linarith
  note r = round_up_page [OF assms(1) this]
  have "unat page dvd unat ?c - unat n"
    using r(1) assms(3) by (rule dvd_diff_nat)
  moreover have "unat ?c - unat n < unat page" "unat n \<le> unat ?c"
    using r(2,3) by (simp_all add: word_le_nat_alt)
  ultimately have "unat ?c = unat n"
    by (auto dest: dvd_imp_le)
  then show ?thesis
    by (simp only: word_unat_eq_iff)
qed

lemma create_cb_fresh:
  assumes c: "create_cb os page n tr = (Inr b, tr')" and "pow2 page" "ring_size_ok page n" "b = Some (base, hdr)"
  shows "ring_ok \<lparr>rb_hdr = hdr, rb_cells = replicate (unat (capacity hdr)) 0\<rparr>"
    "rb_stored \<lparr>rb_hdr = hdr, rb_cells = replicate (unat (capacity hdr)) 0\<rparr> = []"
proof -
  have n: "pow2 n" "unat page dvd unat n"
    using c assms(3,4) by (auto simp: create_cb_def ring_size_ok_def)
  have "hdr = \<lparr>r_idx = 0, w_idx = 0, capacity = n, private_size = 0, page_mask = page - 1, flag = 0, cb_name = []\<rparr>"
    using c assms(4) fcreate_Some [of os page "- 1" n 0 0 tr base hdr] round_up_id [OF assms(2) n]
    by (auto simp: create_cb_def circular_buffer_create_def Let_def split: if_splits prod.splits sum.splits option.splits)
  then show "ring_ok \<lparr>rb_hdr = hdr, rb_cells = replicate (unat (capacity hdr)) 0\<rparr>"
    "rb_stored \<lparr>rb_hdr = hdr, rb_cells = replicate (unat (capacity hdr)) 0\<rparr> = []"
    using n(1) by (simp_all add: ring_ok_def cb_ok_def readable_size_def rb_stored_def ring_read_def)
qed

lemma conn_construct_parts:
  assumes "conn_construct os page sock rsize wsize tr = (x, tr')" "pow2 page" "ring_size_ok page rsize" "ring_size_ok page wsize"
  shows "x = Inr (r, w) \<Longrightarrow> adds silent tr tr' \<and> conn_ok (new_connection sock r w tr'')"
    "x = Inl Runtime_error \<Longrightarrow> \<exists>t. adds silent tr t \<and> tr' = fd_destroy os sock t"
proof -
  obtain r1 tr1 where c1: "create_cb os page rsize tr = (r1, tr1)"
    by fastforce
  obtain r2 tr2 where c2: "create_cb os page wsize tr1 = (r2, tr2)"
    by fastforce
  have s: "adds silent tr tr1" "adds silent tr tr2"
    using silent_create_cb [OF c1] silent_create_cb [OF c2] by (auto intro: adds_trans)
  show "adds silent tr tr' \<and> conn_ok (new_connection sock r w tr'')" if "x = Inr (r, w)"
  proof -
    have "r1 = Inr r" "r2 = Inr w" "tr' = tr2"
      using assms(1) that c1 c2 by (auto simp: conn_construct_def split: sum.splits)
    then show ?thesis
      using s create_cb_fresh [OF c1 [unfolded \<open>r1 = Inr r\<close>] assms(2,3)]
        create_cb_fresh [OF c2 [unfolded \<open>r2 = Inr w\<close>] assms(2,4)]
      by (auto simp: conn_ok_def in_ok_def out_ok_def new_connection_def fresh_cells_def simp del: length_rb_stored)
  qed
  show "\<exists>t. adds silent tr t \<and> tr' = fd_destroy os sock t" if "x = Inl Runtime_error"
    using assms(1) that c1 c2 s adds_trans [OF s(2) silent_deleter]
    by (auto simp: conn_construct_def split: sum.splits if_splits)
qed

text \<open>Taking a socket over.\<close>

lemma adopt_ok:
  assumes w: "net_ok w" and free: "net_at w l = None" and sock: "sock \<in># net_loose w"
    and a: "adds silent (net_calls w) tr" and c: "conn_ok (c\<lparr>conn_calls := tr\<rparr>)" "conn_fd c = sock"
  shows "net_ok (w\<lparr>net_loose := net_loose w - {#sock#}, net_at := (net_at w)(l := Some (Conn c)), net_calls := tr\<rparr>)"
proof -
  have held: "held (net_calls w) = own (epoll_fd (net_disp w)) + listener_fds (net_at w) + net_loose w"
    using w by (simp add: net_ok_def)
  then have nn: "0 \<le> sock"
    using sock held_nonneg [of sock "net_calls w"] by simp
  have fin: "finite (dom (net_at w))"
    using w by (simp add: net_ok_def)
  have "conn_ok (s\<lparr>conn_calls := tr\<rparr>)" if "net_at w l' = Some (Conn s)" for l' s
    by (rule conn_ok_other [OF conn_okD(2) [OF w that] a]) (simp add: silent_simps)
  moreover have "held tr = own (epoll_fd (net_disp w)) + listener_fds ((net_at w)(l := Some (Conn c))) + (net_loose w - {#sock#})"
    using silent_held [OF a] held listener_fds_new [OF fin free, of "Conn c"] sock nn c(2) by (simp add: own_def)
  moreover have "uniq tr"
    using w silent_uniq [OF a] by (simp add: net_ok_def)
  ultimately show ?thesis
    using w c nn fin silent_held [OF a] by (auto simp: net_ok_def)
qed

lemma drop_loose_ok:
  assumes w: "net_ok w" and sock: "sock \<in># net_loose w" and a: "adds silent (net_calls w) t"
  shows "net_ok (w\<lparr>net_loose := net_loose w - {#sock#}, net_calls := fd_destroy os sock t\<rparr>)"
proof -
  have held: "held (net_calls w) = own (epoll_fd (net_disp w)) + listener_fds (net_at w) + net_loose w"
    using w by (simp add: net_ok_def)
  then have o: "own sock = {#sock#}"
    using sock held_nonneg [of sock "net_calls w"] by (simp add: own_def)
  show ?thesis
    using w held sock closing_ok [OF w a, where os = os and fd = sock] conn_okD(1) [OF w]
    unfolding o by (auto simp: net_ok_def)
qed

lemma silent_register:
  assumes "register_io_listener os epfd fd l ev tr = (reg, tr')"
  shows "adds silent tr tr'"
  using assms adds_syscall' [of silent "Epoll_add epfd fd (event_mask ev OR epollet) l" tr os]
  by (auto simp: register_io_listener_def split: prod.splits if_splits)

lemma net_connect_ok:
  assumes w: "net_ok w" and p: "pow2 page" "ring_size_ok page rsize" "ring_size_ok page wsize"
  shows "kept_up w (net_connect os page l sock rsize wsize ev w)"
proof (cases "net_at w l \<noteq> None \<or> sock \<notin># net_loose w")
  case True
  then show ?thesis
    using w by (auto simp: net_connect_def kept_upI)
next
  case False
  obtain x tr where x: "conn_construct os page sock rsize wsize (net_calls w) = (x, tr)"
    by fastforce
  note parts = conn_construct_parts [OF x p]
  show ?thesis
  proof (cases x)
    case (Inl e)
    then show ?thesis
      using False w x parts(2) drop_loose_ok [OF w, of sock]
      by (auto simp: net_connect_def kept_up_def)
  next
    case (Inr y)
    obtain r wr where y: "y = (r, wr)"
      by fastforce
    obtain reg tr' where reg: "register_io_listener os (epoll_fd (net_disp w)) sock l ev tr = (reg, tr')"
      by fastforce
    have "adds silent tr tr'"
      by (rule silent_register [OF reg])
    then have a: "adds silent (net_calls w) tr'"
      using parts(1) Inr y by (blast intro: adds_trans)
    let ?c = "new_connection sock r wr tr"
    have c: "conn_ok (?c\<lparr>conn_calls := tr'\<rparr>)" "conn_fd ?c = sock"
      using parts(1) Inr y conn_ok_other [where s = ?c and tr = tr and P = silent and tr' = tr'] \<open>adds silent tr tr'\<close> silent_simps
      by (auto simp: new_connection_def)
    show ?thesis
      using False x Inr y reg adopt_ok [OF w _ _ a c] by (auto simp: net_connect_def kept_up_def)
  qed
qed

text \<open>Opening a server, and destroying a listener.\<close>

lemma opened_ok:
  assumes w: "net_ok w" and k: "fresh_fds os" and o: "opens os (net_calls w) r tr" "adds silent tr tr'"
    and at: "m = (if r < 0 then net_at w else (net_at w)(l := Some (Server r)))" "net_at w l = None"
  shows "net_ok (w\<lparr>net_at := m, net_calls := tr'\<rparr>)"
proof -
  have fin: "finite (dom (net_at w))"
    using w by (simp add: net_ok_def)
  have "adds quiet (net_calls w) tr'"
    using o adds_mono [OF o(2), of quiet] silent_quiet by (auto simp: opens_def intro: adds_trans)
  then have "conn_ok (s\<lparr>conn_calls := tr'\<rparr>)" if "net_at w l' = Some (Conn s)" for l' s
    by (rule conn_ok_other [OF conn_okD(2) [OF w that]]) (rule quiet_simps)
  moreover have "held tr' = held (net_calls w) + own r" "closes_ok tr'" "uniq tr'"
    using w k o(1) silent_held [OF o(2)] silent_uniq [OF o(2)] by (simp_all add: opens_def net_ok_def)
  moreover have "listener_fds m = own r + listener_fds (net_at w)"
    using listener_fds_new [OF fin at(2), of "Server r"] at(1) by (simp add: own_def owned1_def)
  ultimately show ?thesis
    using w fin at by (auto simp: net_ok_def split: if_splits)
qed

lemma net_serve_ok:
  assumes w: "net_ok w" and k: "fresh_fds os"
    and o: "\<And>sock tr. opened = Inr (sock, tr) \<Longrightarrow> opens os (net_calls w) sock tr"
  shows "kept_up w (net_serve os l opened ev w)"
proof (cases "net_at w l = None \<and> (\<exists>x. opened = Inr x)")
  case True
  then obtain sock tr where at: "net_at w l = None" and op: "opened = Inr (sock, tr)"
    by auto
  obtain reg tr' where reg: "register_io_listener os (epoll_fd (net_disp w)) sock l ev tr = (reg, tr')"
    by fastforce
  show ?thesis
    using at op reg opened_ok [OF w k o [OF op] adds_refl refl at]
      opened_ok [OF w k o [OF op] silent_register [OF reg] refl at]
    by (cases "sock < 0") (simp_all add: net_serve_def kept_up_def server_new_def fd_of_int_def)
qed (use w in \<open>auto simp: net_serve_def kept_upI split: sum.splits\<close>)

lemma net_discard_ok:
  assumes w: "net_ok w"
  shows "kept_up w (net_discard os l w)"
proof (cases "\<exists>fd. net_at w l = Some (Server fd)")
  case True
  then obtain fd where at: "net_at w l = Some (Server fd)"
    by blast
  have fin: "finite (dom (net_at w))" and held: "held (net_calls w)
      = own (epoll_fd (net_disp w)) + (own fd + listener_fds ((net_at w)(l := None))) + net_loose w"
    using w listener_fds_del [of "net_at w" l, OF _ at] by (simp_all add: net_ok_def)
  then have "net_ok (w\<lparr>net_at := (net_at w)(l := None), net_calls := fd_destroy os fd (net_calls w)\<rparr>)"
    using conn_okD(1) [OF w] closing_ok [OF w adds_refl, where os = os and fd = fd]
    by (auto simp: net_ok_def)
  then show ?thesis
    using at by (simp add: net_discard_def kept_up_def)
next
  case False
  then show ?thesis
    using w destroy_conn_ok [OF w] by (auto simp: net_discard_def kept_up_def split: option.splits listener.splits)
qed

fun op_ok :: "u64 \<Rightarrow> net_op \<Rightarrow> bool" where
  "op_ok page (Round timeout) = True"
| "op_ok page (Connect l sock rsize wsize ev) = (ring_size_ok page rsize \<and> ring_size_ok page wsize)"
| "op_ok page _ = True"

lemma net_step_ok:
  assumes "kernel_ok os" "handlers_ok H" "pow2 page" "op_ok page x" "net_ok w" "timers_ok clock w"
  shows "\<exists>w' e. net_step os page again clock H x w = Some (w', e) \<and> net_ok w' \<and> timers_ok clock w'
    \<and> epoll_fd (net_disp w') = epoll_fd (net_disp w)"
proof (cases "\<exists>timeout. x = Round timeout")
  case True
  then show ?thesis
    using net_round_ok [OF assms(1,2,5,6)] by auto
next
  case False
  have k: "fresh_fds os" and cl: "closes_ok (net_calls w)"
    using assms(1,5) by (simp_all add: kernel_ok_def net_ok_def)
  have "kept_up w (net_serve os l (Inr (listen_ip os ip port (net_calls w))) ev w)" for l ip port ev
    by (rule net_serve_ok [OF assms(5) k]) (rule listen_ip_opens [OF cl], simp)
  moreover have "kept_up w (net_serve os l (listen_unix os path (net_calls w)) ev w)" for l path ev
    by (rule net_serve_ok [OF assms(5) k]) (rule listen_unix_opens [OF cl])
  ultimately have "kept_up w (net_step os page again clock H x w)"
    using False net_connect_ok [OF assms(5,3)] net_discard_ok [OF assms(5)] assms(4)
    by (cases x) auto
  then show ?thesis
    using assms(6) by (auto simp: kept_up_def timers_ok_def)
qed

lemma net_run_ok:
  assumes "kernel_ok os" "handlers_ok H" "pow2 page" "\<forall>x \<in> set xs. op_ok page x" "net_ok w" "timers_ok clock w"
  shows "\<exists>w' e. net_run os page again clock H xs w = Some (w', e) \<and> net_ok w' \<and> timers_ok clock w'
    \<and> epoll_fd (net_disp w') = epoll_fd (net_disp w)"
  using assms(4-6)
proof (induction xs arbitrary: w)
  case (Cons x xs)
  obtain w' e where w': "net_step os page again clock H x w = Some (w', e)" "net_ok w'" "timers_ok clock w'"
      "epoll_fd (net_disp w') = epoll_fd (net_disp w)"
    using net_step_ok [OF assms(1-3) _ Cons.prems(2,3), of x again] Cons.prems(1) by auto
  show ?case
    using w' Cons.IH [OF _ w'(2,3)] Cons.prems(1) by (cases e) auto
qed simp

section \<open>The loop as a whole\<close>

text \<open>C5: a program that opens servers, makes connections and destroys both on one event loop, in whatever
  order epoll reports the events. Assumed are a kernel that over the life of a descriptor delivers, takes
  and accepts finitely much (its own number for each descriptor), never more bytes than a call asked
  for, and never hands out a number that is open; write handlers that store at most the room they are
  given and report exactly the bytes stored; a page and ring sizes that are powers of two, each size a
  multiple of the page, or zero for no ring; timers with a positive interval that fits after any clock
  reading, in a queue in order; and a start at which the accounts below hold. A handler destroys no
  listener but its own connection, as the last thing it does in \<^verbatim>\<open>on_close\<close>, and registers none; the
  callbacks of the timers and of the loop do nothing. Then the program's
  run returns, with a fault or an exception at most, at which it stops; and where it ends,
  exceptions included, the descriptors open are that of epoll, those of the live listeners and those
  the accept handlers kept, each once, no descriptor having been closed that was not open; and for every live
  connection the bytes received on its socket are those its handler consumed followed by those in its
  read ring, and the bytes its handler produced are those sent followed by those in its write ring.\<close>

theorem loop_conserves:
  assumes "kernel_ok os" "handlers_ok H" "pow2 page" "\<forall>x \<in> set xs. op_ok page x" "net_ok w" "timers_ok clock w"
  shows "\<exists>w' e. net_run os page again clock H xs w = Some (w', e)
    \<and> held (net_calls w') = own (epoll_fd (net_disp w)) + listener_fds (net_at w') + net_loose w'
    \<and> closes_ok (net_calls w') \<and> (\<forall>fd. count (held (net_calls w')) fd \<le> 1)
    \<and> (\<forall>l s. net_at w' l = Some (Conn s) \<longrightarrow>
        (case rcb s of None \<Rightarrow> True
         | Some (base, rb) \<Rightarrow> received (conn_fd s) (net_calls w') = eaten s @ rb_stored rb)
        \<and> (case wcb s of None \<Rightarrow> True
         | Some (base, rb) \<Rightarrow> made s = transmitted (conn_fd s) (net_calls w') @ rb_stored rb))"
proof -
  obtain w' e where w': "net_run os page again clock H xs w = Some (w', e)" "net_ok w'"
      "epoll_fd (net_disp w') = epoll_fd (net_disp w)"
    using net_run_ok [OF assms] by blast
  have "case rcb s of None \<Rightarrow> True | Some (base, rb) \<Rightarrow> received (conn_fd s) (net_calls w') = eaten s @ rb_stored rb"
    "case wcb s of None \<Rightarrow> True | Some (base, rb) \<Rightarrow> made s = transmitted (conn_fd s) (net_calls w') @ rb_stored rb"
    if "net_at w' l = Some (Conn s)" for l s
    using conn_okD(2) [OF w'(2) that] by (auto simp: conn_ok_def in_ok_def out_ok_def split: option.splits)
  then show ?thesis
    using w' by (auto simp: net_ok_def uniq_def)
qed

section \<open>Dangling listeners\<close>

lemma settle_live:
  assumes "settle_res os H l n x w = Some (w', e)" "handled P s x"
  shows "e \<noteq> Some Undefined \<and> (\<forall>l'. net_at w l' \<noteq> None \<longrightarrow> net_at w' l' \<noteq> None \<or> l' = l \<and> h_frees H l)"
  using assms by (auto simp: settle_res_def handled_def settle_def split: option.splits sum.splits if_splits)

lemma run_callback_live:
  assumes k: "kernel_ok os" "handlers_ok H" and w: "net_ok w" and live: "\<forall>l \<in> set (targets c). net_at w l \<noteq> None"
    and r: "run_callback os H c w = Some (w', e)"
  shows "e \<noteq> Some Undefined
    \<and> (\<forall>l. net_at w l \<noteq> None \<longrightarrow> net_at w' l \<noteq> None \<or> l \<in> set (targets c) \<and> h_frees H l)"
proof (cases "\<exists>l s. net_at w l = Some (Conn s) \<and> c \<in> {On_read l, On_write l}")
  case True
  then obtain l s where at: "net_at w l = Some (Conn s)" and c: "c \<in> {On_read l, On_write l}"
    by blast
  have "writes_ok (h_write H l)"
    using k(2) by (simp add: handlers_ok_def)
  note h = handle_read [OF k(1) conn_okD(2) [OF w at], of "h_read H l"]
    handle_write [OF k(1) this conn_okD(2) [OF w at]]
  obtain P x where x: "handled P (s\<lparr>conn_calls := net_calls w\<rparr>) x" "settle_res os H l (closed s) x w = Some (w', e)"
    using c at r h by auto
  have "e \<noteq> Some Undefined \<and> (\<forall>l'. net_at w l' \<noteq> None \<longrightarrow> net_at w' l' \<noteq> None \<or> l' = l \<and> h_frees H l)"
    by (rule settle_live [OF x(2,1)])
  then show ?thesis
    using c by fastforce
next
  case False
  show ?thesis
  proof (cases "\<exists>l fd. net_at w l = Some (Server fd) \<and> c = On_read l")
    case True
    then obtain l fd where at: "net_at w l = Some (Server fd)" "c = On_read l"
      by blast
    obtain n where n: "backlog_bound os fd n"
      using k(1) by (auto simp: kernel_ok_def)
    have "closes_ok (net_calls w)"
      using w by (simp add: net_ok_def)
    from server_on_read_ok [OF n this, of "h_keeps H" "[]"] show ?thesis
      using r at by auto
  next
    case none: False
    then show ?thesis
      using False r live by (cases c) (auto split: option.splits listener.splits)
  qed
qed

lemma run_callbacks_live:
  assumes k: "kernel_ok os" "handlers_ok H"
  shows "net_ok w \<Longrightarrow> \<forall>l \<in> set (concat (map targets cs)). net_at w l \<noteq> None \<Longrightarrow>
    \<forall>l. h_frees H l \<longrightarrow> count_list (concat (map targets cs)) l \<le> 1 \<Longrightarrow>
    \<exists>w' e. run_callbacks os H cs w = Some (w', e) \<and> e \<noteq> Some Undefined"
proof (induction cs arbitrary: w)
  case (Cons c cs)
  obtain w' e where w': "run_callback os H c w = Some (w', e)" "net_ok w'"
    using run_callback_ok [OF k Cons.prems(1)] unfolding kept_up_def by blast
  have live: "\<forall>l \<in> set (targets c). net_at w l \<noteq> None"
    using Cons.prems(2) by simp
  note r = run_callback_live [OF k Cons.prems(1) live w'(1)]
  have "net_at w' l \<noteq> None" if "l \<in> set (concat (map targets cs))" for l
  proof (cases "l \<in> set (targets c) \<and> h_frees H l")
    case True
    then have "1 \<le> count_list (targets c) l" "1 \<le> count_list (concat (map targets cs)) l"
      using that count_list_0_iff [of "targets c" l] count_list_0_iff [of "concat (map targets cs)" l]
      by (auto simp del: set_concat simp: Suc_le_eq)
    then have False
      using Cons.prems(3) True by (auto dest!: spec [where x = l])
    then show ?thesis ..
  next
    case False
    then show ?thesis
      using r Cons.prems(2) that by auto
  qed
  moreover have "\<forall>l. h_frees H l \<longrightarrow> count_list (concat (map targets cs)) l \<le> 1"
    using Cons.prems(3) by (auto intro: order_trans [rotated])
  ultimately show ?case
    using w' r Cons.IH [OF w'(2)] by (cases e) auto
qed simp

lemma io_targets:
  "concat (map targets (io_callbacks (l, m))) =
    (if m AND epollin \<noteq> 0 then [l] else []) @ (if m AND epollout \<noteq> 0 then [l] else [])"
  by (simp add: io_callbacks_def)

lemma count_targets:
  assumes "distinct (map fst es)" "\<forall>(l, m) \<in> set es. h l \<longrightarrow> m AND epollin = 0 \<or> m AND epollout = 0" "h l"
  shows "count_list (concat (map targets (concat (map io_callbacks es)))) l \<le> 1"
  using assms
proof (induction es)
  case (Cons e es)
  obtain l' m where e: "e = (l', m)"
    by fastforce
  show ?case
  proof (cases "l' = l")
    case True
    then have "l \<notin> fst ` set es"
      using Cons.prems(1) e by simp
    then have "count_list (concat (map targets (concat (map io_callbacks es)))) l = 0"
      by (auto simp: count_list_0_iff io_callbacks_def split: if_splits) (metis fst_conv image_eqI)+
    then show ?thesis
      using Cons.prems e True by (auto simp: io_targets)
  next
    case False
    then show ?thesis
      using Cons e by (auto simp: io_targets)
  qed
qed simp

text \<open>C6: in one round of the loop no handler is called on a destroyed object, provided that epoll
  fills in as many events as it says, all of live listeners, each once, and that no listener that
  destroys itself when it is closed is reported readable and writable in the same event. This is for
  handlers that destroy no listener but their own connection, and that only as the last thing in
  \<^verbatim>\<open>on_close\<close>, and that register and remove no listener: a handler that deletes another listener of the same
  batch makes the loop use it afterwards just as well. The kernel, the write handlers and the timers
  are as they are for a run of the program: finitely many bytes and connections for each
  descriptor, at most as many bytes as a call asked for, no number handed out that is open, write
  handlers that store at most the room and report what they stored, and timers with a positive interval; and the
  accounts of descriptors and bytes hold at the start.\<close>

theorem round_no_dangling:
  assumes "kernel_ok os" "handlers_ok H" "net_ok w" "timers_ok clock w"
    and r: "r = os (net_calls w) (Epoll_wait (epoll_fd (net_disp w)) 64 timeout)" "nat (rv r) \<le> length (evs r)"
    and "distinct (map fst (evs r))" "\<forall>(l, m) \<in> set (evs r). net_at w l \<noteq> None"
    and "\<forall>(l, m) \<in> set (evs r). h_frees H l \<longrightarrow> m AND epollin = 0 \<or> m AND epollout = 0"
  shows "\<exists>w' e. net_round os again clock H timeout w = Some (w', e) \<and> e \<noteq> Some Undefined"
proof -
  let ?es = "take (nat (rv r)) (evs r)"
  let ?ts = "concat (map targets (concat (map io_callbacks ?es)))"
  obtain x tr where x: "run_once os timer_list again clock timeout (net_disp w) (net_calls w) = (Some x, tr)"
    "adds silent (net_calls w) tr"
    "\<And>cs d. x = Inr (cs, d) \<Longrightarrow> epoll_fd d = epoll_fd (net_disp w) \<and> timers_ok clock (w\<lparr>net_disp := d, net_calls := tr\<rparr>)"
    "wait_result r x"
    using run_once_total [OF assms(4), of os again timeout] unfolding r(1) max_events_def by metis
  have once: "\<forall>l. h_frees H l \<longrightarrow> count_list ?ts l \<le> 1"
  proof (intro allI impI)
    fix l
    assume "h_frees H l"
    moreover have "distinct (map fst ?es)" "\<forall>(l, m) \<in> set ?es. h_frees H l \<longrightarrow> m AND epollin = 0 \<or> m AND epollout = 0"
      using assms(7,9) distinct_take [of "map fst (evs r)"] by (auto simp: take_map dest: in_set_takeD)
    ultimately show "count_list ?ts l \<le> 1"
      by (intro count_targets [where h = "h_frees H"])
  qed
  have live: "\<forall>l \<in> set ?ts. net_at w l \<noteq> None"
    using assms(8) by (fastforce simp: io_callbacks_def dest!: in_set_takeD split: if_splits)
  show ?thesis
  proof (cases x)
    case (Inl e)
    then show ?thesis
      using x(1,4) r(2) by (auto simp: net_round_def wait_result_def)
  next
    case (Inr y)
    obtain cs d where y: "y = (cs, d)"
      by fastforce
    have cs: "concat (map targets cs) = [] \<or> concat (map targets cs) = ?ts"
      using x(4) Inr y by (simp add: wait_result_def)
    have "net_ok (w\<lparr>net_disp := d, net_calls := tr\<rparr>)"
      by (rule net_silent [OF assms(3) x(2)]) (use x(3) Inr y in simp)
    moreover have "\<forall>l \<in> set (concat (map targets cs)). net_at w l \<noteq> None"
      using cs
    proof
      assume "concat (map targets cs) = ?ts"
      with live show ?thesis
        by (simp only:)
    qed simp
    moreover have "\<forall>l. h_frees H l \<longrightarrow> count_list (concat (map targets cs)) l \<le> 1"
      using cs once by auto
    ultimately show ?thesis
      using run_callbacks_live [OF assms(1,2), of "w\<lparr>net_disp := d, net_calls := tr\<rparr>" cs] x(1) Inr y
      by (simp add: net_round_def)
  qed
qed

text \<open>C7: without the proviso the loop uses a destroyed object. When a peer closes and its socket is
  reported readable and writable in one event, a connection that destroys itself in \<^verbatim>\<open>on_close\<close> is gone
  after \<^verbatim>\<open>on_read\<close>, and \<^verbatim>\<open>run_once\<close> calls \<^verbatim>\<open>on_write\<close> through the same pointer.\<close>

theorem close_then_write_dangles:
  assumes "net_at w l = Some (Conn s)" "rcb s = Some (base, rb)" "h_frees H l"
    and "0 < piece_size (circular_buffer_get_writable base (rb_hdr rb))"
    and "r = os (net_calls w) (Epoll_wait (epoll_fd (net_disp w)) 64 timeout)" "rv r = 1" "evs r = [(l, m)]"
    and "m AND epollin \<noteq> 0" "m AND epollout \<noteq> 0"
    and "\<forall>tr n. rv (os tr (Recv (conn_fd s) n)) = 0"
  shows "\<exists>w'. net_round os again clock H timeout w = Some (w', Some Undefined)"
proof -
  let ?d = "net_disp w" and ?ls = "map On_loop (loop_listeners (net_disp w))"
  have loop: "run_callbacks os H (map On_loop ls @ cs) w = run_callbacks os H cs w" for ls cs w
    by (induction ls) simp_all
  obtain tr where once: "run_once os timer_list again clock timeout ?d (net_calls w)
      = (Some (Inr (?ls @ [On_read l, On_write l], ?d)), tr)"
    using assms(5-9) by (simp add: run_once_def syscall_eq max_events_def on_loop_def io_callbacks_def)
  let ?s = "s\<lparr>conn_calls := tr\<rparr>"
  let ?c = "Recv (conn_fd s) (unat (piece_size (circular_buffer_get_writable base (rb_hdr rb))))"
  obtain n s' where s': "consume (h_read H l) (?s\<lparr>conn_calls := tr @ [(?c, os tr ?c)]\<rparr>) = Inr (n, s')" "closed s' = closed s"
    using assms(2) by (simp add: consume_def Let_def)
  have "conn_on_read os (h_read H l) ?s = Some (Inr (on_close s'))"
    using assms(2,4,10) s'(1) unfolding conn_on_read.simps [of os "h_read H l" ?s]
    by (simp add: syscall_eq Let_def)
  then have "run_callbacks os H [On_read l, On_write l] (w\<lparr>net_calls := tr\<rparr>)
      = Some (settle os H l (closed s) (on_close s') (w\<lparr>net_calls := tr\<rparr>), Some Undefined)"
    using assms(1,3) s'(2) by (simp add: settle_res_def) (simp add: settle_def)
  moreover have "w\<lparr>net_disp := net_disp w, net_calls := tr\<rparr> = w\<lparr>net_calls := tr\<rparr>"
    by (cases w) simp
  ultimately show ?thesis
    using once by (simp add: net_round_def loop del: run_callbacks.simps)
qed

section \<open>A loop at work\<close>

text \<open>A loop with a server and a connection, and a kernel that reports both as readable, delivers
  three bytes and hands out one more connection and one more listening socket.\<close>

definition ret :: "int \<Rightarrow> reply" where
  "ret n = \<lparr>rv = n, err = eagain, ptr = 0, bytes = [], evs = [], ino = 0\<rparr>"

definition demo_calls :: trace where
  "demo_calls = [(Epoll_create, ret 3), (Socket_new False, ret 5), (Accept 5, ret 7)]"

definition demo_net :: net where
  "demo_net = \<lparr>net_disp = \<lparr>epoll_fd = 3, loop_listeners = [], timeouts = []\<rparr>,
     net_at = [50 \<mapsto> Server 5, 77 \<mapsto> Conn new_conn], net_loose = {#}, net_calls = demo_calls\<rparr>"

definition busy :: os where
  "busy tr c =
     (case c of
        Recv fd n \<Rightarrow> if received fd tr = [] \<and> 3 \<le> n then (ret 3)\<lparr>bytes := [1, 2, 3]\<rparr> else ret (- 1)
      | Accept fd \<Rightarrow> if accepts tr < 2 \<and> 9 \<notin># held tr then ret 9 else ret (- 1)
      | Epoll_wait _ _ _ \<Rightarrow> (ret 2)\<lparr>evs := [(77, 1), (50, 1)]\<rparr>
      | Socket_new _ \<Rightarrow> if 11 \<notin># held tr then ret 11 else ret (- 1)
      | Mmap a _ _ _ _ _ \<Rightarrow> (ret 0)\<lparr>ptr := if a = 0 then 4096 else a\<rparr>
      | Mremap _ _ _ _ a \<Rightarrow> (ret 0)\<lparr>ptr := a\<rparr>
      | Get_flags _ \<Rightarrow> ret 0
      | Set_flags _ _ \<Rightarrow> ret 0
      | Bind _ _ \<Rightarrow> ret 0
      | Listen _ _ \<Rightarrow> ret 0
      | Epoll_add _ _ _ _ \<Rightarrow> ret 0
      | Munmap _ _ \<Rightarrow> ret 0
      | Close _ \<Rightarrow> ret 0
      | _ \<Rightarrow> ret (- 1))"

definition one_shot :: handlers where
  "one_shot = \<lparr>h_keeps = (\<lambda>_ _. True), h_read = (\<lambda>_ _ view. of_nat (length view)),
     h_write = (\<lambda>_ _ _. ([], 0)), h_frees = (\<lambda>_. True)\<rparr>"

lemma busy_ok: "kernel_ok busy"
proof -
  have "recv_bound busy fd 1" "send_bound busy fd 1" "backlog_bound busy fd 2" for fd
    by (auto simp: recv_bound_def send_bound_def backlog_bound_def busy_def ret_def)
  moreover have "fresh_fds busy"
    unfolding fresh_fds_def
  proof (intro allI ballI)
    fix tr c fd
    assume "fd \<in># new_fd c (rv (busy tr c))"
    then show "fd \<notin># held tr"
      by (cases c) (auto simp: busy_def ret_def split: if_splits)
  qed
  moreover have "recv_ok busy" "send_ok busy"
    by (auto simp: recv_ok_def send_ok_def busy_def ret_def)
  ultimately show ?thesis
    unfolding kernel_ok_def by blast
qed

lemma one_shot_ok: "handlers_ok one_shot"
  by (simp add: handlers_ok_def one_shot_def writes_ok_def)

lemma demo_net_ok: "net_ok demo_net" "timers_ok clock demo_net"
proof -
  have held: "held demo_calls = {#3, 5, 7#}"
    by (simp add: demo_calls_def held_def ret_def)
  moreover have "closes_ok demo_calls"
    using closes_ok_Nil by (simp add: demo_calls_def closes_ok_def nth_Cons less_Suc_eq split: nat.splits)
  moreover have "uniq demo_calls"
    by (simp add: uniq_def held)
  moreover have "listener_fds (net_at demo_net) = {#5, 7#}"
    by (simp add: listener_fds_def demo_net_def own_def new_conn_def)
  moreover have "conn_ok (new_conn\<lparr>conn_calls := demo_calls\<rparr>)"
    using new_conn_ok by (simp add: conn_ok_def in_ok_def out_ok_def new_conn_def demo_calls_def
        received_def transmitted_def got_def put_def)
  ultimately show "net_ok demo_net"
    by (auto simp: net_ok_def own_def) (auto simp: demo_net_def own_def new_conn_def split: if_splits)
  show "timers_ok clock demo_net"
    by (simp add: timers_ok_def demo_net_def by_time_def)
qed

definition demo_ops :: "net_op list" where
  "demo_ops = [Round 10, Connect 78 9 8192 4096 Ev_read, Round 10, Serve 90 0 8080 Ev_read, Discard 77]"

theorem loop_conserves_witness:
  "\<exists>w. net_run busy 4096 (\<lambda>_ _. False) (\<lambda>_. 0) one_shot demo_ops demo_net = Some (w, None)
    \<and> held (net_calls w) = {#3#} + listener_fds (net_at w) + net_loose w"
proof -
  have "pow2 4096" "pow2 8192" "(4096 :: nat) dvd 8192"
    using pow2I [of 12] pow2I [of 13] by simp_all
  then have p: "pow2 4096" "\<forall>x \<in> set demo_ops. op_ok 4096 x"
    by (simp_all add: demo_ops_def ring_size_ok_def)
  have "own (epoll_fd (net_disp demo_net)) = {#3#}"
    by (simp add: demo_net_def own_def)
  then obtain w e where w: "net_run busy 4096 (\<lambda>_ _. False) (\<lambda>_. 0) one_shot demo_ops demo_net = Some (w, e)"
      "held (net_calls w) = {#3#} + listener_fds (net_at w) + net_loose w"
    using loop_conserves [OF busy_ok one_shot_ok p demo_net_ok] by metis
  have "map_option snd (net_run busy 4096 (\<lambda>_ _. False) (\<lambda>_. 0) one_shot demo_ops demo_net) = Some None"
    by code_simp
  then show ?thesis
    using w by simp
qed

theorem round_no_dangling_witness:
  "\<exists>w e. net_round busy (\<lambda>_ _. False) (\<lambda>_. 0) one_shot 10 demo_net = Some (w, e) \<and> e \<noteq> Some Undefined"
  by (rule round_no_dangling [OF busy_ok one_shot_ok demo_net_ok refl])
    (simp_all add: busy_def demo_net_def ret_def epollout_def)

text \<open>A peer that has closed.\<close>

definition hung_up :: os where
  "hung_up tr c = (case c of Epoll_wait _ _ _ \<Rightarrow> (ret 1)\<lparr>evs := [(77, 5)]\<rparr> | _ \<Rightarrow> ret 0)"

theorem close_then_write_dangles_witness:
  "\<exists>w. net_round hung_up (\<lambda>_ _. False) (\<lambda>_. 0) one_shot 10 demo_net = Some (w, Some Undefined)"
  by (rule close_then_write_dangles [where l = 77 and s = new_conn and base = 0 and rb = small_ring and m = 5, OF _ _ _ _ refl])
    (simp_all add: demo_net_def new_conn_def one_shot_def hung_up_def ret_def epollin_def epollout_def
      small_ring_def circular_buffer_get_writable_def writable_size_def readable_size_def)

end
