(* ===== verification/Task_Queue.thy ===== *)
theory Task_Queue
  imports Circular_Queue
begin

text \<open>
  \<^verbatim>\<open>src/task_queue_thread.{h,cpp}\<close>: a worker thread that runs the tasks another thread pushes into a
  circular queue, and sleeps on a semaphore while the queue is empty.

  One event is one access of one thread to the shared state, and a schedule is a list of events, so
  the theorems speak of every interleaving of the worker with one pushing thread. The memory of the
  queue is the one of \<open>Circular_Queue\<close>. The index operators of the queue count \<^emph>\<open>before\<close> the element is
  constructed or destroyed (\<^verbatim>\<open>at(widx_++)\<close>, \<^verbatim>\<open>at(ridx_++)\<close>), which the other thread can see. A task
  is the pointer pushed; what its \<^verbatim>\<open>run\<close> returns is a parameter, of the task and of those that ran
  before it.
\<close>

section \<open>The two threads\<close>

datatype 'a pusher = P_Idle | P_Inner 'a | P_Construct 'a u64 | P_Check | P_Post
datatype 'a worker = C_Top | C_Wait | C_Front | C_Run 'a | C_Pop bool | C_Destroy u64 bool | C_Count bool | C_Done

text \<open>The last three fields are history: the tasks whose index was published, those that were run, and
  those whose owner in the queue was destroyed, in order.\<close>

record 'a tq =
  tq_queue :: cqueue
  tq_heap :: "'a qheap"
  tq_processed :: size_t
  tq_sema :: nat
  tq_pusher :: "'a pusher"
  tq_worker :: "'a worker"
  accepted :: "'a list"
  ran :: "'a list"
  deleted :: "'a list"

definition tq_new ::
    "(size_t \<Rightarrow> 'a qheap \<Rightarrow> u64 \<times> 'a qheap) \<Rightarrow> size_t \<Rightarrow> size_t \<Rightarrow> 'a qheap \<Rightarrow> 'a tq res" where
  "tq_new allocf sizeof cap h =
     bind_res (q_new allocf sizeof cap h) (\<lambda>(q, h).
       Inr \<lparr>tq_queue = q, tq_heap = h, tq_processed = 0, tq_sema = 0,
            tq_pusher = P_Idle, tq_worker = C_Top, accepted = [], ran = [], deleted = []\<rparr>)"

definition get_current_task_num :: "'a tq \<Rightarrow> size_t" where
  "get_current_task_num s = q_size (tq_queue s)"

text \<open>One step of \<^verbatim>\<open>push\<close> (inlined \<^verbatim>\<open>circular_queue::push\<close> included) after its first check, and of
  \<^verbatim>\<open>thread_routine\<close> (inlined \<^verbatim>\<open>front\<close> and \<^verbatim>\<open>pop\<close> included).\<close>

fun push_step :: "size_t \<Rightarrow> 'a tq \<Rightarrow> 'a pusher \<Rightarrow> 'a tq res" where
  "push_step sizeof s P_Idle = Inr s"
| "push_step sizeof s (P_Inner t) =
     (let q = tq_queue s in
      if q_buffer q = 0 then Inl Assertion
      else if q_full q then Inr (s\<lparr>tq_pusher := P_Check\<rparr>)
      else bind_res (q_at q (tq_heap s) (q_widx q)) (\<lambda>p.
        Inr (s\<lparr>tq_queue := q\<lparr>q_widx := q_widx q + 1\<rparr>, accepted := accepted s @ [t],
               tq_pusher := P_Construct t p\<rparr>)))"
| "push_step sizeof s (P_Construct t p) =
     bind_res (construct sizeof p t (tq_heap s)) (\<lambda>h. Inr (s\<lparr>tq_heap := h, tq_pusher := P_Check\<rparr>))"
| "push_step sizeof s P_Check =
     Inr (s\<lparr>tq_pusher := (if get_current_task_num s = 1 then P_Post else P_Idle)\<rparr>)"
| "push_step sizeof s P_Post = Inr (s\<lparr>tq_sema := Suc (tq_sema s), tq_pusher := P_Idle\<rparr>)"

fun work_step :: "('a list \<Rightarrow> 'a \<Rightarrow> bool) \<Rightarrow> 'a tq \<Rightarrow> 'a worker \<Rightarrow> 'a tq res" where
  "work_step result s C_Top =
     Inr (s\<lparr>tq_worker := (if q_empty (tq_queue s) then C_Wait else C_Front)\<rparr>)"
| "work_step result s C_Wait =
     Inr (if 0 < tq_sema s then s\<lparr>tq_sema := tq_sema s - 1, tq_worker := C_Top\<rparr> else s)"
| "work_step result s C_Front =
     bind_res (q_front (tq_queue s) (tq_heap s)) (\<lambda>t. Inr (s\<lparr>tq_worker := C_Run t\<rparr>))"
| "work_step result s (C_Run t) =
     Inr (s\<lparr>ran := ran s @ [t], tq_worker := C_Pop (result (ran s) t)\<rparr>)"
| "work_step result s (C_Pop fin) =
     (let q = tq_queue s in
      if q_buffer q = 0 then Inl Assertion
      else if q_empty q then Inr (s\<lparr>tq_worker := C_Count fin\<rparr>)
      else bind_res (q_at q (tq_heap s) (q_ridx q)) (\<lambda>p.
        Inr (s\<lparr>tq_queue := q\<lparr>q_ridx := q_ridx q + 1\<rparr>, tq_worker := C_Destroy p fin\<rparr>)))"
| "work_step result s (C_Destroy p fin) =
     bind_res (destruct p (tq_heap s)) (\<lambda>h.
       Inr (s\<lparr>tq_heap := h, deleted := deleted s @ [the (objs (tq_heap s) p)], tq_worker := C_Count fin\<rparr>))"
| "work_step result s (C_Count fin) =
     Inr (s\<lparr>tq_processed := tq_processed s + 1, tq_worker := (if \<not> fin then C_Done else C_Top)\<rparr>)"
| "work_step result s C_Done = Inr s"

text \<open>A schedule: a call of \<^verbatim>\<open>push\<close> with its first check (it returns false on a full queue), another
  step of that call, or a step of the worker.\<close>

datatype 'a tq_event = Call 'a | Push_on | Work

fun tq_step :: "size_t \<Rightarrow> ('a list \<Rightarrow> 'a \<Rightarrow> bool) \<Rightarrow> 'a tq \<Rightarrow> 'a tq_event \<Rightarrow> 'a tq res" where
  "tq_step sizeof result s (Call t) =
     (if tq_pusher s = P_Idle \<and> \<not> q_full (tq_queue s) then Inr (s\<lparr>tq_pusher := P_Inner t\<rparr>) else Inr s)"
| "tq_step sizeof result s Push_on = push_step sizeof s (tq_pusher s)"
| "tq_step sizeof result s Work = work_step result s (tq_worker s)"

text \<open>Without the other thread in between, the steps make the queue operations they inline.\<close>

lemma push_phases:
  assumes "q_push sizeof t (tq_queue s) (tq_heap s) = Inr (True, q, h)"
  shows "run_res (tq_step sizeof result) (s\<lparr>tq_pusher := P_Inner t\<rparr>) [Push_on, Push_on]
    = Inr (s\<lparr>tq_queue := q, tq_heap := h, accepted := accepted s @ [t], tq_pusher := P_Check\<rparr>)"
  using assms by (auto simp: q_push_def bind_res_Inr Let_def split: if_splits)

lemma pop_phases:
  assumes "q_pop (tq_queue s) (tq_heap s) = Inr (q, h)" "\<not> q_empty (tq_queue s)"
  shows "\<exists>x. run_res (tq_step sizeof result) (s\<lparr>tq_worker := C_Pop fin\<rparr>) [Work, Work]
    = Inr (s\<lparr>tq_queue := q, tq_heap := h, deleted := deleted s @ [x], tq_worker := C_Count fin\<rparr>)"
  using assms by (auto simp: q_pop_def bind_res_Inr Let_def split: if_splits)

section \<open>The invariant of every interleaving\<close>

text \<open>Positions are counted from the start: \<open>popped\<close> elements left the queue. \<open>constructing\<close> and
  \<open>destroying\<close> are the windows in which an index is ahead of the element.\<close>

definition popped :: "'a tq \<Rightarrow> nat" where
  "popped s = length (ran s) - (case tq_worker s of C_Pop _ \<Rightarrow> 1 | _ \<Rightarrow> 0)"

definition constructing :: "'a tq \<Rightarrow> bool" where
  "constructing s \<longleftrightarrow> (case tq_pusher s of P_Construct _ _ \<Rightarrow> True | _ \<Rightarrow> False)"

definition destroying :: "'a tq \<Rightarrow> bool" where
  "destroying s \<longleftrightarrow> (case tq_worker s of C_Destroy _ _ \<Rightarrow> True | _ \<Rightarrow> False)"

definition obj_at :: "u64 list \<Rightarrow> 'a tq \<Rightarrow> nat \<Rightarrow> 'a option" where
  "obj_at tbl s i = objs (tq_heap s) (slot tbl i)"

definition frame_ok :: "size_t \<Rightarrow> u64 list \<Rightarrow> 'a tq \<Rightarrow> bool" where
  "frame_ok sizeof tbl s \<longleftrightarrow>
     (let q = tq_queue s in
      q_buffer q \<noteq> 0 \<and> pow2 (q_capacity q) \<and> q_mask q = q_capacity q - 1
      \<and> table_ok sizeof tbl q (tq_heap s) 
      \<and> q_ridx q = of_nat (popped s) \<and> q_widx q = of_nat (length (accepted s))
      \<and> popped s \<le> length (accepted s) \<and> length (accepted s) \<le> popped s + length tbl)"

definition cells_ok :: "u64 list \<Rightarrow> 'a tq \<Rightarrow> bool" where
  "cells_ok tbl s \<longleftrightarrow>
     (\<forall>i. popped s \<le> i \<longrightarrow> i < length (accepted s) \<longrightarrow>
        (if constructing s \<and> Suc i = length (accepted s)
         then obj_at tbl s i = None \<or> destroying s \<and> Suc i = popped s + length tbl
         else obj_at tbl s i \<in> {None, Some (accepted s ! i)}))
     \<and> (\<forall>i. length (accepted s) \<le> i \<longrightarrow> i < popped s + length tbl \<longrightarrow>
        obj_at tbl s i = None \<or> destroying s \<and> Suc i = popped s + length tbl)"

definition pusher_ok :: "u64 list \<Rightarrow> 'a tq \<Rightarrow> bool" where
  "pusher_ok tbl s =
     (case tq_pusher s of
        P_Construct t p \<Rightarrow> popped s < length (accepted s) \<and> p = slot tbl (length (accepted s) - 1)
          \<and> t = last (accepted s)
      | _ \<Rightarrow> True)"

definition front_ready :: "'a tq \<Rightarrow> bool" where
  "front_ready s \<longleftrightarrow> popped s < length (accepted s) \<and> (constructing s \<longrightarrow> Suc (popped s) < length (accepted s))"

definition worker_ok :: "u64 list \<Rightarrow> 'a tq \<Rightarrow> bool" where
  "worker_ok tbl s =
     (case tq_worker s of
        C_Front \<Rightarrow> popped s < length (accepted s)
      | C_Run t \<Rightarrow> front_ready s \<and> t = accepted s ! popped s
      | C_Pop _ \<Rightarrow> front_ready s \<and> ran s \<noteq> []
      | C_Destroy p _ \<Rightarrow> 0 < popped s \<and> p = slot tbl (popped s - 1)
      | _ \<Rightarrow> True)"

definition last_result :: "('a list \<Rightarrow> 'a \<Rightarrow> bool) \<Rightarrow> 'a list \<Rightarrow> bool" where
  "last_result result ts = (ts = [] \<or> result (butlast ts) (last ts))"

definition ran_ok :: "('a list \<Rightarrow> 'a \<Rightarrow> bool) \<Rightarrow> 'a tq \<Rightarrow> bool" where
  "ran_ok result s \<longleftrightarrow>
     ran s = take (length (ran s)) (accepted s)
     \<and> (\<forall>i. Suc i < length (ran s) \<longrightarrow> result (take i (ran s)) (ran s ! i))
     \<and> (case tq_worker s of
          C_Pop b \<Rightarrow> b = last_result result (ran s) \<and> tq_processed s + 1 = of_nat (length (ran s))
        | C_Destroy _ b \<Rightarrow> b = last_result result (ran s) \<and> tq_processed s + 1 = of_nat (length (ran s))
        | C_Count b \<Rightarrow> b = last_result result (ran s) \<and> tq_processed s + 1 = of_nat (length (ran s))
        | C_Done \<Rightarrow> \<not> last_result result (ran s) \<and> tq_processed s = of_nat (length (ran s))
        | _ \<Rightarrow> last_result result (ran s) \<and> tq_processed s = of_nat (length (ran s)))"

definition wake_ok :: "'a tq \<Rightarrow> bool" where
  "wake_ok s \<longleftrightarrow>
     (tq_worker s = C_Wait \<and> popped s < length (accepted s) \<longrightarrow>
        0 < tq_sema s \<or> tq_pusher s = P_Post
        \<or> (constructing s \<or> tq_pusher s = P_Check) \<and> length (accepted s) = Suc (popped s))"

definition tq_ok :: "size_t \<Rightarrow> u64 list \<Rightarrow> ('a list \<Rightarrow> 'a \<Rightarrow> bool) \<Rightarrow> 'a tq \<Rightarrow> bool" where
  "tq_ok sizeof tbl result s \<longleftrightarrow>
     frame_ok sizeof tbl s \<and> cells_ok tbl s \<and> pusher_ok tbl s \<and> worker_ok tbl s \<and> ran_ok result s \<and> wake_ok s"

lemma frame_size:
  assumes "frame_ok sizeof tbl s"
  shows "unat (q_size (tq_queue s)) = length (accepted s) - popped s"
    "q_empty (tq_queue s) \<longleftrightarrow> length (accepted s) = popped s"
    "q_full (tq_queue s) \<longleftrightarrow> length (accepted s) = popped s + length tbl"
proof -
  have idx: "q_size (tq_queue s) = of_nat (length (accepted s)) - of_nat (popped s)"
    and le: "popped s \<le> length (accepted s)" "length (accepted s) \<le> popped s + length tbl"
    and len: "length tbl = unat (q_capacity (tq_queue s))"
    using assms by (auto simp: frame_ok_def Let_def q_size_def table_ok_def)
  have "length (accepted s) - popped s < 2 ^ 64"
    using le(2) len unat_less_2p64 [of "q_capacity (tq_queue s)"] by linarith
  then show sz: "unat (q_size (tq_queue s)) = length (accepted s) - popped s"
    unfolding idx by (rule unat_diff_of_nat [OF le(1)])
  show "q_empty (tq_queue s) \<longleftrightarrow> length (accepted s) = popped s"
    using sz le(1) by (metis diff_is_0_eq eq_iff q_empty_def unat_eq_0)
  show "q_full (tq_queue s) \<longleftrightarrow> length (accepted s) = popped s + length tbl"
    unfolding q_full_def word_unat_eq_iff sz len [symmetric] using le by arith
qed

lemma frame_at:
  assumes "frame_ok sizeof tbl s"
  shows "q_at (tq_queue s) (tq_heap s) (of_nat i) = Inr (slot tbl i)"
proof -
  have f: "q_buffer (tq_queue s) \<noteq> 0" "pow2 (q_capacity (tq_queue s))"
      "q_mask (tq_queue s) = q_capacity (tq_queue s) - 1" "table_ok sizeof tbl (tq_queue s) (tq_heap s)"
    using assms by (auto simp: frame_ok_def Let_def)
  have "unat (of_nat i :: 64 word) mod length tbl = i mod length tbl"
    using f(4) mod_mod_cancel [OF pow2_dvd [OF f(2)]] by (simp add: table_ok_def unat_of_nat64)
  then show ?thesis
    unfolding q_at_table [OF f] by (simp add: slot_def)
qed

lemma slot_neq:
  assumes "distinct tbl" "i < j" "j < i + length tbl"
  shows "slot tbl i \<noteq> slot tbl j"
proof
  assume eq: "slot tbl i = slot tbl j"
  have "0 < length tbl"
    using assms by (cases tbl) auto
  then have "i mod length tbl = j mod length tbl"
    using eq assms(1) by (simp add: slot_def nth_eq_iff_index_eq)
  then have "length tbl dvd j - i"
    using mod_eq_dvd_iff_nat [of i j "length tbl"] assms(2) by simp
  moreover have "0 < j - i" "j - i < length tbl"
    using assms(2,3) by auto
  ultimately show False
    by (simp add: dvd_imp_le leD)
qed

lemma slot_window:
  "distinct tbl \<Longrightarrow> a \<le> i \<Longrightarrow> a \<le> j \<Longrightarrow> i < a + length tbl \<Longrightarrow> j < a + length tbl \<Longrightarrow>
    slot tbl i = slot tbl j \<longleftrightarrow> i = j"
  using slot_neq [of tbl i j] slot_neq [of tbl j i] by (cases i j rule: linorder_cases) auto

lemma slot_add_length: "slot tbl (i + length tbl) = slot tbl i"
  by (simp add: slot_def)

lemmas tq_parts = tq_ok_def pusher_ok_def worker_ok_def front_ready_def ran_ok_def wake_ok_def
  constructing_def destroying_def popped_def

lemma frameD:
  assumes "frame_ok sizeof tbl s"
  shows "q_buffer (tq_queue s) \<noteq> 0" "distinct tbl" "0 < length tbl" "pow2 (q_capacity (tq_queue s))"
    "q_ridx (tq_queue s) = of_nat (popped s)" "q_widx (tq_queue s) = of_nat (length (accepted s))"
    "popped s \<le> length (accepted s)" "length (accepted s) \<le> popped s + length tbl"
  using assms pow2_pos by (auto simp: frame_ok_def Let_def table_ok_def)

text \<open>Steps that leave queue and memory alone.\<close>

lemma frame_ok_cong:
  "tq_queue s' = tq_queue s \<Longrightarrow> tq_heap s' = tq_heap s \<Longrightarrow> popped s' = popped s \<Longrightarrow> accepted s' = accepted s \<Longrightarrow>
    frame_ok sizeof tbl s' = frame_ok sizeof tbl s"
  by (simp add: frame_ok_def)

lemma cells_ok_cong:
  "tq_heap s' = tq_heap s \<Longrightarrow> popped s' = popped s \<Longrightarrow> accepted s' = accepted s \<Longrightarrow>
    constructing s' = constructing s \<Longrightarrow> destroying s' = destroying s \<Longrightarrow> cells_ok tbl s' = cells_ok tbl s"
  by (simp add: cells_ok_def obj_at_def)

lemma call_ok: 
  assumes "tq_ok sizeof tbl result s" "tq_pusher s = P_Idle"
  shows "tq_ok sizeof tbl result (s\<lparr>tq_pusher := P_Inner t\<rparr>)"
proof -
  let ?s = "s\<lparr>tq_pusher := P_Inner t\<rparr>"
  have "frame_ok sizeof tbl ?s = frame_ok sizeof tbl s" "cells_ok tbl ?s = cells_ok tbl s"
    by (rule frame_ok_cong cells_ok_cong; simp add: popped_def constructing_def destroying_def assms)+
  then show ?thesis
    using assms by (auto simp: tq_parts split: worker.splits)
qed

lemma check_ok: 
  assumes "tq_ok sizeof tbl result s" "tq_pusher s = P_Check" "push_step sizeof s P_Check = Inr s'"
  shows "tq_ok sizeof tbl result s'"
proof -
  have s': "s' = s\<lparr>tq_pusher := (if get_current_task_num s = 1 then P_Post else P_Idle)\<rparr>"
    using assms(3) by simp
  have f: "frame_ok sizeof tbl s"
    using assms(1) by (simp add: tq_ok_def)
  have one: "get_current_task_num s = 1 \<longleftrightarrow> length (accepted s) = Suc (popped s)"
    using frame_size(1) [OF f] frameD(7) [OF f]
    by (auto simp: get_current_task_num_def word_unat_eq_iff)
  have "frame_ok sizeof tbl s' = frame_ok sizeof tbl s" "cells_ok tbl s' = cells_ok tbl s"
    unfolding s' by (rule frame_ok_cong cells_ok_cong; simp add: popped_def constructing_def destroying_def assms)+
  then show ?thesis
    using assms(1,2) one unfolding s' by (auto simp: tq_parts split: worker.splits)
qed

lemma post_ok: 
  assumes "tq_ok sizeof tbl result s" "tq_pusher s = P_Post"
  shows "tq_ok sizeof tbl result (s\<lparr>tq_sema := Suc (tq_sema s), tq_pusher := P_Idle\<rparr>)" (is "tq_ok _ _ _ ?s")
proof -
  have "frame_ok sizeof tbl ?s = frame_ok sizeof tbl s" "cells_ok tbl ?s = cells_ok tbl s"
    by (rule frame_ok_cong cells_ok_cong; simp add: popped_def constructing_def destroying_def assms)+
  then show ?thesis
    using assms by (auto simp: tq_parts split: worker.splits)
qed

lemma publish_ok:
  assumes ok: "tq_ok sizeof tbl result s" and p: "tq_pusher s = P_Inner t"
    and step: "push_step sizeof s (P_Inner t) = Inr s'"
  shows "tq_ok sizeof tbl result s'"
proof (cases "q_full (tq_queue s)")
  case True
  have f: "frame_ok sizeof tbl s"
    using ok by (simp add: tq_ok_def)
  have s': "s' = s\<lparr>tq_pusher := P_Check\<rparr>"
    using step True frameD(1) [OF f] by (simp add: Let_def)
  have "frame_ok sizeof tbl s' = frame_ok sizeof tbl s" "cells_ok tbl s' = cells_ok tbl s"
    unfolding s' by (rule frame_ok_cong cells_ok_cong; simp add: popped_def constructing_def destroying_def p)+
  then show ?thesis
    using ok p unfolding s' by (auto simp: tq_parts split: worker.splits)
next
  case False
  have f: "frame_ok sizeof tbl s" and c: "cells_ok tbl s"
    using ok by (simp_all add: tq_ok_def)
  note F = frameD [OF f]
  let ?n = "length (accepted s)"
  have s': "s' = s\<lparr>tq_queue := (tq_queue s)\<lparr>q_widx := q_widx (tq_queue s) + 1\<rparr>,
      accepted := accepted s @ [t], tq_pusher := P_Construct t (slot tbl ?n)\<rparr>"
    using step False F(1) frame_at [OF f] by (auto simp: Let_def F(6))
  have pop: "popped s' = popped s" and obj: "obj_at tbl s' = obj_at tbl s"
    and d: "destroying s' = destroying s" and con: "constructing s'" "\<not> constructing s"
    by (auto simp: s' popped_def obj_at_def destroying_def constructing_def p fun_eq_iff)
  have lt: "?n < popped s + length tbl"
    using False frame_size(3) [OF f] F(8) by simp
  have "frame_ok sizeof tbl s'"
    using f lt pop by (simp add: s' frame_ok_def Let_def table_ok_def add.commute)
  moreover have "cells_ok tbl s'"
    using c con lt unfolding cells_ok_def pop obj d
    by (auto simp: s' nth_append less_Suc_eq le_Suc_eq)
  moreover have "ran_ok result s'"
  proof -
    have "length (ran s) \<le> ?n" "ran s = take (length (ran s)) (accepted s)"
      using ok by (auto simp: tq_ok_def ran_ok_def) (metis length_take min.cobounded1)
    then show ?thesis
      using ok by (simp add: s' tq_ok_def ran_ok_def split: worker.splits)
  qed
  moreover have "worker_ok tbl s'"
    using ok con(2) F(7) unfolding tq_ok_def worker_ok_def front_ready_def pop
    by (auto simp: s' nth_append split: worker.splits)
  moreover have "wake_ok s'"
    using ok con p F(7) unfolding tq_ok_def wake_ok_def pop by (auto simp: s')
  moreover have "pusher_ok tbl s'"
    using F(7) unfolding pusher_ok_def pop by (simp add: s')
  ultimately show ?thesis
    by (simp add: tq_ok_def)
qed

lemma cells_live:
  "cells_ok tbl s \<Longrightarrow> popped s \<le> i \<Longrightarrow> i < length (accepted s) \<Longrightarrow> \<not> (constructing s \<and> Suc i = length (accepted s)) \<Longrightarrow>
    obj_at tbl s i \<in> {None, Some (accepted s ! i)}"
  unfolding cells_ok_def by presburger

lemma construct_ok:
  assumes ok: "tq_ok sizeof tbl result s" and p: "tq_pusher s = P_Construct t p"
    and step: "push_step sizeof s (P_Construct t p) = Inr s'"
  shows "tq_ok sizeof tbl result s'"
proof -
  let ?n = "length (accepted s)" and ?os = "(objs (tq_heap s))(p := Some t)"
  have f: "frame_ok sizeof tbl s" and c: "cells_ok tbl s"
    and p': "popped s < ?n" "p = slot tbl (?n - 1)" "t = last (accepted s)"
    using ok p by (simp_all add: tq_ok_def pusher_ok_def)
  note F = frameD [OF f]
  have s': "s' = s\<lparr>tq_heap := (tq_heap s)\<lparr>objs := ?os,
      words := \<lambda>a. if a - p < sizeof then None else words (tq_heap s) a\<rparr>, tq_pusher := P_Check\<rparr>"
    using step by (auto simp: bind_res_Inr construct_def split: if_splits)
  have pop: "popped s' = popped s" and d: "destroying s' = destroying s" and con: "\<not> constructing s'" "constructing s"
    by (auto simp: s' popped_def destroying_def constructing_def p)
  have obj: "obj_at tbl s' i = (if i = ?n - 1 then Some t else obj_at tbl s i)"
    if "popped s \<le> i" "i < popped s + length tbl" for i
    using slot_window [OF F(2) that(1) _ that(2), of "?n - 1"] p' F(8) by (simp add: obj_at_def s')
  have "frame_ok sizeof tbl s'"
    using f table_ok_construct [of sizeof tbl "tq_queue s" "tq_heap s" p] slot_mem [OF F(3)]
    unfolding frame_ok_def Let_def pop by (simp add: s' p'(2))
  moreover have "cells_ok tbl s'"
  proof -
    have t: "t = accepted s ! (?n - 1)"
      using p'(1,3) by (cases "accepted s") (auto simp: last_conv_nth)
    have acc: "accepted s' = accepted s"
      by (simp add: s')
    show ?thesis
    proof (unfold cells_ok_def pop d acc, intro conjI allI impI)
      fix i
      assume i: "popped s \<le> i" "i < ?n"
      show "if constructing s' \<and> Suc i = ?n then obj_at tbl s' i = None \<or> destroying s \<and> Suc i = popped s + length tbl
          else obj_at tbl s' i \<in> {None, Some (accepted s ! i)}"
      proof (cases "i = ?n - 1")
        case False
        then have "Suc i \<noteq> ?n"
          by simp
        then show ?thesis
          using cells_live [OF c i] F(8) i con obj [of i] False by auto
      qed (use F(8) con obj [of i] i t in simp)
    next
      fix i
      assume i: "?n \<le> i" "i < popped s + length tbl"
      then show "obj_at tbl s' i = None \<or> destroying s \<and> Suc i = popped s + length tbl"
        using c p'(1) obj [of i] unfolding cells_ok_def by auto
    qed
  qed
  moreover have "ran_ok result s'" "worker_ok tbl s'" "wake_ok s'" "pusher_ok tbl s'"
    using ok con p unfolding tq_ok_def ran_ok_def worker_ok_def front_ready_def wake_ok_def pusher_ok_def pop
    by (auto simp: s' split: worker.splits)
  ultimately show ?thesis
    by (simp add: tq_ok_def)
qed

lemma all_results:
  assumes "\<forall>i. Suc i < length ts \<longrightarrow> result (take i ts) (ts ! i)" "last_result result ts"
  shows "i < length ts \<Longrightarrow> result (take i ts) (ts ! i)"
proof (cases "Suc i = length ts")
  case True
  then show ?thesis
    using assms(2) by (cases ts rule: rev_cases) (auto simp: last_result_def nth_append)
qed (use assms(1) in auto)

text \<open>The worker.\<close>

lemma top_ok:
  assumes ok: "tq_ok sizeof tbl result s" and w: "tq_worker s = C_Top"
    and step: "work_step result s C_Top = Inr s'"
  shows "tq_ok sizeof tbl result s'"
proof -
  have f: "frame_ok sizeof tbl s"
    using ok by (simp add: tq_ok_def)
  have s': "s' = s\<lparr>tq_worker := (if length (accepted s) = popped s then C_Wait else C_Front)\<rparr>"
    using step by (simp add: frame_size(2) [OF f])
  have "frame_ok sizeof tbl s' = frame_ok sizeof tbl s" "cells_ok tbl s' = cells_ok tbl s"
    unfolding s' by (rule frame_ok_cong cells_ok_cong; simp add: popped_def constructing_def destroying_def w)+
  then show ?thesis
    using ok w frameD(7) [OF f] unfolding s' by (auto simp: tq_parts split: pusher.splits)
qed

lemma wait_ok:
  assumes ok: "tq_ok sizeof tbl result s" and w: "tq_worker s = C_Wait"
  shows "tq_ok sizeof tbl result (s\<lparr>tq_sema := tq_sema s - 1, tq_worker := C_Top\<rparr>)" (is "tq_ok _ _ _ ?s")
proof -
  have "frame_ok sizeof tbl ?s = frame_ok sizeof tbl s" "cells_ok tbl ?s = cells_ok tbl s"
    by (rule frame_ok_cong cells_ok_cong; simp add: popped_def constructing_def destroying_def w)+
  then show ?thesis
    using ok w by (auto simp: tq_parts split: pusher.splits)
qed

lemma front_ok:
  assumes ok: "tq_ok sizeof tbl result s" and w: "tq_worker s = C_Front"
    and step: "work_step result s C_Front = Inr s'"
  shows "tq_ok sizeof tbl result s'"
proof -
  have f: "frame_ok sizeof tbl s" and c: "cells_ok tbl s" and lt: "popped s < length (accepted s)"
    using ok w by (simp_all add: tq_ok_def worker_ok_def)
  obtain t where t: "obj_at tbl s (popped s) = Some t" "s' = s\<lparr>tq_worker := C_Run t\<rparr>"
    using step by (auto simp: bind_res_Inr q_front_def frameD(5) [OF f] frame_at [OF f] obj_at_def
        split: if_splits option.splits)
  have "\<not> destroying s"
    by (simp add: destroying_def w)
  then have front: "t = accepted s ! popped s" "constructing s \<longrightarrow> Suc (popped s) < length (accepted s)"
    using c lt t(1) unfolding cells_ok_def by (auto split: if_splits)
  have "frame_ok sizeof tbl s' = frame_ok sizeof tbl s" "cells_ok tbl s' = cells_ok tbl s"
    unfolding t(2) by (rule frame_ok_cong cells_ok_cong; simp add: popped_def constructing_def destroying_def w)+
  then show ?thesis
    using ok w front lt unfolding t(2) by (auto simp: tq_parts split: pusher.splits)
qed

lemma task_run_ok:
  assumes ok: "tq_ok sizeof tbl result s" and w: "tq_worker s = C_Run t"
  shows "tq_ok sizeof tbl result (s\<lparr>ran := ran s @ [t], tq_worker := C_Pop (result (ran s) t)\<rparr>)" (is "tq_ok _ _ _ ?s")
proof -
  have pop: "popped ?s = popped s" "popped s = length (ran s)"
    by (simp_all add: popped_def w)
  have eq: "frame_ok sizeof tbl ?s = frame_ok sizeof tbl s" "cells_ok tbl ?s = cells_ok tbl s"
    by (rule frame_ok_cong cells_ok_cong; simp add: popped_def constructing_def destroying_def w)+
  have front: "front_ready s" "t = accepted s ! length (ran s)"
    using ok w pop(2) by (auto simp: tq_ok_def worker_ok_def)
  then have "length (ran s) < length (accepted s)"
    by (simp add: front_ready_def pop)
  moreover have r: "ran s = take (length (ran s)) (accepted s)" "last_result result (ran s)"
      "\<forall>i. Suc i < length (ran s) \<longrightarrow> result (take i (ran s)) (ran s ! i)"
      "tq_processed s = of_nat (length (ran s))"
    using ok w by (simp_all add: tq_ok_def ran_ok_def)
  ultimately have tk: "take (Suc (length (ran s))) (accepted s) = ran s @ [t]"
    using front(2) by (simp add: take_Suc_conv_app_nth)
  have "ran_ok result ?s"
    using all_results [OF r(3,2)] r(4) unfolding ran_ok_def
    by (simp add: tk last_result_def nth_append)
  moreover have "pusher_ok tbl ?s" "worker_ok tbl ?s" "wake_ok ?s"
    using ok w front(1) pop unfolding tq_ok_def pusher_ok_def worker_ok_def wake_ok_def front_ready_def
    by (auto simp: constructing_def split: pusher.splits)
  ultimately show ?thesis
    using ok by (simp add: tq_ok_def eq)
qed

lemma pop_ok:
  assumes ok: "tq_ok sizeof tbl result s" and w: "tq_worker s = C_Pop fin"
    and step: "work_step result s (C_Pop fin) = Inr s'"
  shows "tq_ok sizeof tbl result s'"
proof -
  have f: "frame_ok sizeof tbl s" and c: "cells_ok tbl s" and fr: "front_ready s" "ran s \<noteq> []"
    using ok w by (simp_all add: tq_ok_def worker_ok_def)
  note F = frameD [OF f]
  have lt: "popped s < length (accepted s)"
    using fr by (simp add: front_ready_def)
  have s': "s' = s\<lparr>tq_queue := (tq_queue s)\<lparr>q_ridx := q_ridx (tq_queue s) + 1\<rparr>,
      tq_worker := C_Destroy (slot tbl (popped s)) fin\<rparr>"
    using step lt F(1) frame_size(2) [OF f] frame_at [OF f] by (auto simp: Let_def F(5))
  have pop: "popped s' = Suc (popped s)"
    using fr(2) by (simp add: s' popped_def w)
  have same: "obj_at tbl s' = obj_at tbl s" "constructing s' = constructing s" "destroying s'" "\<not> destroying s"
      "accepted s' = accepted s"
    by (auto simp: s' obj_at_def constructing_def destroying_def w fun_eq_iff)
  have "frame_ok sizeof tbl s'"
    using f lt unfolding frame_ok_def pop by (simp add: s' Let_def table_ok_def add.commute)
  moreover have "cells_ok tbl s'"
    using c same(4) unfolding cells_ok_def pop same(1,2,5)
    by (auto simp: same(3) less_Suc_eq split: if_splits)
  moreover have "ran_ok result s'"
    using ok w by (auto simp: tq_ok_def ran_ok_def s')
  moreover have "worker_ok tbl s'"
    unfolding worker_ok_def pop by (simp add: s')
  moreover have "pusher_ok tbl s'"
    using ok fr(1) unfolding tq_ok_def pusher_ok_def pop
    by (auto simp: s' front_ready_def constructing_def split: pusher.splits)
  ultimately show ?thesis
    by (simp add: tq_ok_def wake_ok_def s')
qed

lemma destroy_ok:
  assumes ok: "tq_ok sizeof tbl result s" and w: "tq_worker s = C_Destroy p fin"
    and step: "work_step result s (C_Destroy p fin) = Inr s'"
  shows "tq_ok sizeof tbl result s'"
proof -
  let ?os = "(objs (tq_heap s))(p := None)"
  have f: "frame_ok sizeof tbl s" and c: "cells_ok tbl s" and p: "0 < popped s" "p = slot tbl (popped s - 1)"
    using ok w by (simp_all add: tq_ok_def worker_ok_def)
  note F = frameD [OF f]
  obtain x where s': "s' = s\<lparr>tq_heap := (tq_heap s)\<lparr>objs := ?os\<rparr>, deleted := deleted s @ [x], tq_worker := C_Count fin\<rparr>"
    using step by (auto simp: bind_res_Inr destruct_def split: option.splits)
  have pop: "popped s' = popped s" and same: "constructing s' = constructing s" "\<not> destroying s'" "accepted s' = accepted s"
    by (auto simp: s' popped_def constructing_def destroying_def w)
  obtain j where j: "Suc j = popped s + length tbl" "popped s \<le> j"
    using F(3) by (cases "length tbl") auto
  then have "j = popped s - 1 + length tbl"
    using p(1) by simp
  then have p': "p = slot tbl j"
    using p(2) slot_add_length [of tbl "popped s - 1"] by simp
  have obj: "obj_at tbl s' i = (if Suc i = popped s + length tbl then None else obj_at tbl s i)"
    if "popped s \<le> i" "i < popped s + length tbl" for i
    using slot_window [OF F(2) that(1) j(2) that(2)] j(1) by (auto simp: obj_at_def s' p')
  have "frame_ok sizeof tbl s'"
    using f unfolding frame_ok_def Let_def pop by (simp add: s' table_ok_objs)
  moreover have "cells_ok tbl s'"
  proof (unfold cells_ok_def pop same(1,3), intro conjI allI impI)
    fix i
    assume "popped s \<le> i" "i < length (accepted s)"
    then show "if constructing s \<and> Suc i = length (accepted s)
        then obj_at tbl s' i = None \<or> destroying s' \<and> Suc i = popped s + length tbl
        else obj_at tbl s' i \<in> {None, Some (accepted s ! i)}"
      using c F(8) obj [of i] unfolding cells_ok_def by (auto split: if_splits)
  next
    fix i
    assume "length (accepted s) \<le> i" "i < popped s + length tbl"
    then show "obj_at tbl s' i = None \<or> destroying s' \<and> Suc i = popped s + length tbl"
      using c F(7) obj [of i] unfolding cells_ok_def by auto
  qed
  moreover have "ran_ok result s'" "worker_ok tbl s'" "wake_ok s'" "pusher_ok tbl s'"
    using ok w unfolding tq_ok_def ran_ok_def worker_ok_def wake_ok_def pusher_ok_def pop
    by (auto simp: s' split: pusher.splits)
  ultimately show ?thesis
    by (simp add: tq_ok_def)
qed

lemma count_ok:
  assumes ok: "tq_ok sizeof tbl result s" and w: "tq_worker s = C_Count fin"
    and step: "work_step result s (C_Count fin) = Inr s'"
  shows "tq_ok sizeof tbl result s'"
proof -
  have s': "s' = s\<lparr>tq_processed := tq_processed s + 1, tq_worker := (if \<not> fin then C_Done else C_Top)\<rparr>"
    using step by simp
  have "frame_ok sizeof tbl s' = frame_ok sizeof tbl s" "cells_ok tbl s' = cells_ok tbl s"
    unfolding s' by (rule frame_ok_cong cells_ok_cong; simp add: popped_def constructing_def destroying_def w)+
  then show ?thesis
    using ok w unfolding s' by (auto simp: tq_parts split: pusher.splits)
qed

lemma tq_step_ok:
  assumes ok: "tq_ok sizeof tbl result s" and step: "tq_step sizeof result s e = Inr s'"
  shows "tq_ok sizeof tbl result s'"
proof (cases e)
  case (Call t)
  then show ?thesis
    using ok step call_ok [OF ok] by (auto split: if_splits)
next
  case Push_on
  then have "push_step sizeof s (tq_pusher s) = Inr s'"
    using step by simp
  then show ?thesis
    using ok publish_ok [OF ok] construct_ok [OF ok] check_ok [OF ok] post_ok [OF ok]
    by (cases "tq_pusher s") auto
next
  case Work
  then have "work_step result s (tq_worker s) = Inr s'"
    using step by simp
  then show ?thesis
    using ok top_ok [OF ok] wait_ok [OF ok] front_ok [OF ok] task_run_ok [OF ok] pop_ok [OF ok]
      destroy_ok [OF ok] count_ok [OF ok]
    by (cases "tq_worker s") (auto simp del: work_step.simps(1,3,5,6,7) split: if_splits)
qed

interpretation tqs: checked_steps "tq_step sizeof result" "tq_ok sizeof tbl result"
  for sizeof tbl result
  by unfold_locales (rule tq_step_ok)

section \<open>What every interleaving keeps\<close>

text \<open>A new thread object, over an allocator that hands out a table of distinct raw objects.\<close>

definition started :: "size_t \<Rightarrow> u64 list \<Rightarrow> 'a tq \<Rightarrow> bool" where
  "started sizeof tbl s \<longleftrightarrow>
     (\<exists>allocf cap h. tq_new allocf sizeof cap h = Inr s)
     \<and> q_buffer (tq_queue s) \<noteq> 0 \<and> table_ok sizeof tbl (tq_queue s) (tq_heap s)
     \<and> (\<forall>p \<in> set tbl. objs (tq_heap s) p = None)"

lemma started_fields:
  assumes "started sizeof tbl s"
  shows "q_ridx (tq_queue s) = 0" "q_widx (tq_queue s) = 0" "q_mask (tq_queue s) = q_capacity (tq_queue s) - 1"
    "tq_processed s = 0" "tq_sema s = 0" "tq_pusher s = P_Idle" "tq_worker s = C_Top"
    "accepted s = []" "ran s = []" "deleted s = []"
    "pow2 (q_capacity (tq_queue s))" "0 < length tbl"
proof -
  obtain allocf cap h where new: "tq_new allocf sizeof cap h = Inr s"
    and t: "table_ok sizeof tbl (tq_queue s) (tq_heap s)"
    using assms by (auto simp: started_def)
  obtain c where c: "next_pow2 cap = Inr c" "q_capacity (tq_queue s) = c" "q_mask (tq_queue s) = c - 1"
      "q_ridx (tq_queue s) = 0" "q_widx (tq_queue s) = 0" "tq_processed s = 0" "tq_sema s = 0"
      "tq_pusher s = P_Idle" "tq_worker s = C_Top" "accepted s = []" "ran s = []" "deleted s = []"
    using new by (auto simp: tq_new_def q_new_def bind_res_Inr Let_def split_beta)
  show "q_ridx (tq_queue s) = 0" "q_widx (tq_queue s) = 0" "q_mask (tq_queue s) = q_capacity (tq_queue s) - 1"
    "tq_processed s = 0" "tq_sema s = 0" "tq_pusher s = P_Idle" "tq_worker s = C_Top"
    "accepted s = []" "ran s = []" "deleted s = []"
    using c by simp_all
  show p: "pow2 (q_capacity (tq_queue s))"
    using next_pow2_pow2 [OF c(1)] c(2) by simp
  show "0 < length tbl"
    using t pow2_pos [OF p] by (simp add: table_ok_def)
qed

lemma started_ok:
  assumes "started sizeof tbl s"
  shows "tq_ok sizeof tbl result s"
proof -
  note F = started_fields [OF assms]
  have "popped s = 0"
    by (simp add: popped_def F)
  moreover have "obj_at tbl s i = None" for i
    using assms slot_mem [OF F(12), of i] by (simp add: started_def obj_at_def)
  ultimately show ?thesis
    using assms F by (simp add: tq_ok_def frame_ok_def Let_def cells_ok_def pusher_ok_def worker_ok_def
        ran_ok_def wake_ok_def last_result_def started_def)
qed

text \<open>C23: no wake-up is lost: in every interleaving of the worker with one pushing thread, whenever the
  worker sleeps on the semaphore and no \<open>push\<close> is under way, the queue is empty.\<close>

theorem no_lost_wakeup:
  assumes "started sizeof tbl s" "run_res (tq_step sizeof result) s es = Inr s'"
    and "tq_worker s' = C_Wait" "tq_sema s' = 0" "tq_pusher s' = P_Idle"
  shows "get_current_task_num s' = 0"
proof -
  have ok: "tq_ok sizeof tbl result s'"
    using tqs.run_keeps [OF started_ok [OF assms(1)] assms(2)] .
  then have "frame_ok sizeof tbl s'" "wake_ok s'"
    by (simp_all add: tq_ok_def)
  then show ?thesis
    using assms(3-5) frame_size(2) frameD(7)
    by (fastforce simp: wake_ok_def constructing_def get_current_task_num_def q_empty_def)
qed

text \<open>C22: as long as no access was undefined behaviour, the tasks run are the tasks pushed, in the order
  of the pushes and each once; the worker stops at the first task that returns false and at no
  other; the queue never holds more than its capacity; and the counter of processed tasks is the
  number of tasks run, less the one being retired.\<close>

theorem tasks_run_in_order:
  assumes "started sizeof tbl s" "run_res (tq_step sizeof result) s es = Inr s'"
  shows "ran s' = take (length (ran s')) (accepted s')
    \<and> (\<forall>i. Suc i < length (ran s') \<longrightarrow> result (take i (ran s')) (ran s' ! i))
    \<and> (tq_worker s' = C_Done \<longrightarrow> ran s' \<noteq> [] \<and> \<not> result (butlast (ran s')) (last (ran s')))
    \<and> unat (get_current_task_num s') \<le> unat (q_capacity (tq_queue s'))
    \<and> (tq_processed s' = of_nat (length (ran s')) \<or> tq_processed s' + 1 = of_nat (length (ran s')))"
proof -
  have ok: "tq_ok sizeof tbl result s'"
    using tqs.run_keeps [OF started_ok [OF assms(1)] assms(2)] .
  then have f: "frame_ok sizeof tbl s'" and r: "ran_ok result s'"
    by (simp_all add: tq_ok_def)
  have "unat (get_current_task_num s') \<le> unat (q_capacity (tq_queue s'))"
    using frame_size(1) [OF f] f
    by (auto simp: get_current_task_num_def frame_ok_def Let_def table_ok_def)
  then show ?thesis
    using r unfolding ran_ok_def last_result_def by (auto split: worker.splits)
qed

text \<open>C24: the index is published before the task is: if the worker looks while a push is between the
  two, it takes a slot without an object, which is undefined behaviour. The first push suffices.\<close>

theorem push_publishes_too_early:
  assumes "started sizeof tbl s"
  shows "run_res (tq_step sizeof result) s [Call t, Push_on, Work, Work] = Inl Undefined"
proof -
  note S = started_fields [OF assms]
  have ok: "tq_ok sizeof tbl result s"
    using started_ok [OF assms] .
  then have f: "frame_ok sizeof tbl s"
    by (simp add: tq_ok_def)
  have nf: "\<not> q_full (tq_queue s)" and sz: "q_size (tq_queue s) = 0"
    using frame_size(3) [OF f] S by (simp_all add: popped_def q_size_def)
  have at: "q_at (tq_queue s) (tq_heap s) 0 = Inr (slot tbl 0)"
    using frame_at [OF f, of 0] by simp
  have at1: "q_at (tq_queue s\<lparr>q_widx := 1\<rparr>) (tq_heap s) 0 = q_at (tq_queue s) (tq_heap s) 0"
    by (simp add: q_at_def)
  have "objs (tq_heap s) (slot tbl 0) = None"
    using assms slot_mem [OF S(12)] by (simp add: started_def)
  then show ?thesis
    using nf at at1 frameD(1) [OF f] S
    by (simp add: Let_def q_empty_def q_size_def q_front_def q_full_def)
qed

section \<open>Schedules that respect the windows\<close>

text \<open>The same steps under a scheduler that lets no thread run while the other is between its index and
  its element.\<close>

definition calm_step :: "size_t \<Rightarrow> ('a list \<Rightarrow> 'a \<Rightarrow> bool) \<Rightarrow> 'a tq \<Rightarrow> 'a tq_event \<Rightarrow> 'a tq res" where
  "calm_step sizeof result s e =
     (if (if e = Work then constructing s else destroying s) then Inr s else tq_step sizeof result s e)"

definition calm_cells :: "u64 list \<Rightarrow> 'a tq \<Rightarrow> bool" where
  "calm_cells tbl s \<longleftrightarrow>
     \<not> (constructing s \<and> destroying s)
     \<and> (\<forall>i. popped s \<le> i \<longrightarrow> i < length (accepted s) \<longrightarrow> \<not> (constructing s \<and> Suc i = length (accepted s)) \<longrightarrow>
          obj_at tbl s i = Some (accepted s ! i))
     \<and> (destroying s \<longrightarrow> obj_at tbl s (popped s - 1) = Some (accepted s ! (popped s - 1))
          \<and> length (accepted s) < popped s + length tbl)
     \<and> deleted s = take (popped s - (if destroying s then 1 else 0)) (accepted s)"

lemma calm_cong:
  "tq_heap s' = tq_heap s \<Longrightarrow> popped s' = popped s \<Longrightarrow> accepted s' = accepted s \<Longrightarrow> deleted s' = deleted s \<Longrightarrow>
    constructing s' = constructing s \<Longrightarrow> destroying s' = destroying s \<Longrightarrow> calm_cells tbl s' = calm_cells tbl s"
  by (simp add: calm_cells_def obj_at_def)

lemma calm_live:
  "calm_cells tbl s \<Longrightarrow> popped s \<le> i \<Longrightarrow> i < length (accepted s) \<Longrightarrow> \<not> (constructing s \<and> Suc i = length (accepted s)) \<Longrightarrow>
    obj_at tbl s i = Some (accepted s ! i)"
  unfolding calm_cells_def by blast

lemma calm_push:
  assumes ok: "tq_ok sizeof tbl result s" and c: "calm_cells tbl s" and d: "\<not> destroying s"
  shows "\<exists>s'. push_step sizeof s (tq_pusher s) = Inr s' \<and> calm_cells tbl s'"
proof -
  have f: "frame_ok sizeof tbl s"
    using ok by (simp add: tq_ok_def)
  note F = frameD [OF f]
  let ?n = "length (accepted s)"
  show ?thesis
  proof (cases "tq_pusher s")
    case (P_Inner t)
    show ?thesis
    proof (cases "q_full (tq_queue s)")
      case True
      have "calm_cells tbl (s\<lparr>tq_pusher := P_Check\<rparr>) = calm_cells tbl s"
        by (rule calm_cong) (simp_all add: popped_def constructing_def destroying_def P_Inner)
      then show ?thesis
        using P_Inner True F(1) c by (simp add: Let_def)
    next
      case False
      let ?s = "s\<lparr>tq_queue := (tq_queue s)\<lparr>q_widx := q_widx (tq_queue s) + 1\<rparr>,
        accepted := accepted s @ [t], tq_pusher := P_Construct t (slot tbl ?n)\<rparr>"
      have pop: "popped ?s = popped s" and same: "obj_at tbl ?s = obj_at tbl s" "constructing ?s"
          "destroying ?s = destroying s" "\<not> constructing s"
        by (auto simp: popped_def obj_at_def constructing_def destroying_def P_Inner fun_eq_iff)
      have "calm_cells tbl ?s"
        using c d F(7) same(4) unfolding calm_cells_def pop same(1,3)
        by (auto simp: same(2) nth_append)
      then show ?thesis
        using P_Inner False F(1) frame_at [OF f] by (simp add: Let_def F(6))
    qed
  next
    case (P_Construct t p)
    have p: "popped s < ?n" "p = slot tbl (?n - 1)" "t = last (accepted s)"
      using ok P_Construct by (simp_all add: tq_ok_def pusher_ok_def)
    let ?h = "(tq_heap s)\<lparr>objs := (objs (tq_heap s))(p := Some t),
        words := \<lambda>a. if a - p < sizeof then None else words (tq_heap s) a\<rparr>"
    let ?s = "s\<lparr>tq_heap := ?h, tq_pusher := P_Check\<rparr>"
    have "table_ok sizeof tbl (tq_queue s) (tq_heap s)"
      using f by (simp add: frame_ok_def Let_def)
    then have "construct sizeof p t (tq_heap s) = Inr ?h"
      using slot_mem [OF F(3), of "?n - 1"] p(2) by (auto simp: construct_def table_ok_def)
    moreover have "calm_cells tbl ?s"
    proof -
      have same: "popped ?s = popped s" "\<not> constructing ?s" "destroying ?s = destroying s" "constructing s"
          "accepted ?s = accepted s" "deleted ?s = deleted s"
        by (auto simp: popped_def constructing_def destroying_def P_Construct)
      have last: "accepted s ! (?n - 1) = t"
        using p(1,3) by (cases "accepted s") (auto simp: last_conv_nth)
      have "obj_at tbl ?s i = Some (accepted s ! i)" if "popped s \<le> i" "i < ?n" for i
      proof (cases "i = ?n - 1")
        case True
        then show ?thesis
          using last by (simp add: obj_at_def p(2))
      next
        case False
        then have "obj_at tbl ?s i = obj_at tbl s i"
          using slot_window [OF F(2) that(1), of "?n - 1"] that p(1) F(8) by (simp add: obj_at_def p(2))
        then show ?thesis
          using calm_live [OF c that] False that(2) by force
      qed
      then show ?thesis
        using c d same unfolding calm_cells_def by simp
    qed
    ultimately show ?thesis
      using P_Construct by simp
  next
    case P_Check
    have "calm_cells tbl (s\<lparr>tq_pusher := x\<rparr>) = calm_cells tbl s" if "x = P_Post \<or> x = P_Idle" for x
      by (rule calm_cong) (use that in \<open>auto simp: popped_def constructing_def destroying_def P_Check\<close>)
    then show ?thesis
      using P_Check c by simp
  next
    case P_Post
    have "calm_cells tbl (s\<lparr>tq_sema := Suc (tq_sema s), tq_pusher := P_Idle\<rparr>) = calm_cells tbl s"
      by (rule calm_cong) (simp_all add: popped_def constructing_def destroying_def P_Post)
    then show ?thesis
      using P_Post c by simp
  qed (use c in simp)
qed

lemma calm_call:
  assumes "calm_cells tbl s" "tq_pusher s = P_Idle"
  shows "calm_cells tbl (s\<lparr>tq_pusher := P_Inner t\<rparr>)"
proof -
  have "calm_cells tbl (s\<lparr>tq_pusher := P_Inner t\<rparr>) = calm_cells tbl s"
    by (rule calm_cong) (simp_all add: popped_def constructing_def destroying_def assms(2))
  then show ?thesis
    using assms(1) by simp
qed

lemma calm_work:
  assumes ok: "tq_ok sizeof tbl result s" and c: "calm_cells tbl s" and nc: "\<not> constructing s"
  shows "\<exists>s'. work_step result s (tq_worker s) = Inr s' \<and> calm_cells tbl s'"
proof -
  have f: "frame_ok sizeof tbl s"
    using ok by (simp add: tq_ok_def)
  note F = frameD [OF f]
  let ?n = "length (accepted s)"
  note flags = popped_def constructing_def destroying_def
  show ?thesis
  proof (cases "tq_worker s")
    case C_Top
    have "calm_cells tbl (s\<lparr>tq_worker := x\<rparr>) = calm_cells tbl s" if "x = C_Wait \<or> x = C_Front" for x
      by (rule calm_cong) (use that C_Top in \<open>auto simp: flags\<close>)
    then show ?thesis
      using C_Top c by simp
  next
    case C_Wait
    have "calm_cells tbl (s\<lparr>tq_sema := tq_sema s - 1, tq_worker := C_Top\<rparr>) = calm_cells tbl s"
      by (rule calm_cong) (simp_all add: flags C_Wait)
    then show ?thesis
      using C_Wait c by simp
  next
    case C_Front
    then have lt: "popped s < ?n"
      using ok by (simp add: tq_ok_def worker_ok_def)
    let ?t = "accepted s ! popped s"
    have "obj_at tbl s (popped s) = Some ?t"
      using calm_live [OF c _ lt] nc by simp
    then have "q_front (tq_queue s) (tq_heap s) = Inr ?t"
      using lt frame_size(2) [OF f] frame_at [OF f] by (simp add: q_front_def F(5) obj_at_def)
    moreover have "calm_cells tbl (s\<lparr>tq_worker := C_Run ?t\<rparr>) = calm_cells tbl s"
      by (rule calm_cong) (simp_all add: flags C_Front)
    ultimately show ?thesis
      using C_Front c by simp
  next
    case (C_Run t)
    have "calm_cells tbl (s\<lparr>ran := ran s @ [t], tq_worker := C_Pop (result (ran s) t)\<rparr>) = calm_cells tbl s"
      by (rule calm_cong) (simp_all add: flags C_Run)
    then show ?thesis
      using C_Run c by simp
  next
    case (C_Pop b)
    then have lt: "popped s < ?n" and ne: "ran s \<noteq> []"
      using ok by (simp_all add: tq_ok_def worker_ok_def front_ready_def)
    let ?s = "s\<lparr>tq_queue := (tq_queue s)\<lparr>q_ridx := q_ridx (tq_queue s) + 1\<rparr>,
      tq_worker := C_Destroy (slot tbl (popped s)) b\<rparr>"
    have same: "popped ?s = Suc (popped s)" "\<not> constructing ?s" "destroying ?s" "\<not> destroying s"
        "obj_at tbl ?s = obj_at tbl s" "accepted ?s = accepted s" "deleted ?s = deleted s"
      using nc ne by (auto simp: flags C_Pop obj_at_def fun_eq_iff)
    have "calm_cells tbl ?s"
      using c nc calm_live [OF c _ lt] F(8) same by (simp add: calm_cells_def)
    moreover have "work_step result s (C_Pop b) = Inr ?s"
      using lt F(1) frame_size(2) [OF f] frame_at [OF f] by (simp add: Let_def F(5))
    ultimately show ?thesis
      using C_Pop by simp
  next
    case (C_Destroy p b)
    then have d: "destroying s" and p: "0 < popped s" "p = slot tbl (popped s - 1)"
      using ok by (simp_all add: tq_ok_def worker_ok_def destroying_def)
    let ?x = "accepted s ! (popped s - 1)"
    have old: "objs (tq_heap s) p = Some ?x" and room: "?n < popped s + length tbl"
      and del: "deleted s = take (popped s - 1) (accepted s)"
      using c d by (simp_all add: calm_cells_def obj_at_def p(2))
    let ?s = "s\<lparr>tq_heap := (tq_heap s)\<lparr>objs := (objs (tq_heap s))(p := None)\<rparr>,
      deleted := deleted s @ [?x], tq_worker := C_Count b\<rparr>"
    have same: "popped ?s = popped s" "\<not> constructing ?s" "\<not> destroying ?s" "accepted ?s = accepted s"
        "deleted ?s = deleted s @ [?x]"
      using nc by (auto simp: flags C_Destroy)
    have "obj_at tbl ?s i = Some (accepted s ! i)" if i: "popped s \<le> i" "i < ?n" for i
    proof -
      have "slot tbl (popped s - 1) \<noteq> slot tbl i"
        by (rule slot_neq [OF F(2)]) (use i p(1) room in auto)
      then show ?thesis
        using calm_live [OF c i] nc by (simp add: obj_at_def p(2))
    qed
    moreover have "deleted s @ [?x] = take (popped s) (accepted s)"
    proof -
      obtain k where "popped s = Suc k"
        using p(1) by (cases "popped s") auto
      then show ?thesis
        using F(7) by (simp add: del take_Suc_conv_app_nth)
    qed
    ultimately have "calm_cells tbl ?s"
      using same by (simp add: calm_cells_def)
    moreover have "work_step result s (C_Destroy p b) = Inr ?s"
      using old by (simp add: destruct_def)
    ultimately show ?thesis
      using C_Destroy by simp
  next
    case (C_Count b)
    have "calm_cells tbl (s\<lparr>tq_processed := tq_processed s + 1, tq_worker := x\<rparr>) = calm_cells tbl s"
      if "x = C_Done \<or> x = C_Top" for x
      by (rule calm_cong) (use that in \<open>auto simp: flags C_Count\<close>)
    then show ?thesis
      using C_Count c by simp
  qed (use c in simp)
qed

text \<open>The invariant of calm schedules; no step of one faults.\<close>

definition calm_ok :: "size_t \<Rightarrow> u64 list \<Rightarrow> ('a list \<Rightarrow> 'a \<Rightarrow> bool) \<Rightarrow> 'a tq \<Rightarrow> bool" where
  "calm_ok sizeof tbl result s \<longleftrightarrow> tq_ok sizeof tbl result s \<and> calm_cells tbl s"

lemma calm_step_safe:
  assumes "calm_ok sizeof tbl result s"
  shows "\<exists>s'. calm_step sizeof result s e = Inr s' \<and> calm_ok sizeof tbl result s'"
proof -
  have ok: "tq_ok sizeof tbl result s" and c: "calm_cells tbl s"
    using assms by (simp_all add: calm_ok_def)
  have move: "\<exists>s'. tq_step sizeof result s e = Inr s' \<and> calm_cells tbl s'"
    if "\<not> (if e = Work then constructing s else destroying s)"
    using that calm_push [OF ok c] calm_work [OF ok c] calm_call [OF c] c by (cases e) auto
  show ?thesis
  proof (cases "if e = Work then constructing s else destroying s")
    case True
    have "calm_step sizeof result s e = Inr s"
      unfolding calm_step_def by (rule if_P [OF True])
    then show ?thesis
      using assms by simp
  next
    case False
    have "calm_step sizeof result s e = tq_step sizeof result s e"
      unfolding calm_step_def by (rule if_not_P [OF False])
    then show ?thesis
      using move [OF False] tq_step_ok [OF ok] by (auto simp: calm_ok_def)
  qed
qed

interpretation calm: safe_steps "calm_step sizeof result" "calm_ok sizeof tbl result" id
    "\<lambda>s e. case calm_step sizeof result s e of Inl _ \<Rightarrow> s | Inr s' \<Rightarrow> s'"
  for sizeof result tbl
proof unfold_locales
  fix s :: "'a tq" and e
  assume "calm_ok sizeof tbl result s"
  from calm_step_safe [OF this, of e] show "\<exists>s'. calm_step sizeof result s e = Inr s'
      \<and> calm_ok sizeof tbl result s' \<and> id s' = (case calm_step sizeof result (id s) e of Inl _ \<Rightarrow> id s | Inr s' \<Rightarrow> s')"
    by auto
qed

lemma started_calm: "started sizeof tbl s \<Longrightarrow> calm_ok sizeof tbl result s"
  using started_ok [of sizeof tbl s result] started_fields [of sizeof tbl s]
  by (auto simp: calm_ok_def calm_cells_def popped_def destroying_def constructing_def)

text \<open>C31: a new task queue whose buffer already holds the addresses of distinct raw objects, one for each
  place, as \<^verbatim>\<open>at\<close> reads them there. (The code stores none: on a buffer as \<^verbatim>\<open>malloc\<close> delivers it the first
  push is undefined under any schedule.) On such a queue, with one pushing thread, and under a scheduler
  that holds the worker while a push is between its index and its element, and the pusher while the
  worker is between its index and the destructor, nothing ever faults, every task is deleted once,
  after it ran, in order, and with no delay but the one being retired.\<close>

theorem calm_schedules_are_safe:
  assumes "started sizeof tbl s"
  shows "\<exists>s'. run_res (calm_step sizeof result) s es = Inr s'
    \<and> deleted s' = take (length (deleted s')) (ran s')
    \<and> length (ran s') \<le> Suc (length (deleted s'))
    \<and> ran s' = take (length (ran s')) (accepted s')"
proof -
  obtain s' where s': "run_res (calm_step sizeof result) s es = Inr s'" "calm_ok sizeof tbl result s'"
    using calm.run_safe [OF started_calm [OF assms]] by blast
  have r: "ran s' = take (length (ran s')) (accepted s')" "worker_ok tbl s'" "frame_ok sizeof tbl s'"
    and d: "deleted s' = take (popped s' - (if destroying s' then 1 else 0)) (accepted s')"
    using s'(2) by (simp_all add: calm_ok_def tq_ok_def ran_ok_def calm_cells_def)
  define k where "k = popped s' - (if destroying s' then 1 else 0)"
  have k: "k \<le> length (ran s')" "length (ran s') \<le> Suc k"
    by (auto simp: k_def popped_def destroying_def split: worker.splits)
  have "take k (ran s') = take k (accepted s')"
    using r(1) k(1) by (metis min.absorb1 take_take)
  then have "deleted s' = take k (ran s')"
    using d by (simp add: k_def)
  then show ?thesis
    using s'(1) r(1) k by auto
qed

text \<open>The work left: every step of the worker that is not stuck makes it smaller.\<close>

fun worker_rank :: "'a worker \<Rightarrow> nat" where
  "worker_rank C_Top = 7"
| "worker_rank C_Wait = 0"
| "worker_rank C_Front = 6"
| "worker_rank (C_Run _) = 5"
| "worker_rank (C_Pop _) = 4"
| "worker_rank (C_Destroy _ _) = 9"
| "worker_rank (C_Count _) = 8"
| "worker_rank C_Done = 0"

definition work_left :: "'a tq \<Rightarrow> nat" where
  "work_left s = 10 * (length (accepted s) - popped s) + 8 * tq_sema s + worker_rank (tq_worker s)"

definition stuck :: "'a tq \<Rightarrow> bool" where
  "stuck s \<longleftrightarrow> tq_worker s = C_Done \<or> tq_worker s = C_Wait \<and> tq_sema s = 0"

lemma work_left_less:
  assumes ok: "tq_ok sizeof tbl result s" and ns: "\<not> stuck s"
    and step: "work_step result s (tq_worker s) = Inr s'"
  shows "work_left s' < work_left s \<and> tq_pusher s' = tq_pusher s \<and> accepted s' = accepted s"
proof -
  have f: "frame_ok sizeof tbl s" and w: "worker_ok tbl s"
    using ok by (simp_all add: tq_ok_def)
  note F = frameD [OF f]
  show ?thesis
  proof (cases "tq_worker s")
    case C_Top
    then show ?thesis
      using step by (auto simp: work_left_def popped_def split: if_splits)
  next
    case C_Wait
    then show ?thesis
      using step ns by (auto simp: stuck_def work_left_def popped_def)
  next
    case (C_Pop b)
    then have lt: "popped s < length (accepted s)" and ne: "ran s \<noteq> []"
      using w by (auto simp: worker_ok_def front_ready_def)
    have s': "s' = s\<lparr>tq_queue := (tq_queue s)\<lparr>q_ridx := q_ridx (tq_queue s) + 1\<rparr>,
        tq_worker := C_Destroy (slot tbl (popped s)) b\<rparr>"
      using step C_Pop lt F(1) frame_size(2) [OF f] frame_at [OF f] by (auto simp: Let_def F(5))
    have "popped s' = Suc (popped s)"
      using ne by (simp add: s' popped_def C_Pop)
    then show ?thesis
      using lt C_Pop by (simp add: work_left_def) (simp add: s')
  next
    case C_Front
    then show ?thesis
      using step by (auto simp: bind_res_Inr work_left_def popped_def)
  next
    case (C_Run t)
    then show ?thesis
      using step by (auto simp: work_left_def popped_def)
  next
    case (C_Destroy p b)
    then show ?thesis
      using step by (auto simp: bind_res_Inr work_left_def popped_def)
  next
    case (C_Count b)
    then show ?thesis
      using step by (auto simp: work_left_def popped_def)
  next
    case C_Done
    then show ?thesis
      using ns by (simp add: stuck_def)
  qed
qed

lemma worker_drains:
  "calm_ok sizeof tbl result s \<Longrightarrow> tq_pusher s = P_Idle \<Longrightarrow>
    \<exists>n s'. run_res (tq_step sizeof result) s (replicate n Work) = Inr s' \<and> calm_ok sizeof tbl result s'
      \<and> stuck s' \<and> tq_pusher s' = P_Idle \<and> accepted s' = accepted s"
proof (induction "work_left s" arbitrary: s rule: less_induct)
  case less
  show ?case
  proof (cases "stuck s")
    case True
    then show ?thesis
      using less.prems by (intro exI [of _ 0]) auto
  next
    case False
    have ok: "tq_ok sizeof tbl result s" and c: "calm_cells tbl s" and nc: "\<not> constructing s"
      using less.prems by (simp_all add: calm_ok_def constructing_def)
    obtain s1 where s1: "work_step result s (tq_worker s) = Inr s1" "calm_cells tbl s1"
      using calm_work [OF ok c nc] by blast
    have "tq_ok sizeof tbl result s1"
      using tq_step_ok [OF ok, of Work s1] s1(1) by simp
    moreover note dec = work_left_less [OF ok False s1(1)]
    ultimately obtain n s' where "run_res (tq_step sizeof result) s1 (replicate n Work) = Inr s'"
        "calm_ok sizeof tbl result s'" "stuck s'" "tq_pusher s' = P_Idle" "accepted s' = accepted s1"
      using less.hyps [of s1] s1(2) less.prems(2) by (auto simp: calm_ok_def)
    then show ?thesis
      using s1(1) dec by (intro exI [of _ "Suc n"]) auto
  qed
qed

text \<open>C30: on a new task queue whose buffer already holds the addresses of distinct raw objects (the code
  stores none there): after any calm schedule, once the pushing thread is done with its call, the
  worker alone gets
  through: in finitely many steps it has run every task accepted and sleeps, or it has stopped
  because a task returned false.\<close>

theorem worker_runs_every_task:
  assumes "started sizeof tbl s" "run_res (calm_step sizeof result) s es = Inr s'" "tq_pusher s' = P_Idle"
  shows "\<exists>n s''. run_res (tq_step sizeof result) s' (replicate n Work) = Inr s'' \<and> accepted s'' = accepted s'
    \<and> (ran s'' = accepted s' \<and> tq_worker s'' = C_Wait
       \<or> tq_worker s'' = C_Done \<and> \<not> result (butlast (ran s'')) (last (ran s'')))"
proof -
  have "calm_ok sizeof tbl result s'"
    using calm.run_safe [OF started_calm [OF assms(1)], of result es] assms(2) by auto
  from worker_drains [OF this assms(3)] obtain n t where
    t: "run_res (tq_step sizeof result) s' (replicate n Work) = Inr t" "calm_ok sizeof tbl result t"
      "stuck t" "tq_pusher t = P_Idle" "accepted t = accepted s'"
    by blast
  have r: "ran_ok result t" "wake_ok t" "frame_ok sizeof tbl t"
    using t(2) by (simp_all add: calm_ok_def tq_ok_def)
  have "ran t = accepted t" if w: "tq_worker t = C_Wait" "tq_sema t = 0"
  proof -
    have "popped t = length (accepted t)"
      using r(2) w t(4) frameD(7) [OF r(3)] by (auto simp: wake_ok_def constructing_def)
    then show ?thesis
      using r(1) w by (simp add: ran_ok_def popped_def)
  qed
  then have "ran t = accepted s' \<and> tq_worker t = C_Wait
      \<or> tq_worker t = C_Done \<and> \<not> result (butlast (ran t)) (last (ran t))"
    using t(3,5) r(1) by (auto simp: stuck_def ran_ok_def last_result_def)
  then show ?thesis
    using t(1,5) by blast
qed

section \<open>A run\<close>

definition task_heap :: "nat qheap" where
  "task_heap = \<lparr>words = \<lambda>a. if a = 4096 then Some 1000 else if a = 4104 then Some 2000 else None,
    objs = \<lambda>_. None, storage = \<lambda>a. a = 1000 \<or> a = 2000\<rparr>"

definition demo_tq :: "nat tq" where
  "demo_tq = \<lparr>tq_queue = \<lparr>q_capacity = 2, q_mask = 1, q_buffer = 4096, q_ridx = 0, q_widx = 0\<rparr>,
    tq_heap = task_heap, tq_processed = 0, tq_sema = 0, tq_pusher = P_Idle, tq_worker = C_Top,
    accepted = [], ran = [], deleted = []\<rparr>"

lemma demo_new: "tq_new (\<lambda>n h. (4096, h)) 40 2 task_heap = Inr demo_tq"
proof -
  have "next_pow2 2 = Inr 2"
    by code_simp
  then show ?thesis
    by (simp add: tq_new_def q_new_def demo_tq_def)
qed

lemma demo_started: "started 40 [1000, 2000] demo_tq"
proof -
  have "(\<forall>i < Suc (Suc 0). P i) \<longleftrightarrow> P 0 \<and> P (Suc 0)" for P
    by (auto simp: less_Suc_eq)
  then show ?thesis
    using demo_new unfolding started_def by (auto simp: demo_tq_def task_heap_def table_ok_def)
qed

text \<open>A push while the worker sleeps; the task runs and the worker sleeps again.\<close>

definition one_task :: "nat tq_event list" where
  "one_task = [Work, Call 7, Push_on, Push_on, Push_on, Push_on, Work, Work, Work, Work, Work, Work, Work, Work]"

lemma one_task_run:
  "\<exists>s. run_res (tq_step 40 (\<lambda>_ _. True)) demo_tq one_task = Inr s
    \<and> tq_worker s = C_Wait \<and> tq_sema s = 0 \<and> tq_pusher s = P_Idle \<and> ran s = [7] \<and> accepted s = [7]"
proof -
  have "case run_res (tq_step 40 (\<lambda>_ _. True)) demo_tq one_task of Inl _ \<Rightarrow> False
      | Inr s \<Rightarrow> tq_worker s = C_Wait \<and> tq_sema s = 0 \<and> tq_pusher s = P_Idle \<and> ran s = [7] \<and> accepted s = [7]"
    by code_simp
  then show ?thesis
    by (auto split: sum.splits)
qed

lemma calm_pushes_run:
  "\<exists>s. run_res (calm_step 40 (\<lambda>_ _. True)) demo_tq [Call 7, Push_on, Work, Push_on, Push_on, Push_on, Call 8, Push_on, Push_on, Push_on] = Inr s
    \<and> tq_pusher s = P_Idle \<and> accepted s = [7, 8]"
proof -
  have "case run_res (calm_step 40 (\<lambda>_ _. True)) demo_tq [Call 7, Push_on, Work, Push_on, Push_on, Push_on, Call 8, Push_on, Push_on, Push_on] of Inl _ \<Rightarrow> False
      | Inr s \<Rightarrow> tq_pusher s = P_Idle \<and> accepted s = [7, 8]"
    by code_simp
  then show ?thesis
    by (auto split: sum.splits)
qed

theorem no_lost_wakeup_witness:
  "\<exists>s. run_res (tq_step 40 (\<lambda>_ _. True)) demo_tq one_task = Inr s \<and> get_current_task_num s = 0"
  using one_task_run no_lost_wakeup [OF demo_started] by blast

theorem tasks_run_in_order_witness:
  "\<exists>s. run_res (tq_step 40 (\<lambda>_ _. True)) demo_tq one_task = Inr s
    \<and> (tq_processed s = of_nat (length (ran s)) \<or> tq_processed s + 1 = of_nat (length (ran s)))"
  using one_task_run tasks_run_in_order [OF demo_started] by blast

theorem push_publishes_too_early_witness:
  "run_res (tq_step 40 (\<lambda>_ _. True)) demo_tq [Call 7, Push_on, Work, Work] = Inl Undefined"
  by (rule push_publishes_too_early [OF demo_started])

theorem calm_schedules_are_safe_witness:
  "\<exists>s. run_res (calm_step 40 (\<lambda>_ _. True)) demo_tq one_task = Inr s
    \<and> length (ran s) \<le> Suc (length (deleted s))"
  using calm_schedules_are_safe [OF demo_started, of "\<lambda>_ _. True" one_task] by blast

theorem worker_runs_every_task_witness:
  "\<exists>s n s'. run_res (calm_step 40 (\<lambda>_ _. True)) demo_tq [Call 7, Push_on, Work, Push_on, Push_on, Push_on, Call 8, Push_on, Push_on, Push_on] = Inr s
    \<and> run_res (tq_step 40 (\<lambda>_ _. True)) s (replicate n Work) = Inr s' \<and> ran s' = [7, 8]"
  using calm_pushes_run worker_runs_every_task [OF demo_started, of "\<lambda>_ _. True"] by fastforce

text \<open>The other window: on a full queue a push may construct its task over the one the worker is about
  to delete. The worker then deletes the new task, the old one is never deleted, and the worker ends
  in undefined behaviour when it comes to the new one.\<close>

theorem pop_releases_too_early:
  "case run_res (tq_step 40 (\<lambda>_ _. True)) demo_tq
      [Call 1, Push_on, Push_on, Push_on, Push_on, Call 2, Push_on, Push_on, Push_on,
       Work, Work, Work, Work, Call 3, Push_on, Push_on, Push_on, Work] of
     Inl _ \<Rightarrow> False
   | Inr s \<Rightarrow> ran s = [1] \<and> deleted s = [3] \<and> accepted s = [1, 2, 3]
       \<and> run_res (tq_step 40 (\<lambda>_ _. True)) s (replicate 9 Work) = Inl Undefined"
  by code_simp

end
