(* ===== verification/Task_Pushers.thy ===== *)
theory Task_Pushers
  imports Task_Queue
begin

text \<open>
  \<^verbatim>\<open>task_queue_thread::push\<close> called by two threads. The one posts the semaphore when it finds a single
  task in the queue after its own push; with another thread pushing, neither may find that. The steps
  are those of \<open>Task_Queue\<close>; the call the other thread is in is kept beside the state, and an event
  hands over between the two. The indices are plain \<^verbatim>\<open>size_t\<close> fields and their updates races as soon as
  two threads push; here each is one step, the most favourable reading of the code.
\<close>

section \<open>Two pushing threads\<close>

datatype 'a mp_event = Thread "'a tq_event" | Switch

fun mp_step ::
    "size_t \<Rightarrow> ('a list \<Rightarrow> 'a \<Rightarrow> bool) \<Rightarrow> 'a tq \<times> 'a pusher \<Rightarrow> 'a mp_event \<Rightarrow> ('a tq \<times> 'a pusher) res" where
  "mp_step sizeof result (s, parked) (Thread e) =
     bind_res (tq_step sizeof result s e) (\<lambda>s. Inr (s, parked))"
| "mp_step sizeof result (s, parked) Switch = Inr (s\<lparr>tq_pusher := parked\<rparr>, tq_pusher s)"

lemma run_threads:
  "run_res (mp_step sizeof result) (s, parked) (map Thread es)
    = bind_res (run_res (tq_step sizeof result) s es) (\<lambda>s. Inr (s, parked))"
proof (induction es arbitrary: s)
  case (Cons e es)
  then show ?case
    by (cases "tq_step sizeof result s e") simp_all
qed simp

section \<open>What a push does to the queue\<close>

definition at_slot :: "u64 list \<Rightarrow> 'a pusher \<Rightarrow> bool" where
  "at_slot tbl x \<longleftrightarrow> (case x of P_Construct t p \<Rightarrow> p \<in> set tbl | _ \<Rightarrow> True)"

lemma push_inner:
  fixes t :: 'a and s :: "'a tq"
  assumes f: "frame_ok sizeof tbl s" and lt: "length (accepted s) < popped s + length tbl"
  defines "s' \<equiv> s\<lparr>tq_queue := (tq_queue s)\<lparr>q_widx := q_widx (tq_queue s) + 1\<rparr>,
      accepted := accepted s @ [t], tq_pusher := P_Construct t (slot tbl (length (accepted s)))\<rparr>"
  shows "push_step sizeof s (P_Inner t) = Inr s'" "frame_ok sizeof tbl s'" "popped s' = popped s"
proof -
  note F = frameD [OF f]
  show p: "popped s' = popped s"
    by (simp add: s'_def popped_def)
  show "push_step sizeof s (P_Inner t) = Inr s'"
    using lt F(1) frame_at [OF f] frame_size(3) [OF f] by (simp add: s'_def F(6) Let_def)
  show "frame_ok sizeof tbl s'"
    using f lt p by (simp add: s'_def frame_ok_def Let_def table_ok_def add.commute)
qed

lemma push_construct:
  assumes f: "frame_ok sizeof tbl s" and p: "p \<in> set tbl"
  shows "\<exists>h. push_step sizeof s (P_Construct t p) = Inr (s\<lparr>tq_heap := h, tq_pusher := P_Check\<rparr>)
    \<and> frame_ok sizeof tbl (s\<lparr>tq_heap := h, tq_pusher := P_Check\<rparr>)
    \<and> popped (s\<lparr>tq_heap := h, tq_pusher := P_Check\<rparr>) = popped s"
proof -
  let ?h = "(tq_heap s)\<lparr>objs := (objs (tq_heap s))(p := Some t),
      words := \<lambda>a. if a - p < sizeof then None else words (tq_heap s) a\<rparr>"
  have t: "table_ok sizeof tbl (tq_queue s) (tq_heap s)"
    using f by (simp add: frame_ok_def Let_def)
  then have "construct sizeof p t (tq_heap s) = Inr ?h"
    using p by (auto simp: construct_def table_ok_def)
  moreover have pop: "popped (s\<lparr>tq_heap := ?h, tq_pusher := P_Check\<rparr>) = popped s"
    by (simp add: popped_def)
  moreover have "frame_ok sizeof tbl (s\<lparr>tq_heap := ?h, tq_pusher := P_Check\<rparr>)"
    using f table_ok_construct [OF t p] unfolding frame_ok_def Let_def pop by simp
  ultimately show ?thesis
    by (intro exI [of _ ?h]) simp
qed

lemma frame_pusher [simp]:
  "frame_ok sizeof tbl (s\<lparr>tq_pusher := x\<rparr>) = frame_ok sizeof tbl s" "popped (s\<lparr>tq_pusher := x\<rparr>) = popped s"
  by (simp_all add: frame_ok_def popped_def Let_def)

lemma push_call:
  assumes f: "frame_ok sizeof tbl s" and idle: "tq_pusher s = P_Idle" and lt: "length (accepted s) < popped s + length tbl"
  shows "\<exists>s'. run_res (tq_step sizeof result) s [Call t, Push_on, Push_on] = Inr s' \<and> frame_ok sizeof tbl s'
    \<and> tq_pusher s' = P_Check \<and> accepted s' = accepted s @ [t] \<and> popped s' = popped s
    \<and> tq_worker s' = tq_worker s \<and> tq_sema s' = tq_sema s \<and> ran s' = ran s"
proof -
  let ?s1 = "s\<lparr>tq_pusher := P_Inner t\<rparr>"
  have f1: "frame_ok sizeof tbl ?s1" and lt1: "length (accepted ?s1) < popped ?s1 + length tbl"
    using f lt by simp_all
  note in1 = push_inner [OF f1 lt1, of t]
  let ?s2 = "?s1\<lparr>tq_queue := (tq_queue ?s1)\<lparr>q_widx := q_widx (tq_queue ?s1) + 1\<rparr>,
      accepted := accepted ?s1 @ [t], tq_pusher := P_Construct t (slot tbl (length (accepted ?s1)))\<rparr>"
  obtain h where h: "push_step sizeof ?s2 (P_Construct t (slot tbl (length (accepted s)))) = Inr (?s2\<lparr>tq_heap := h, tq_pusher := P_Check\<rparr>)"
      "frame_ok sizeof tbl (?s2\<lparr>tq_heap := h, tq_pusher := P_Check\<rparr>)"
      "popped (?s2\<lparr>tq_heap := h, tq_pusher := P_Check\<rparr>) = popped ?s2"
    using push_construct [OF in1(2) slot_mem [OF frameD(3) [OF f]]] by blast
  have "\<not> q_full (tq_queue s)"
    using frame_size(3) [OF f] lt by simp
  then have "run_res (tq_step sizeof result) s [Call t, Push_on, Push_on] = Inr (?s2\<lparr>tq_heap := h, tq_pusher := P_Check\<rparr>)"
    using idle in1(1) h(1) by simp
  then show ?thesis
    using h(2,3) in1(3) by (intro exI [of _ "?s2\<lparr>tq_heap := h, tq_pusher := P_Check\<rparr>"]) simp
qed

text \<open>After a push that leaves two tasks or more, nobody posts.\<close>

lemma check_two:
  assumes "frame_ok sizeof tbl s" "popped s + 2 \<le> length (accepted s)"
  shows "push_step sizeof s P_Check = Inr (s\<lparr>tq_pusher := P_Idle\<rparr>)"
proof -
  have "unat (q_size (tq_queue s)) \<noteq> unat (1 :: size_t)"
    using frame_size(1) [OF assms(1)] assms(2) by simp
  then show ?thesis
    by (auto simp: get_current_task_num_def)
qed

section \<open>The sleep nobody ends\<close>

definition overslept :: "size_t \<Rightarrow> u64 list \<Rightarrow> 'a tq \<times> 'a pusher \<Rightarrow> bool" where
  "overslept sizeof tbl x \<longleftrightarrow>
     (case x of (s, parked) \<Rightarrow>
        frame_ok sizeof tbl s \<and> tq_worker s = C_Wait \<and> tq_sema s = 0 \<and> popped s + 2 \<le> length (accepted s)
        \<and> tq_pusher s \<noteq> P_Post \<and> parked \<noteq> P_Post \<and> at_slot tbl (tq_pusher s) \<and> at_slot tbl parked)"

lemma overslept_push:
  assumes o: "overslept sizeof tbl (s, parked)"
  shows "\<exists>s'. push_step sizeof s (tq_pusher s) = Inr s' \<and> overslept sizeof tbl (s', parked) \<and> ran s' = ran s"
proof -
  have f: "frame_ok sizeof tbl s" and two: "popped s + 2 \<le> length (accepted s)"
    using o by (simp_all add: overslept_def)
  note F = frameD [OF f]
  show ?thesis
  proof (cases "tq_pusher s")
    case (P_Inner t)
    show ?thesis
    proof (cases "length (accepted s) < popped s + length tbl")
      case True
      show ?thesis
        using o P_Inner push_inner [OF f True, of t] slot_mem [OF F(3)] by (simp add: overslept_def at_slot_def)
    next
      case False
      then have "q_full (tq_queue s)"
        using frame_size(3) [OF f] F(8) by simp
      then show ?thesis
        using o P_Inner F(1) by (simp add: overslept_def at_slot_def Let_def)
    qed
  next
    case (P_Construct t p)
    then obtain h where "push_step sizeof s (P_Construct t p) = Inr (s\<lparr>tq_heap := h, tq_pusher := P_Check\<rparr>)"
        "frame_ok sizeof tbl (s\<lparr>tq_heap := h, tq_pusher := P_Check\<rparr>)"
        "popped (s\<lparr>tq_heap := h, tq_pusher := P_Check\<rparr>) = popped s"
      using push_construct [OF f, of p t] o by (auto simp: overslept_def at_slot_def)
    then show ?thesis
      using o P_Construct by (simp add: overslept_def at_slot_def)
  next
    case P_Check
    then show ?thesis
      using o check_two [OF f two] by (simp add: overslept_def at_slot_def)
  qed (use o in \<open>simp_all add: overslept_def\<close>)
qed

interpretation overslept: safe_steps "mp_step sizeof result" "overslept sizeof tbl" "\<lambda>x. ran (fst x)" "\<lambda>r e. r"
  for sizeof :: size_t and result :: "'a list \<Rightarrow> 'a \<Rightarrow> bool" and tbl
proof unfold_locales
  fix x :: "'a tq \<times> 'a pusher" and e :: "'a mp_event"
  assume o: "overslept sizeof tbl x"
  obtain s parked where x: "x = (s, parked)"
    by (cases x)
  note o = o [unfolded x]
  show "\<exists>x'. mp_step sizeof result x e = Inr x' \<and> overslept sizeof tbl x' \<and> ran (fst x') = ran (fst x)"
  proof (cases e)
    case Switch
    then show ?thesis
      using o by (simp add: x overslept_def)
  next
    case (Thread e')
    then show ?thesis
      using o overslept_push [OF o] by (cases e') (auto simp: x overslept_def at_slot_def)
  qed
qed

text \<open>The schedule: the worker finds the queue empty; the one thread pushes \<open>a\<close> up to its look at the size,
  the other pushes \<open>b\<close> and looks, and then the first looks.\<close>

definition crossed_pushes :: "'a \<Rightarrow> 'a \<Rightarrow> 'a mp_event list" where
  "crossed_pushes a b = map Thread [Work, Call a, Push_on, Push_on] @ [Switch]
     @ map Thread [Call b, Push_on, Push_on, Push_on] @ [Switch, Thread Push_on]"

lemma first_push:
  assumes st: "started sizeof tbl s" and two: "2 \<le> length tbl"
  shows "\<exists>s'. run_res (tq_step sizeof result) s [Work, Call a, Push_on, Push_on] = Inr s' \<and> frame_ok sizeof tbl s'
    \<and> tq_pusher s' = P_Check \<and> length (accepted s') = 1 \<and> popped s' = 0
    \<and> tq_worker s' = C_Wait \<and> tq_sema s' = 0 \<and> ran s' = []"
proof -
  note S = started_fields [OF st]
  let ?s = "s\<lparr>tq_worker := C_Wait\<rparr>"
  have f: "frame_ok sizeof tbl s"
    using started_ok [OF st] by (simp add: tq_ok_def)
  have pop: "popped s = 0" "popped ?s = 0"
    by (simp_all add: popped_def S)
  have f': "frame_ok sizeof tbl ?s"
    using f by (simp add: frame_ok_def pop Let_def)
  obtain s' where s': "run_res (tq_step sizeof result) ?s [Call a, Push_on, Push_on] = Inr s'" "frame_ok sizeof tbl s'"
      "tq_pusher s' = P_Check" "accepted s' = accepted ?s @ [a]" "popped s' = popped ?s"
      "tq_worker s' = C_Wait" "tq_sema s' = tq_sema ?s" "ran s' = ran ?s"
  proof -
    have "tq_pusher ?s = P_Idle" "length (accepted ?s) < popped ?s + length tbl"
      using two by (auto simp: S pop)
    from push_call [OF f' this, of result a] show ?thesis
      using that by auto
  qed
  have "q_empty (tq_queue s)"
    using frame_size(2) [OF f] by (simp add: S pop)
  then have "tq_step sizeof result s Work = Inr ?s"
    by (simp add: S)
  then have "run_res (tq_step sizeof result) s [Work, Call a, Push_on, Push_on] = Inr s'"
    unfolding run_res.simps(2) [of _ s Work] by (simp only: bind_res_simps s'(1))
  then show ?thesis
    using s' S pop by auto
qed

lemma second_push:
  assumes f: "frame_ok sizeof tbl s" and two: "2 \<le> length tbl"
    and at: "tq_pusher s = P_Idle" "length (accepted s) = 1" "popped s = 0"
  shows "\<exists>s'. run_res (tq_step sizeof result) s [Call b, Push_on, Push_on, Push_on] = Inr s' \<and> frame_ok sizeof tbl s'
    \<and> tq_pusher s' = P_Idle \<and> length (accepted s') = 2 \<and> popped s' = 0
    \<and> tq_worker s' = tq_worker s \<and> tq_sema s' = tq_sema s \<and> ran s' = ran s"
proof -
  obtain s1 where s1: "run_res (tq_step sizeof result) s [Call b, Push_on, Push_on] = Inr s1" "frame_ok sizeof tbl s1"
      "tq_pusher s1 = P_Check" "accepted s1 = accepted s @ [b]" "popped s1 = popped s"
      "tq_worker s1 = tq_worker s" "tq_sema s1 = tq_sema s" "ran s1 = ran s"
    using push_call [OF f at(1), of result b] two at by auto
  have "run_res (tq_step sizeof result) s [Call b, Push_on, Push_on, Push_on] = Inr (s1\<lparr>tq_pusher := P_Idle\<rparr>)"
    using run_res_append [of "tq_step sizeof result" s "[Call b, Push_on, Push_on]" "[Push_on]"]
      s1 at check_two [OF s1(2)] by simp
  then show ?thesis
    using s1 at by (intro exI [of _ "s1\<lparr>tq_pusher := P_Idle\<rparr>"]) simp
qed

lemma crossed_pushes_oversleep:
  assumes st: "started sizeof tbl s" and two: "2 \<le> length tbl"
  shows "\<exists>x. run_res (mp_step sizeof result) (s, P_Idle) (crossed_pushes a b) = Inr x
    \<and> overslept sizeof tbl x \<and> ran (fst x) = []"
proof -
  obtain s1 where s1: "run_res (tq_step sizeof result) s [Work, Call a, Push_on, Push_on] = Inr s1"
      "frame_ok sizeof tbl s1" "tq_pusher s1 = P_Check" "length (accepted s1) = 1" "popped s1 = 0"
      "tq_worker s1 = C_Wait" "tq_sema s1 = 0" "ran s1 = []"
    using first_push [OF st two] by blast
  obtain s2 where s2: "run_res (tq_step sizeof result) (s1\<lparr>tq_pusher := P_Idle\<rparr>) [Call b, Push_on, Push_on, Push_on] = Inr s2"
      "frame_ok sizeof tbl s2" "tq_pusher s2 = P_Idle" "length (accepted s2) = 2" "popped s2 = 0"
      "tq_worker s2 = C_Wait" "tq_sema s2 = 0" "ran s2 = []"
    using second_push [of sizeof tbl "s1\<lparr>tq_pusher := P_Idle\<rparr>" result b] s1 two by auto
  have last: "run_res (mp_step sizeof result) (s2, P_Check) [Switch, Thread Push_on]
      = Inr (s2\<lparr>tq_pusher := P_Idle\<rparr>, P_Idle)"
    using s2 check_two [of sizeof tbl "s2\<lparr>tq_pusher := P_Check\<rparr>"] by simp
  have switch: "run_res (mp_step sizeof result) (s1, P_Idle) [Switch] = Inr (s1\<lparr>tq_pusher := P_Idle\<rparr>, P_Check)"
    by (simp add: s1(3))
  have "run_res (mp_step sizeof result) (s, P_Idle) (crossed_pushes a b)
      = Inr (s2\<lparr>tq_pusher := P_Idle\<rparr>, P_Idle)"
    unfolding crossed_pushes_def run_res_append run_threads s1(1) bind_res_simps switch s2(1) last ..
  then show ?thesis
    using s2 by (intro exI) (auto simp: overslept_def at_slot_def)
qed

text \<open>C25: two threads that push at the same time can put the worker to sleep for good. If both publish
  their task before either looks at the size, both find two tasks and neither posts the semaphore;
  whatever the three threads do from then on, nothing faults, the worker never runs a task, and no
  later push wakes it, because it finds more than one task in the queue too.\<close>

theorem two_pushers_lose_wakeup:
  assumes "started sizeof tbl s" "2 \<le> length tbl"
  shows "\<exists>s'. run_res (mp_step sizeof result) (s, P_Idle) (crossed_pushes a b @ es) = Inr s'
    \<and> tq_worker (fst s') = C_Wait \<and> tq_sema (fst s') = 0 \<and> ran (fst s') = []
    \<and> 2 \<le> unat (get_current_task_num (fst s'))"
proof -
  obtain x where x: "run_res (mp_step sizeof result) (s, P_Idle) (crossed_pushes a b) = Inr x"
      "overslept sizeof tbl x" "ran (fst x) = []"
    using crossed_pushes_oversleep [OF assms] by blast
  obtain s' where s': "run_res (mp_step sizeof result) x es = Inr s'" "overslept sizeof tbl s'"
      "ran (fst s') = run (\<lambda>r e. r) (ran (fst x)) es"
    using overslept.run_safe [OF x(2)] by blast
  have "run (\<lambda>r e. r) (ran (fst x)) es = ran (fst x)"
    by (induction es) simp_all
  moreover have "2 \<le> unat (get_current_task_num (fst s'))"
    using s'(2) frame_size(1) [of sizeof tbl "fst s'"] by (auto simp: overslept_def get_current_task_num_def)
  ultimately show ?thesis
    using x s' by (intro exI [of _ s']) (auto simp: run_res_append overslept_def)
qed

lemma two_pushers_lose_wakeup_witness:
  "\<exists>s'. run_res (mp_step 40 (\<lambda>_ _. True)) (demo_tq, P_Idle) (crossed_pushes 7 8 @ map Thread [Work, Work, Call 9, Push_on, Work]) = Inr s'
    \<and> tq_worker (fst s') = C_Wait \<and> tq_sema (fst s') = 0 \<and> ran (fst s') = []
    \<and> 2 \<le> unat (get_current_task_num (fst s'))"
  by (rule two_pushers_lose_wakeup [OF demo_started]) simp

end
