(* ===== verification/Backtrace.thy ===== *)
theory Backtrace
  imports Posix
begin

text \<open>
  \<^verbatim>\<open>src/backtrace.{h,c}\<close>: reporting the call stack of the current thread, saving it to a file and
  reporting it from such a file in another process.

  The return addresses of the stack, the dynamic linker's \<^verbatim>\<open>dladdr\<close> and the BFD library that maps an
  offset in a module to a source line are not part of the sources: they are parameters. A stream
  is its bytes; which writes succeed is a parameter, and so is the stack space \<^verbatim>\<open>alloca\<close> may take.
  What is done to BFD objects, to the stream and to the user is recorded as events in order.
\<close>

section \<open>Data\<close>

text \<open>The module path of a frame is the buffer it points to, terminator included if it has one. The
  \<^verbatim>\<open>addrinfo\<close> of a frame is a local variable that nobody initialises: a field that was not assigned
  is \<open>None\<close>.\<close>

record frame_info =
  fi_base :: u64
  fi_offset :: u64
  fi_module :: "u8 list"

record addrinfo =
  ai_module :: cstring
  ai_addr :: u64
  ai_function :: "cstring option"
  ai_file :: "cstring option"
  ai_line :: "u32 option"

datatype bt_event =
    Bfd_opened cstring
  | Bfd_closed cstring
  | Syms_freed cstring
  | Report nat u64 "cstring option" "cstring option" "u32 option"
  | Fclosed

record 'b bfd_ops =
  bfd_openr :: "cstring \<Rightarrow> 'b option"
  bfd_check_format :: "'b \<Rightarrow> bool"
  bfd_has_syms :: "'b \<Rightarrow> bool"
  bfd_read_minisymbols :: "'b \<Rightarrow> bool \<Rightarrow> int"
  bfd_sections :: "'b \<Rightarrow> nat list"
  bfd_find_nearest_line :: "'b \<Rightarrow> nat \<Rightarrow> u64 \<Rightarrow> (cstring option \<times> cstring option \<times> u32) option"

definition c_string :: "u8 list \<Rightarrow> cstring res" where
  "c_string buf = (if 0 \<in> set buf then Inr (takeWhile (\<lambda>b. b \<noteq> 0) buf) else Inl Undefined)"

section \<open>Reporting frames\<close>

definition note_line :: "(cstring option \<times> cstring option \<times> u32) option \<Rightarrow> addrinfo \<Rightarrow> addrinfo" where
  "note_line r a =
     (case r of
        None \<Rightarrow> a
      | Some (filename, function, line) \<Rightarrow>
          a\<lparr>ai_file := (if filename = None then ai_file a else filename),
            ai_function := (if function = None then ai_function a else function),
            ai_line := Some line\<rparr>)"

definition backtrace_get_addrinfo :: "'b bfd_ops \<Rightarrow> frame_info \<Rightarrow> (addrinfo option \<times> bt_event list) res" where
  "backtrace_get_addrinfo ops fi =
     bind_res (c_string (fi_module fi)) (\<lambda>m.
       case bfd_openr ops m of
         None \<Rightarrow> Inr (None, [])
       | Some b \<Rightarrow>
           if \<not> bfd_check_format ops b then Inr (None, [Bfd_opened m, Bfd_closed m])
           else if \<not> bfd_has_syms ops b then Inr (None, [Bfd_opened m, Bfd_closed m])
           else
             let n = bfd_read_minisymbols ops b False;
                 sym_count = (if n = 0 then bfd_read_minisymbols ops b True else n)
             in if sym_count \<le> 0 then Inr (None, [Bfd_opened m, Bfd_closed m])
                else
                  let a = fold (\<lambda>sec. note_line (bfd_find_nearest_line ops b sec (fi_offset fi))) (bfd_sections ops b)
                    \<lparr>ai_module = m, ai_addr = fi_base fi, ai_function = None, ai_file = None, ai_line = None\<rparr>
                  in Inr (Some a, [Bfd_opened m]))"

definition backtrace_addrinfo_free :: "addrinfo \<Rightarrow> bt_event list" where
  "backtrace_addrinfo_free a = [Syms_freed (ai_module a), Bfd_closed (ai_module a)]"

fun dump_frames_from :: "'b bfd_ops \<Rightarrow> nat \<Rightarrow> frame_info list \<Rightarrow> bt_event list res" where
  "dump_frames_from ops i [] = Inr []"
| "dump_frames_from ops i (fi # fis) =
     bind_res (backtrace_get_addrinfo ops fi) (\<lambda>(r, es).
       bind_res (dump_frames_from ops (Suc i) fis) (\<lambda>rest.
         Inr (es @ (case r of
                None \<Rightarrow> []
              | Some a \<Rightarrow> Report i (ai_addr a) (ai_function a) (ai_file a) (ai_line a) # backtrace_addrinfo_free a)
              @ rest)))"

definition backtrace_dump_frames :: "'b bfd_ops \<Rightarrow> frame_info list \<Rightarrow> bt_event list res" where
  "backtrace_dump_frames ops fis = (if fis = [] then Inl Assertion else dump_frames_from ops 0 fis)"

text \<open>\<open>dl\<close> is \<^verbatim>\<open>dladdr\<close>: the base and the path of the module of an address. When it fails, \<^verbatim>\<open>addr_info\<close>
  stays indeterminate, and is used nevertheless.\<close>

fun backtrace_fill_frame_info :: "(u64 \<Rightarrow> (u64 \<times> cstring) option) \<Rightarrow> u64 list \<Rightarrow> frame_info list res" where
  "backtrace_fill_frame_info dl [] = Inr []"
| "backtrace_fill_frame_info dl (frame # frames) =
     (case dl frame of
        None \<Rightarrow> Inl Undefined
      | Some (fbase, fname) \<Rightarrow>
          bind_res (backtrace_fill_frame_info dl frames) (\<lambda>fis.
            Inr (\<lparr>fi_base = fbase, fi_offset = frame - fbase - 1, fi_module = fname @ [0]\<rparr> # fis)))"

definition backtrace_dump ::
    "'b bfd_ops \<Rightarrow> (u64 \<Rightarrow> (u64 \<times> cstring) option) \<Rightarrow> u64 list \<Rightarrow> (int \<times> bt_event list) res" where
  "backtrace_dump ops dl frames =
     (if frames = [] then Inr (- 1, [])
      else bind_res (backtrace_fill_frame_info dl frames) (\<lambda>fis.
             bind_res (backtrace_dump_frames ops fis) (\<lambda>es. Inr (0, es))))"

section \<open>Saving\<close>

fun write_items :: "(u8 list \<Rightarrow> u8 list \<Rightarrow> bool) \<Rightarrow> u8 list list \<Rightarrow> u8 list \<Rightarrow> bool \<times> u8 list" where
  "write_items io [] out = (True, out)"
| "write_items io (b # bs) out = (if io out b then write_items io bs (out @ b) else (False, out))"

definition frame_items :: "frame_info \<Rightarrow> u8 list list" where
  "frame_items fi =
     (let len = length (takeWhile (\<lambda>b. b \<noteq> 0) (fi_module fi)) + 1
      in [le_bytes 8 (fi_base fi), le_bytes 8 (fi_offset fi), le_bytes 8 (of_nat len), take len (fi_module fi)])"

definition backtrace_dump_save ::
    "(u64 \<Rightarrow> (u64 \<times> cstring) option) \<Rightarrow> bool \<Rightarrow> (u8 list \<Rightarrow> u8 list \<Rightarrow> bool) \<Rightarrow> u64 list \<Rightarrow>
     (int \<times> u8 list \<times> bt_event list) res" where
  "backtrace_dump_save dl fdopen_ok io frames =
     (if frames = [] then Inr (- 1, [], [])
      else bind_res (backtrace_fill_frame_info dl frames) (\<lambda>fis.
        if \<not> fdopen_ok then Inr (- 1, [], [])
        else
          let (ok, out) = write_items io (le_bytes 4 (of_nat (length frames)) # concat (map frame_items fis)) []
          in Inr (if ok then 0 else - 1, out, [Fclosed])))"

section \<open>Loading\<close>

definition alloca :: "nat \<Rightarrow> nat \<Rightarrow> nat res" where
  "alloca n space = (if n \<le> space then Inr (space - n) else Inl Undefined)"

text \<open>One \<^verbatim>\<open>fread\<close> of one item: it fails on a short file and for the size 0.\<close>

definition fread_item :: "nat \<Rightarrow> u8 list \<Rightarrow> (u8 list \<times> u8 list) option" where
  "fread_item n bs = (if 0 < n \<and> n \<le> length bs then Some (take n bs, drop n bs) else None)"

fun load_frames :: "nat \<Rightarrow> nat \<Rightarrow> u8 list \<Rightarrow> frame_info list option res" where
  "load_frames 0 space bs = Inr (Some [])"
| "load_frames (Suc k) space bs =
     (case fread_item 8 bs of None \<Rightarrow> Inr None | Some (base, bs) \<Rightarrow>
      case fread_item 8 bs of None \<Rightarrow> Inr None | Some (offset, bs) \<Rightarrow>
      case fread_item 8 bs of None \<Rightarrow> Inr None | Some (len, bs) \<Rightarrow>
      bind_res (alloca (unat (le_word len)) space) (\<lambda>space.
        case fread_item (unat (le_word len)) bs of None \<Rightarrow> Inr None | Some (m, bs) \<Rightarrow>
        bind_res (load_frames k space bs) (\<lambda>r.
          Inr (map_option (\<lambda>fis. \<lparr>fi_base = le_word base, fi_offset = le_word offset, fi_module = m\<rparr> # fis) r))))"

definition sizeof_frame_info :: nat where
  "sizeof_frame_info = 24"

definition backtrace_dump_load ::
    "'b bfd_ops \<Rightarrow> bool \<Rightarrow> nat \<Rightarrow> u8 list \<Rightarrow> (int \<times> bt_event list) res" where
  "backtrace_dump_load ops fdopen_ok space bs =
     (if \<not> fdopen_ok then Inr (- 1, [])
      else case fread_item 4 bs of
        None \<Rightarrow> Inr (- 1, [Fclosed])
      | Some (c, bs) \<Rightarrow>
          let count = sint (ucast (le_word c) :: u32) in
          if count \<le> 0 then Inr (- 1, [Fclosed])
          else bind_res (alloca (nat count * sizeof_frame_info) space) (\<lambda>space.
            bind_res (load_frames (nat count) space bs) (\<lambda>r.
              case r of
                None \<Rightarrow> Inr (- 1, [Fclosed])
              | Some fis \<Rightarrow> bind_res (backtrace_dump_frames ops fis) (\<lambda>es. Inr (0, es @ [Fclosed])))))"

section \<open>The file format\<close>

definition encode_frame :: "frame_info \<Rightarrow> u8 list" where
  "encode_frame fi = concat (frame_items fi)"

definition encode_frames :: "frame_info list \<Rightarrow> u8 list" where
  "encode_frames fis = le_bytes 4 (of_nat (length fis)) @ concat (map encode_frame fis)"

definition fi_ok :: "frame_info \<Rightarrow> bool" where
  "fi_ok fi \<longleftrightarrow> (\<exists>s. 0 \<notin> set s \<and> fi_module fi = s @ [0]) \<and> length (fi_module fi) < 2 ^ 64"

definition module_space :: "frame_info list \<Rightarrow> nat" where
  "module_space fis = sum_list (map (\<lambda>fi. length (fi_module fi)) fis)"

lemma fill_length: "backtrace_fill_frame_info dl frames = Inr fis \<Longrightarrow> length fis = length frames"
  by (induction frames arbitrary: fis) (auto simp: bind_res_Inr split: option.splits)

lemma fill_ok:
  assumes "\<And>a b n. dl a = Some (b, n) \<Longrightarrow> 0 \<notin> set n"
  shows "backtrace_fill_frame_info dl frames = Inr fis \<Longrightarrow> module_space fis < 2 ^ 64 \<Longrightarrow> list_all fi_ok fis"
proof (induction frames arbitrary: fis)
  case (Cons f frames)
  then obtain b n fis' where f: "dl f = Some (b, n)" "backtrace_fill_frame_info dl frames = Inr fis'"
      "fis = \<lparr>fi_base = b, fi_offset = f - b - 1, fi_module = n @ [0]\<rparr> # fis'"
    by (auto simp: bind_res_Inr split: option.splits)
  then show ?case
    using Cons.IH [OF f(2)] Cons.prems(2) assms [OF f(1)] by (auto simp: module_space_def fi_ok_def)
qed simp

lemma takeWhile_module: "0 \<notin> set s \<Longrightarrow> takeWhile (\<lambda>b. b \<noteq> 0) (s @ [0]) = s"
  by (induction s) auto

lemma encode_frame_eq:
  assumes "fi_ok fi"
  shows "encode_frame fi = le_bytes 8 (fi_base fi) @ le_bytes 8 (fi_offset fi)
    @ le_bytes 8 (of_nat (length (fi_module fi))) @ fi_module fi"
proof -
  obtain s where "0 \<notin> set s" "fi_module fi = s @ [0]"
    using assms by (auto simp: fi_ok_def)
  then show ?thesis
    by (simp add: encode_frame_def frame_items_def Let_def takeWhile_module)
qed

lemma fread_item_append: "0 < n \<Longrightarrow> length a = n \<Longrightarrow> fread_item n (a @ b) = Some (a, b)"
  by (simp add: fread_item_def)

text \<open>Reading back what was written, whole or cut short.\<close>

lemma load_frames_encode:
  assumes "list_all fi_ok fis" "module_space fis \<le> space"
  shows "load_frames (length fis) space (concat (map encode_frame fis) @ rest) = Inr (Some fis)"
  using assms
proof (induction fis arbitrary: space)
  case (Cons fi fis)
  have ok: "fi_ok fi" and len: "0 < length (fi_module fi)" "length (fi_module fi) < 2 ^ 64"
    using Cons.prems(1) by (auto simp: fi_ok_def)
  have n: "unat (of_nat (length (fi_module fi)) :: 64 word) = length (fi_module fi)"
    using len(2) by (simp add: unat_of_nat64)
  have al: "alloca (length (fi_module fi)) space = Inr (space - length (fi_module fi))"
    using Cons.prems(2) by (simp add: alloca_def module_space_def)
  have "load_frames (length fis) (space - length (fi_module fi)) (concat (map encode_frame fis) @ rest) = Inr (Some fis)"
    using Cons by (simp add: module_space_def)
  then show ?case
    using len by (simp add: encode_frame_eq [OF ok] fread_item_append n al)
qed simp

lemma fread_item_short: "length bs < n \<Longrightarrow> fread_item n bs = None"
  by (simp add: fread_item_def)

lemma load_frames_short:
  assumes "list_all fi_ok fis" "module_space fis \<le> space" "n < length (concat (map encode_frame fis))"
  shows "load_frames (length fis) space (take n (concat (map encode_frame fis))) = Inr None"
  using assms
proof (induction fis arbitrary: space n)
  case (Cons fi fis)
  have ok: "fi_ok fi" and len: "0 < length (fi_module fi)" "length (fi_module fi) < 2 ^ 64"
    using Cons.prems(1) by (auto simp: fi_ok_def)
  let ?l = "length (fi_module fi)" and ?E = "concat (map encode_frame fis)"
  have u: "unat (of_nat ?l :: 64 word) = ?l"
    using len(2) by (simp add: unat_of_nat64)
  have al: "alloca ?l space = Inr (space - ?l)"
    using Cons.prems(2) by (simp add: alloca_def module_space_def)
  have IH: "load_frames (length fis) (space - ?l) (take m ?E) = Inr None" if "m < length ?E" for m
    using Cons that by (simp add: module_space_def)
  have enc: "concat (map encode_frame (fi # fis))
      = le_bytes 8 (fi_base fi) @ le_bytes 8 (fi_offset fi) @ le_bytes 8 (of_nat ?l) @ fi_module fi @ ?E"
    by (simp add: encode_frame_eq [OF ok])
  have "n < 24 + ?l + length ?E"
    using Cons.prems(3) unfolding enc by simp
  then consider "n < 8" | "8 \<le> n" "n < 16" | "16 \<le> n" "n < 24" | "24 \<le> n" "n < 24 + ?l"
    | "24 + ?l \<le> n" "n - (24 + ?l) < length ?E"
    by linarith
  then show ?case
    unfolding enc by cases (use len in \<open>simp_all add: fread_item_short fread_item_append u al IH\<close>)
qed simp

section \<open>Saving and loading\<close>

lemma write_items_result:
  "write_items io bs out = (ok, out') \<Longrightarrow>
    (\<exists>k \<le> length bs. out' = out @ concat (take k bs)) \<and> (ok \<longrightarrow> out' = out @ concat bs)"
proof (induction bs arbitrary: out)
  case (Cons b bs)
  show ?case
  proof (cases "io out b")
    case True
    then obtain k where "k \<le> length bs" "out' = (out @ b) @ concat (take k bs)" "ok \<longrightarrow> out' = (out @ b) @ concat bs"
      using Cons.IH [of "out @ b"] Cons.prems True by fastforce
    then show ?thesis
      by (intro conjI exI [of _ "Suc k"]) auto
  qed (use Cons.prems in auto)
qed simp

lemma concat_items: "concat (concat (map frame_items fis)) = concat (map encode_frame fis)"
  by (induction fis) (simp_all add: encode_frame_def)

text \<open>Saving reports success only when the whole record (frame count, then base, offset, path length
  and path with terminator of every frame) was written; on a failed write it reports -1 with a
  prefix of that record in the file; and a stream that was opened is closed once on every path.\<close>

theorem dump_save_result:
  assumes "backtrace_fill_frame_info dl frames = Inr fis" "frames \<noteq> []"
    and "backtrace_dump_save dl fdopen_ok io frames = Inr (r, out, es)"
  shows "(r = 0 \<longrightarrow> out = encode_frames fis) \<and> (r = 0 \<or> r = - 1)
    \<and> (\<exists>rest. encode_frames fis = out @ rest) \<and> es = (if fdopen_ok then [Fclosed] else [])"
proof -
  let ?items = "le_bytes 4 (of_nat (length frames)) # concat (map frame_items fis)"
  have all: "concat ?items = encode_frames fis"
    using fill_length [OF assms(1)] by (simp add: encode_frames_def concat_items)
  show ?thesis
  proof (cases fdopen_ok)
    case True
    obtain ok out' where w: "write_items io ?items [] = (ok, out')"
      by fastforce
    then have eq: "r = (if ok then 0 else - 1)" "out = out'" "es = [Fclosed]"
      using assms True by (auto simp: backtrace_dump_save_def Let_def)
    obtain k where k: "out = concat (take k ?items)" and fin: "ok \<longrightarrow> out = concat ?items"
      using write_items_result [OF w] eq(2) by auto
    have "encode_frames fis = out @ concat (drop k ?items)"
      unfolding all [symmetric] k by (metis append_take_drop_id concat_append)
    then show ?thesis
      using eq fin all True by auto
  next
    case False
    then show ?thesis
      using assms by (auto simp: backtrace_dump_save_def)
  qed
qed

lemma count_bytes:
  assumes "n < 2 ^ 31"
  shows "sint (ucast (le_word (le_bytes 4 (of_nat n))) :: 32 word) = int n"
proof -
  have "(ucast (le_word (le_bytes 4 (of_nat n))) :: 32 word) = of_nat n"
    by (rule bit_word_eqI) (auto simp: le_word_le_bytes bit_simps)
  then show ?thesis
    using assms by (simp add: sint_uint signed_take_bit_int_eq_self uint_nat unat_of_nat32)
qed

lemma load_count:
  assumes "0 < length fis" "length fis < 2 ^ 31"
  shows "backtrace_dump_load ops True space (le_bytes 4 (of_nat (length fis)) @ bs) =
    bind_res (alloca (length fis * sizeof_frame_info) space) (\<lambda>space.
      bind_res (load_frames (length fis) space bs) (\<lambda>r.
        case r of
          None \<Rightarrow> Inr (- 1, [Fclosed])
        | Some fis \<Rightarrow> bind_res (backtrace_dump_frames ops fis) (\<lambda>es. Inr (0, es @ [Fclosed]))))"
  using assms by (simp add: backtrace_dump_load_def fread_item_append count_bytes)

text \<open>C26: saving the stack in one process and loading the file in another reports, frame by frame, what
  reporting directly would have reported, given room for the frames on the stack.\<close>

theorem dump_save_load_roundtrip:
  assumes "\<And>a b n. dl a = Some (b, n) \<Longrightarrow> 0 \<notin> set n"
    and "backtrace_fill_frame_info dl frames = Inr fis" "frames \<noteq> []" "length frames \<le> 1024"
    and "length fis * sizeof_frame_info + module_space fis \<le> space" "space < 2 ^ 64"
    and "backtrace_dump_save dl True io frames = Inr (0, out, es)"
  shows "backtrace_dump_load ops True space out =
    bind_res (backtrace_dump ops dl frames) (\<lambda>(r, es). Inr (r, es @ [Fclosed]))"
proof -
  have out: "out = encode_frames fis"
    using dump_save_result [OF assms(2,3,7)] by simp
  have len: "length fis = length frames" "0 < length fis" "length fis < 2 ^ 31"
    using fill_length [OF assms(2)] assms(3,4) by auto
  have ok: "list_all fi_ok fis"
    using fill_ok [OF assms(1,2)] assms(5,6) by simp
  have "load_frames (length fis) (space - length fis * sizeof_frame_info) (concat (map encode_frame fis)) = Inr (Some fis)"
    using load_frames_encode [OF ok, where rest = "[]"] assms(5) by simp
  moreover have "alloca (length fis * sizeof_frame_info) space = Inr (space - length fis * sizeof_frame_info)"
    using assms(5) by (simp add: alloca_def)
  ultimately have "backtrace_dump_load ops True space out =
      bind_res (backtrace_dump_frames ops fis) (\<lambda>es. Inr (0, es @ [Fclosed]))"
    unfolding out encode_frames_def load_count [OF len(2,3)] by simp
  then show ?thesis
    using assms(2,3) by (cases "backtrace_dump_frames ops fis") (auto simp: backtrace_dump_def)
qed

text \<open>C32: a file cut short anywhere is rejected: nothing is reported, the result is -1 and the stream is
  closed.\<close>

theorem dump_load_truncated:
  assumes "list_all fi_ok fis" "fis \<noteq> []" "length fis \<le> 1024"
    and "length fis * sizeof_frame_info + module_space fis \<le> space"
    and "n < length (encode_frames fis)"
  shows "backtrace_dump_load ops True space (take n (encode_frames fis)) = Inr (- 1, [Fclosed])"
proof (cases "n < 4")
  case True
  then show ?thesis
    by (simp add: backtrace_dump_load_def fread_item_short)
next
  case False
  let ?E = "concat (map encode_frame fis)"
  have cut: "take n (encode_frames fis) = le_bytes 4 (of_nat (length fis)) @ take (n - 4) ?E"
    using False by (simp add: encode_frames_def)
  have len: "0 < length fis" "length fis < 2 ^ 31"
    using assms(2,3) by auto
  have "load_frames (length fis) (space - length fis * sizeof_frame_info) (take (n - 4) ?E) = Inr None"
    using assms(1,4,5) False by (intro load_frames_short) (auto simp: encode_frames_def)
  moreover have "alloca (length fis * sizeof_frame_info) space = Inr (space - length fis * sizeof_frame_info)"
    using assms(4) by (simp add: alloca_def)
  ultimately show ?thesis
    unfolding cut load_count [OF len] by simp
qed

text \<open>The file is trusted: a frame count that asks for more stack than there is, or a path without
  terminator, is undefined behaviour.\<close>

theorem dump_load_trusts_file:
  assumes "0 < k" "k < 2 ^ 31"
  shows "(space < k * sizeof_frame_info \<longrightarrow>
      backtrace_dump_load ops True space (le_bytes 4 (of_nat k) @ rest) = Inl Undefined)
    \<and> (0 \<notin> set m \<longrightarrow> 0 < length m \<longrightarrow> sizeof_frame_info + length m \<le> space \<longrightarrow> space < 2 ^ 64 \<longrightarrow>
      backtrace_dump_load ops True space
        (le_bytes 4 1 @ le_bytes 8 b @ le_bytes 8 off @ le_bytes 8 (of_nat (length m)) @ m) = Inl Undefined)"
proof (intro conjI impI)
  assume "space < k * sizeof_frame_info"
  then show "backtrace_dump_load ops True space (le_bytes 4 (of_nat k) @ rest) = Inl Undefined"
    using load_count [of "replicate k undefined" ops space rest] assms by (simp add: alloca_def)
next
  assume m: "0 \<notin> set m" "0 < length m" "sizeof_frame_info + length m \<le> space" "space < 2 ^ 64"
  have "unat (of_nat (length m) :: 64 word) = length m"
    using m(3,4) by (simp add: unat_of_nat64)
  then show "backtrace_dump_load ops True space
      (le_bytes 4 1 @ le_bytes 8 b @ le_bytes 8 off @ le_bytes 8 (of_nat (length m)) @ m) = Inl Undefined"
    using load_count [of "[undefined]" ops space] m fread_item_append [of "length m" m "[]"]
    by (simp add: alloca_def fread_item_append backtrace_dump_frames_def backtrace_get_addrinfo_def c_string_def)
qed

section \<open>Reports and resources\<close>

fun bfd_change :: "bt_event \<Rightarrow> int" where
  "bfd_change (Bfd_opened _) = 1"
| "bfd_change (Bfd_closed _) = - 1"
| "bfd_change _ = 0"

definition bfd_level :: "bt_event list \<Rightarrow> int" where
  "bfd_level es = sum_list (map bfd_change es)"

definition balanced :: "bt_event list \<Rightarrow> bool" where
  "balanced es \<longleftrightarrow> bfd_level es = 0 \<and> (\<forall>k. bfd_level (take k es) \<in> {0, 1})"

fun is_report :: "bt_event \<Rightarrow> bool" where
  "is_report (Report _ _ _ _ _) = True"
| "is_report _ = False"

text \<open>
  What is to be reported of a frame at \<open>off\<close> bytes in the module \<open>m\<close> loaded at \<open>base\<close>, in terms of what BFD
  says: a module counts if it is an object file with symbols that can be read, the static ones or,
  where there are none, the dynamic ones. Of the sections that have a line for the offset, the last
  one gives the line, and the last one that names a file or a function gives that.
\<close>

definition has_symbols :: "'b bfd_ops \<Rightarrow> 'b \<Rightarrow> bool" where
  "has_symbols ops b \<longleftrightarrow>
     bfd_check_format ops b \<and> bfd_has_syms ops b
     \<and> (0 < bfd_read_minisymbols ops b False
        \<or> bfd_read_minisymbols ops b False = 0 \<and> 0 < bfd_read_minisymbols ops b True)"

definition lines_at :: "'b bfd_ops \<Rightarrow> 'b \<Rightarrow> u64 \<Rightarrow> (cstring option \<times> cstring option \<times> u32) list" where
  "lines_at ops b off = List.map_filter (\<lambda>sec. bfd_find_nearest_line ops b sec off) (bfd_sections ops b)"

definition last_given :: "'x option list \<Rightarrow> 'x option" where
  "last_given xs = last (None # filter (\<lambda>x. x \<noteq> None) xs)"

definition expected_report :: "'b bfd_ops \<Rightarrow> nat \<Rightarrow> u64 \<Rightarrow> u64 \<Rightarrow> cstring \<Rightarrow> bt_event list" where
  "expected_report ops i base off m =
     (case bfd_openr ops m of
        None \<Rightarrow> []
      | Some b \<Rightarrow>
          if has_symbols ops b
          then let ls = lines_at ops b off
               in [Report i base (last_given (map (\<lambda>l. fst (snd l)) ls)) (last_given (map fst ls))
                     (last_given (map (\<lambda>l. Some (snd (snd l))) ls))]
          else [])"

lemma last_given_snoc: "last_given (xs @ [x]) = (if x = None then last_given xs else x)"
  by (simp add: last_given_def)

lemma map_filter_snoc: "List.map_filter f (xs @ [x]) = List.map_filter f xs @ (case f x of None \<Rightarrow> [] | Some y \<Rightarrow> [y])"
  by (simp add: List.map_filter_def split: option.split)

lemma noted_lines:
  fixes f :: "nat \<Rightarrow> (cstring option \<times> cstring option \<times> u32) option" and a :: addrinfo
  assumes "ai_function a = None" "ai_file a = None" "ai_line a = None"
  defines "res \<equiv> \<lambda>secs. fold (\<lambda>sec. note_line (f sec)) secs a" and "ls \<equiv> \<lambda>secs. List.map_filter f secs"
  shows "ai_function (res secs) = last_given (map (\<lambda>l. fst (snd l)) (ls secs))
    \<and> ai_file (res secs) = last_given (map fst (ls secs))
    \<and> ai_line (res secs) = last_given (map (\<lambda>l. Some (snd (snd l))) (ls secs))
    \<and> ai_addr (res secs) = ai_addr a"
proof (induction secs rule: rev_induct)
  case Nil
  then show ?case
    by (simp add: res_def ls_def last_given_def assms List.map_filter_def)
next
  case (snoc sec secs)
  then show ?case
    by (auto simp: res_def ls_def note_line_def map_filter_snoc last_given_snoc split: option.split)
qed

lemma addrinfo_spec:
  assumes "c_string (fi_module fi) = Inr m"
  shows "\<exists>r es. backtrace_get_addrinfo ops fi = Inr (r, es)
    \<and> (case r of None \<Rightarrow> [] | Some x \<Rightarrow> [Report i (ai_addr x) (ai_function x) (ai_file x) (ai_line x)])
      = expected_report ops i (fi_base fi) (fi_offset fi) m"
proof (cases "bfd_openr ops m")
  case None
  then show ?thesis
    using assms by (simp add: backtrace_get_addrinfo_def expected_report_def)
next
  case (Some b)
  show ?thesis
  proof (cases "has_symbols ops b")
    case True
    let ?a = "\<lparr>ai_module = m, ai_addr = fi_base fi, ai_function = None, ai_file = None, ai_line = None\<rparr>"
    let ?r = "fold (\<lambda>sec. note_line (bfd_find_nearest_line ops b sec (fi_offset fi))) (bfd_sections ops b) ?a"
    have "backtrace_get_addrinfo ops fi = Inr (Some ?r, [Bfd_opened m])"
      using True Some assms by (auto simp: backtrace_get_addrinfo_def has_symbols_def Let_def)
    then show ?thesis
      using True Some noted_lines [of ?a "\<lambda>sec. bfd_find_nearest_line ops b sec (fi_offset fi)" "bfd_sections ops b"]
      by (simp add: expected_report_def lines_at_def Let_def)
  next
    case False
    then show ?thesis
      using Some assms by (auto simp: backtrace_get_addrinfo_def expected_report_def has_symbols_def Let_def)
  qed
qed

definition frame_module :: "frame_info \<Rightarrow> cstring" where
  "frame_module fi = takeWhile (\<lambda>b. b \<noteq> 0) (fi_module fi)"

definition reports_of :: "'b bfd_ops \<Rightarrow> nat \<times> frame_info \<Rightarrow> bt_event list" where
  "reports_of ops x = expected_report ops (fst x) (fi_base (snd x)) (fi_offset (snd x)) (frame_module (snd x))"

lemma balanced_append: "balanced es \<Longrightarrow> balanced fs \<Longrightarrow> balanced (es @ fs)"
proof -
  assume a: "balanced es" "balanced fs"
  have "bfd_level (take k (es @ fs)) = bfd_level (take k es) + bfd_level (take (k - length es) fs)" for k
    by (simp add: bfd_level_def)
  moreover have "bfd_level (take k es) = 0 \<or> take (k - length es) fs = []" for k
    using a(1) by (cases "k \<le> length es") (simp_all add: balanced_def)
  moreover have "bfd_level [] = 0"
    by (simp add: bfd_level_def)
  ultimately have "bfd_level (take k (es @ fs)) \<in> {0, 1}" for k
    using a by (metis add.left_neutral add.right_neutral balanced_def)
  moreover have "bfd_level (es @ fs) = 0"
    using a by (simp add: balanced_def bfd_level_def)
  ultimately show ?thesis
    by (simp add: balanced_def)
qed

lemma balanced_iff:
  "balanced es \<longleftrightarrow> bfd_level es = 0 \<and> list_all (\<lambda>k. bfd_level (take k es) \<in> {0, 1}) [0..<Suc (length es)]"
proof -
  have "bfd_level (take k es) \<in> {0, 1}" if "list_all (\<lambda>k. bfd_level (take k es) \<in> {0, 1}) [0..<Suc (length es)]" for k
  proof -
    have "bfd_level (take (min k (length es)) es) \<in> {0, 1}"
      using that by (simp add: list_all_iff del: upt_Suc)
    then show ?thesis
      by (cases "k \<le> length es") (simp_all add: min_def)
  qed
  then show ?thesis
    unfolding balanced_def by (auto simp: list_all_iff simp del: upt_Suc)
qed

lemma balanced_small:
  "balanced []" "balanced [Bfd_opened m, Bfd_closed m']"
  "balanced [Bfd_opened m, Report i x fn file l, Syms_freed m', Bfd_closed m'']"
  unfolding balanced_iff by (simp_all add: bfd_level_def)

lemma addrinfo_cases:
  assumes "backtrace_get_addrinfo ops fi = Inr (r, es)"
  obtains "r = None" "es = []"
  | m where "r = None" "es = [Bfd_opened m, Bfd_closed m]"
  | a m where "r = Some a" "es = [Bfd_opened m]"
  using assms by (auto simp: backtrace_get_addrinfo_def bind_res_Inr Let_def split: option.splits if_splits)

lemma dump_frames_events:
  assumes "\<forall>fi \<in> set fis. 0 \<in> set (fi_module fi)"
  shows "\<exists>es. dump_frames_from ops i fis = Inr es \<and> balanced es
    \<and> filter is_report es = concat (map (reports_of ops) (enumerate i fis))"
  using assms
proof (induction fis arbitrary: i)
  case Nil
  then show ?case
    by (simp add: balanced_def bfd_level_def)
next
  case (Cons fi fis)
  have "c_string (fi_module fi) = Inr (frame_module fi)"
    using Cons.prems by (simp add: c_string_def frame_module_def)
  from addrinfo_spec [OF this, of ops i] obtain r es1 where r: "backtrace_get_addrinfo ops fi = Inr (r, es1)"
      "(case r of None \<Rightarrow> [] | Some x \<Rightarrow> [Report i (ai_addr x) (ai_function x) (ai_file x) (ai_line x)])
        = expected_report ops i (fi_base fi) (fi_offset fi) (frame_module fi)"
    by blast
  have e: "backtrace_get_addrinfo ops fi = Inr (r, es1)"
      "(case r of None \<Rightarrow> [] | Some x \<Rightarrow> [Report i (ai_addr x) (ai_function x) (ai_file x) (ai_line x)]) = reports_of ops (i, fi)"
    using r by (simp_all add: reports_of_def)
  obtain es2 where es2: "dump_frames_from ops (Suc i) fis = Inr es2" "balanced es2"
      "filter is_report es2 = concat (map (reports_of ops) (enumerate (Suc i) fis))"
    using Cons.IH [of "Suc i"] Cons.prems by auto
  let ?es = "es1 @ (case r of None \<Rightarrow> [] | Some a \<Rightarrow>
         Report i (ai_addr a) (ai_function a) (ai_file a) (ai_line a) # backtrace_addrinfo_free a)"
  have "balanced ?es"
    by (rule addrinfo_cases [OF e(1)]) (simp_all add: balanced_small backtrace_addrinfo_free_def)
  moreover have "filter is_report es1 = []"
    by (rule addrinfo_cases [OF e(1)]) simp_all
  then have "filter is_report ?es = reports_of ops (i, fi)"
    using e(2) by (auto simp: backtrace_addrinfo_free_def split: option.splits)
  moreover have "dump_frames_from ops i (fi # fis) = Inr (?es @ es2)"
    by (simp add: e(1) es2(1))
  ultimately show ?case
    using balanced_append [of ?es es2] es2(2,3) by (intro exI [of _ "?es @ es2"]) (simp del: append_assoc)
qed

lemma fill_reports:
  assumes "\<forall>f \<in> set frames. dl f \<noteq> None"
  shows "\<exists>fis. backtrace_fill_frame_info dl frames = Inr fis \<and> (\<forall>fi \<in> set fis. 0 \<in> set (fi_module fi))
    \<and> (fis = [] \<longleftrightarrow> frames = [])
    \<and> map (reports_of ops) (enumerate i fis) = map (\<lambda>(j, f). case the (dl f) of (base, name) \<Rightarrow>
        expected_report ops j base (f - base - 1) (takeWhile (\<lambda>b. b \<noteq> 0) name)) (enumerate i frames)"
  using assms
proof (induction frames arbitrary: i)
  case (Cons f frames)
  obtain base name where f: "dl f = Some (base, name)"
    using Cons.prems by fastforce
  obtain fis where "backtrace_fill_frame_info dl frames = Inr fis" "\<forall>fi \<in> set fis. 0 \<in> set (fi_module fi)"
      "map (reports_of ops) (enumerate (Suc i) fis) = map (\<lambda>(j, f). case the (dl f) of (base, name) \<Rightarrow>
        expected_report ops j base (f - base - 1) (takeWhile (\<lambda>b. b \<noteq> 0) name)) (enumerate (Suc i) frames)"
    using Cons.IH [of "Suc i"] Cons.prems by auto
  moreover have "takeWhile (\<lambda>b. b \<noteq> 0) (name @ [0 :: u8]) = takeWhile (\<lambda>b. b \<noteq> 0) name"
    by (induction name) auto
  then have "reports_of ops (i, \<lparr>fi_base = base, fi_offset = f - base - 1, fi_module = name @ [0]\<rparr>)
      = expected_report ops i base (f - base - 1) (takeWhile (\<lambda>b. b \<noteq> 0) name)"
    by (simp add: reports_of_def frame_module_def)
  ultimately show ?case
    using f by simp
qed simp

text \<open>C33: when \<^verbatim>\<open>dladdr\<close> knows every address of a stack that is not empty, the dump returns 0; it calls back once, in frame
  order and with the number of the frame, for exactly the frames whose module BFD opens, recognises
  as an object file, and has symbols for, and passes on the base of the module and the function,
  file and line BFD finds for the offset of the frame in it (where several of its sections have them, the
  last that has); every BFD object opened is closed before
  the next one is opened, and none stays open.\<close>

theorem dump_reports_resolvable_frames:
  assumes "frames \<noteq> []" "\<forall>f \<in> set frames. dl f \<noteq> None"
  shows "\<exists>es. backtrace_dump ops dl frames = Inr (0, es)
    \<and> filter is_report es = concat (map (\<lambda>(i, f). case the (dl f) of (base, name) \<Rightarrow>
        expected_report ops i base (f - base - 1) (takeWhile (\<lambda>b. b \<noteq> 0) name)) (enumerate 0 frames))
    \<and> bfd_level es = 0 \<and> (\<forall>k. bfd_level (take k es) \<in> {0, 1})"
proof -
  obtain fis where fis: "backtrace_fill_frame_info dl frames = Inr fis" "\<forall>fi \<in> set fis. 0 \<in> set (fi_module fi)"
      "fis = [] \<longleftrightarrow> frames = []"
      "map (reports_of ops) (enumerate 0 fis) = map (\<lambda>(i, f). case the (dl f) of (base, name) \<Rightarrow>
        expected_report ops i base (f - base - 1) (takeWhile (\<lambda>b. b \<noteq> 0) name)) (enumerate 0 frames)"
    using fill_reports [OF assms(2)] by blast
  obtain es where "dump_frames_from ops 0 fis = Inr es" "balanced es"
      "filter is_report es = concat (map (reports_of ops) (enumerate 0 fis))"
    using dump_frames_events [OF fis(2)] by blast
  then show ?thesis
    using assms(1) fis by (simp add: backtrace_dump_def backtrace_dump_frames_def balanced_def)
qed

text \<open>\<^verbatim>\<open>dladdr\<close> failing for one address of the stack (a frame in generated code, say) makes the dump
  and the save use indeterminate values: there is no \<^verbatim>\<open>continue\<close> after the entry was cleared.\<close>

theorem dladdr_failure_undefined:
  assumes "f \<in> set frames" "dl f = None"
  shows "backtrace_dump ops dl frames = Inl Undefined \<and> backtrace_dump_save dl fdopen_ok io frames = Inl Undefined"
proof -
  have "backtrace_fill_frame_info dl frames = Inl Undefined"
    using assms
  proof (induction frames)
    case (Cons g frames)
    then show ?case
      by (cases "dl g") auto
  qed simp
  then show ?thesis
    using assms(1) by (auto simp: backtrace_dump_def backtrace_dump_save_def)
qed

lemma fold_note_line:
  "ai_line (fold (\<lambda>sec. note_line (f sec)) secs a) = None \<longleftrightarrow> ai_line a = None \<and> (\<forall>sec \<in> set secs. f sec = None)"
  "ai_function (fold (\<lambda>sec. note_line (f sec)) secs a) = None \<longleftrightarrow>
     ai_function a = None \<and> (\<forall>sec \<in> set secs. \<forall>file fn l. f sec = Some (file, fn, l) \<longrightarrow> fn = None)"
  by (induction secs arbitrary: a) (auto simp: note_line_def split: option.splits prod.splits)

text \<open>The frame is reported even when no section of its module has a line for it, and then the
  function, the file and the line passed to the callback are indeterminate.\<close>

theorem report_may_be_indeterminate:
  assumes "backtrace_get_addrinfo ops fi = Inr (Some a, es)"
    and "c_string (fi_module fi) = Inr m" "bfd_openr ops m = Some b"
  shows "(ai_line a = None \<longleftrightarrow> (\<forall>sec \<in> set (bfd_sections ops b). bfd_find_nearest_line ops b sec (fi_offset fi) = None))
    \<and> (ai_line a = None \<longrightarrow> ai_function a = None)"
proof -
  have a: "a = fold (\<lambda>sec. note_line (bfd_find_nearest_line ops b sec (fi_offset fi))) (bfd_sections ops b)
      \<lparr>ai_module = m, ai_addr = fi_base fi, ai_function = None, ai_file = None, ai_line = None\<rparr>"
    using assms by (auto simp: backtrace_get_addrinfo_def Let_def split: if_splits)
  show ?thesis
    unfolding a fold_note_line by auto
qed

section \<open>Examples\<close>

definition demo_bfd :: "nat bfd_ops" where
  "demo_bfd = \<lparr>bfd_openr = (\<lambda>m. if m = [97] then Some 0 else None), bfd_check_format = (\<lambda>_. True),
    bfd_has_syms = (\<lambda>_. True), bfd_read_minisymbols = (\<lambda>_ dyn. if dyn then 3 else 0),
    bfd_sections = (\<lambda>_. [1, 2]),
    bfd_find_nearest_line = (\<lambda>_ sec off. if sec = 2 \<and> off < 100 then Some (Some [102], Some [103], 7) else None)\<rparr>"

definition demo_dl :: "u64 \<Rightarrow> (u64 \<times> cstring) option" where
  "demo_dl a = (if a < 4096 then None else if a < 8192 then Some (4096, [97]) else Some (8192, [98, 99]))"

definition demo_frames :: "frame_info list" where
  "demo_frames = [\<lparr>fi_base = 4096, fi_offset = 9, fi_module = [97, 0]\<rparr>,
    \<lparr>fi_base = 8192, fi_offset = 4, fi_module = [98, 99, 0]\<rparr>,
    \<lparr>fi_base = 4096, fi_offset = 199, fi_module = [97, 0]\<rparr>]"

lemma demo_fill: "backtrace_fill_frame_info demo_dl [4106, 8197, 4296] = Inr demo_frames"
  by (simp add: demo_dl_def demo_frames_def)

lemma demo_fi_ok: "list_all fi_ok demo_frames"
proof -
  have "\<exists>s. 0 \<notin> set s \<and> [97, 0] = s @ [0 :: u8]" "\<exists>s. 0 \<notin> set s \<and> [98, 99, 0] = s @ [0 :: u8]"
    by (rule exI [of _ "[97]"], simp) (rule exI [of _ "[98, 99]"], simp)
  then show ?thesis
    by (simp add: demo_frames_def fi_ok_def)
qed

lemma demo_save: "\<exists>out. backtrace_dump_save demo_dl True (\<lambda>_ _. True) [4106, 8197, 4296] = Inr (0, out, [Fclosed])"
proof -
  have "write_items (\<lambda>_ _. True) bs out = (True, out @ concat bs)" for bs out
    by (induction bs arbitrary: out) simp_all
  then show ?thesis
    by (simp add: backtrace_dump_save_def demo_fill del: backtrace_fill_frame_info.simps)
qed

lemma demo_dump:
  "backtrace_dump demo_bfd demo_dl [4106, 8197, 4296] = Inr (0,
    [Bfd_opened [97], Report 0 4096 (Some [103]) (Some [102]) (Some 7), Syms_freed [97], Bfd_closed [97],
     Bfd_opened [97], Report 2 4096 None None None, Syms_freed [97], Bfd_closed [97]])"
  by (simp add: backtrace_dump_def demo_fill del: backtrace_fill_frame_info.simps)
    (simp add: demo_frames_def backtrace_dump_frames_def backtrace_get_addrinfo_def c_string_def demo_bfd_def
      backtrace_addrinfo_free_def note_line_def Let_def)

theorem dump_save_result_witness:
  "\<exists>out. backtrace_dump_save demo_dl True (\<lambda>_ _. True) [4106, 8197, 4296] = Inr (0, out, [Fclosed])
    \<and> out = encode_frames demo_frames"
  using demo_save dump_save_result [OF demo_fill] by blast

theorem dump_save_load_roundtrip_witness:
  "\<exists>out. backtrace_dump_save demo_dl True (\<lambda>_ _. True) [4106, 8197, 4296] = Inr (0, out, [Fclosed])
    \<and> backtrace_dump_load demo_bfd True 1000 out = Inr (0,
      [Bfd_opened [97], Report 0 4096 (Some [103]) (Some [102]) (Some 7), Syms_freed [97], Bfd_closed [97],
       Bfd_opened [97], Report 2 4096 None None None, Syms_freed [97], Bfd_closed [97], Fclosed])"
proof -
  obtain out where out: "backtrace_dump_save demo_dl True (\<lambda>_ _. True) [4106, 8197, 4296] = Inr (0, out, [Fclosed])"
    using demo_save by blast
  have "backtrace_dump_load demo_bfd True 1000 out =
      bind_res (backtrace_dump demo_bfd demo_dl [4106, 8197, 4296]) (\<lambda>(r, es). Inr (r, es @ [Fclosed]))"
  proof (rule dump_save_load_roundtrip [OF _ demo_fill _ _ _ _ out])
    show "0 \<notin> set n" if "demo_dl a = Some (b, n)" for a b n
      using that by (auto simp: demo_dl_def split: if_splits)
  qed (simp_all add: demo_frames_def sizeof_frame_info_def module_space_def)
  then show ?thesis
    using out by (simp add: demo_dump)
qed

theorem dump_load_truncated_witness:
  "backtrace_dump_load demo_bfd True 1000 (take 50 (encode_frames demo_frames)) = Inr (- 1, [Fclosed])"
proof (rule dump_load_truncated [OF demo_fi_ok])
  show "50 < length (encode_frames demo_frames)"
    using demo_fi_ok by (simp add: encode_frames_def demo_frames_def encode_frame_eq)
qed (simp_all add: demo_frames_def sizeof_frame_info_def module_space_def)

theorem dump_load_trusts_file_witness:
  "backtrace_dump_load demo_bfd True 1000 (le_bytes 4 (of_nat 1000) @ []) = Inl Undefined"
  using dump_load_trusts_file [of 1000 1000 demo_bfd "[]" "[]" 0 0] by (simp add: sizeof_frame_info_def)

theorem dump_reports_resolvable_frames_witness:
  "\<exists>es. backtrace_dump demo_bfd demo_dl [4106, 8197, 4296] = Inr (0, es)
    \<and> filter is_report es = [Report 0 4096 (Some [103]) (Some [102]) (Some 7), Report 2 4096 None None None]"
proof -
  have "\<forall>f \<in> set [4106, 8197, 4296]. demo_dl f \<noteq> None"
    using demo_fill by (auto split: option.splits)
  from dump_reports_resolvable_frames [OF _ this, of demo_bfd] show ?thesis
    using demo_dump by auto
qed

theorem dladdr_failure_undefined_witness:
  "backtrace_dump demo_bfd demo_dl [4106, 100] = Inl Undefined"
  using dladdr_failure_undefined [of 100 "[4106, 100]" demo_dl demo_bfd] by (simp add: demo_dl_def)

theorem report_may_be_indeterminate_witness:
  "\<exists>a es. backtrace_get_addrinfo demo_bfd (demo_frames ! 2) = Inr (Some a, es) \<and> ai_line a = None \<and> ai_function a = None"
proof -
  have m: "c_string (fi_module (demo_frames ! 2)) = Inr [97]" "bfd_openr demo_bfd [97] = Some 0"
    by (simp_all add: demo_frames_def c_string_def demo_bfd_def)
  obtain a es where a: "backtrace_get_addrinfo demo_bfd (demo_frames ! 2) = Inr (Some a, es)"
    using m by (auto simp: backtrace_get_addrinfo_def demo_bfd_def Let_def)
  have "\<forall>sec \<in> set (bfd_sections demo_bfd 0).
      bfd_find_nearest_line demo_bfd 0 sec (fi_offset (demo_frames ! 2)) = None"
    by (simp add: demo_bfd_def demo_frames_def)
  then show ?thesis
    using a report_may_be_indeterminate [OF a m] by blast
qed

end
