(* ===== verification/Spec2Isabelle.thy ===== *)
theory Spec2Isabelle
  imports Utility Hex Hash_Bytes Ip_Addr Allocator Shared_Ring Circular_Queue Ring_Spsc Ring_Tso
    Lru_Refinement Pooled_Objects Tcp_Server Tcp_Connection Timer_Callbacks Net_Loop Task_Pushers Backtrace
begin

text \<open>
  A model of libflyzero, a C and C++20 library for Linux on x86-64, with the theorems that make its
  parts correct, and those that say where they are not. Names are those of the sources.

  \<^bold>\<open>The program.\<close> The library has three layers. At the bottom are pure helpers (\<^verbatim>\<open>utility\<close>, \<^verbatim>\<open>hex\<close>,
  \<^verbatim>\<open>hash\<close>, the address types, \<^verbatim>\<open>allocator\<close>) and the owner of a file descriptor. Above them are
  containers: a byte ring in shared memory (\<^verbatim>\<open>circular_buffer\<close>), a bounded object queue
  (\<^verbatim>\<open>circular_queue\<close>), an LRU cache and a memory pool. On top are the active parts: the epoll loop
  (\<^verbatim>\<open>event_dispatch\<close>), the TCP server and connection that hang on it (a connection moves bytes between
  its socket and two byte rings), a worker thread fed through a circular queue
  (\<^verbatim>\<open>task_queue_thread\<close>), and the stack reporter (\<^verbatim>\<open>backtrace\<close>).

  \<^bold>\<open>Theories and sources.\<close>

  \<^item> \<open>Prelude\<close>: machine integers at their width, the result type \<open>'a res\<close> (a \<open>fault\<close> or a value),
    masks and powers of two, little-endian words, clock arithmetic, and the locales of step functions
    that every stateful component interprets: \<open>invariant_steps\<close>, \<open>refined_steps\<close>, \<open>checked_steps\<close>
    (a step may fault) and \<open>safe_steps\<close> (it never does).
  \<^item> \<open>Utility\<close>, \<open>Hex\<close>, \<open>Hash_Bytes\<close>, \<open>Ip_Addr\<close>, \<open>Allocator\<close>: the helpers, one function of the source
    per definition. Round trip of the hexadecimal reader, the least power of two, the hash as the
    exclusive or of padded words, equality and hash of addresses.
  \<^item> \<open>Posix\<close>: system calls. An \<open>os\<close> is any strategy that answers a call from the calls before it; a
    function returns its result and the longer trace. \<open>held\<close> reads off the descriptors open after a
    trace; \<open>view_of\<close> which file is behind each descriptor, what sizes files were given, and what is
    mapped where (by the flags and the descriptor of each \<^verbatim>\<open>mmap\<close>, \<^verbatim>\<open>mremap\<close> and \<^verbatim>\<open>munmap\<close>); \<open>vmap\<close> is its address space.
  \<^item> \<open>Ring\<close>, \<open>Byte_Ring\<close>: rings of cells, and the contract of a byte ring as a locale.
  \<^item> \<open>Circular_Buffer\<close> (\<^verbatim>\<open>circular_buffer.c\<close>, lines 38 to 74 and 208 to 250): header, pieces, push and pop,
    interpreted as a byte ring: first in, first out across every wrap-around. \<open>Ring_Spsc\<close>: one
    producer and one consumer, every interleaving of their accesses. \<open>Ring_Tso\<close>: the same two sides when
    each store waits in its processor's store buffer (x86-TSO). \<open>Shm_Buffer\<close> (the rest of the file): the
    double mapping, creation, attachment, removal. \<open>Shared_Ring\<close>: one memory of the system, in which a file has its
    cells and each process its private ones; two processes that create and attach a ring of one name reach
    the cells of one file, each through the mappings its own calls made, and header and data are bytes
    of that file: the ring of records and cells is what those bytes say.
  \<^item> \<open>Circular_Queue\<close> (\<^verbatim>\<open>circular_queue.h\<close>): refinement of a bounded list, given a buffer that already holds
    pointers; without one the first push is undefined.
  \<^item> \<open>Task_Queue\<close> (\<^verbatim>\<open>task_queue_thread.{h,cpp}\<close>): the worker and one pushing thread on that queue, for every
    schedule: order, no lost wake-up, the two windows in which they race, and the progress of the
    worker when schedules avoid them. \<open>Task_Pushers\<close>: a second pushing thread, with which the worker can
    be left asleep.
  \<^item> \<open>Lru_Cache\<close> (\<^verbatim>\<open>lru_cache.h\<close>): list and table in agreement, every operation on every branch, and the
    order of deadlines in every reachable cache, on which \<^verbatim>\<open>clear_expired\<close> relies. \<open>Lru_Refinement\<close>:
    sequences of client calls refine a list of entries by last use, with a bound on the memory needed.
  \<^item> \<open>Mempool\<close> (\<^verbatim>\<open>mempool.{h,cpp}\<close>): the intrusive lists as doubly linked lists in a heap of headers, and
    disjointness of the blocks a client holds. \<open>Pooled_Objects\<close>: arrays of objects kept in the pool
    through \<^verbatim>\<open>allocator.h\<close>, where constructing an object ends the life of those it overlaps.
  \<^item> \<open>File_Descriptor\<close> (\<^verbatim>\<open>file_descriptor.h\<close>): every program over the class owns each descriptor once.
  \<^item> \<open>Tcp_Server\<close>, \<open>Tcp_Connection\<close>, \<open>Event_Dispatch\<close>: the handlers of the loop. No descriptor leaks, no
    byte is lost between socket, ring and user handler, timers that are due fire once and in order.
    \<open>Timer_Callbacks\<close>: callbacks that register timeouts, which may move the array the loop holds a
    reference into, and loop listeners that change the list that is being gone through.
  \<^item> \<open>Call_Frames\<close>, \<open>Net_Loop\<close>: their composition. Rounds of the loop run the handlers of any number of servers
    and connections on one sequence of system calls; between rounds servers are opened, connections are
    made of accepted sockets, and both destroyed; a connection may destroy itself when closed: descriptors and bytes are accounted for throughout,
    and no dead listener is called unless one event reports a socket both readable and writable (or a handler
    destroys the listener of another event of the batch, which the model leaves out).
  \<^item> \<open>Backtrace\<close> (\<^verbatim>\<open>backtrace.{h,c}\<close>): reporting, the file format and its round trip, rejection of files cut
    short, and balance of the BFD objects.

  \<^bold>\<open>Conventions.\<close> State is a record passed and returned. Undefined behaviour, a failed assertion and a
  thrown exception are faults, \<open>Inl\<close> of a result; a theorem that a call returns says so with \<open>Inr\<close>. Code
  that is not in the repository is a parameter: the kernel, the user's handlers and allocators, the
  containers of Boost (\<open>boost_contract\<close> states what their documentation promises, and is
  instantiated by lists and association lists), \<^verbatim>\<open>dladdr\<close> and BFD. Loops that need the kernel or a
  handler to stop are \<open>partial_function (option)\<close>, where \<open>None\<close> is not returning; the theorems about
  them prove \<open>Some\<close> from a bound on what the kernel delivers. No loop is bounded by fuel: runs are
  lists of events of any length.

  \<^bold>\<open>Not modelled.\<close> Memory weaker than x86-TSO for the byte ring, and weaker than sequential consistency
  for the task queue, although the code has plain accesses and no fences. More than one producer of
  the byte ring, more than two threads that push tasks, torn updates of an index by two of them, and
  tasks that push tasks. Callbacks of the event loop that register, remove or destroy I/O listeners other than the
  one that is called; in \<open>Net_Loop\<close> the callbacks of timers and of the loop do nothing, and in
  \<open>dispatch_timeout\<close> of \<open>Event_Dispatch\<close> they register nothing (\<open>on_timeout\<close> of \<open>Timer_Callbacks\<close> is the case
  where they do). The layout of the timeout queue: \<open>timer_insert\<close> stands for \<^verbatim>\<open>std::priority_queue\<close>. Bytes that a
  successful \<^verbatim>\<open>fwrite\<close> left in the buffer and that are lost when \<^verbatim>\<open>fclose\<close>, whose result is ignored, flushes it. The
  alignment of the words \<^verbatim>\<open>hash_bytes\<close> reads. In the pool, an object that is written after its array was
  freed. Exceptions thrown by element constructors. The defaulted moves of the cache and of the
  listeners, which are those of their members. \<^verbatim>\<open>mempool::usage_ratio\<close>, which
  returns 0.0; \<^verbatim>\<open>address\<close> and the accessors of the allocator, which return their operand or a field; the
  text of error messages. \<^verbatim>\<open>memory.h\<close>, \<^verbatim>\<open>memory.cpp\<close>, \<^verbatim>\<open>ipv4_addr.cpp\<close> and \<^verbatim>\<open>ipv6_addr.cpp\<close> hold no
  code, and the tests and build files are not part of the library.
\<close>

end
